(* ===== verification/Prelude.thy ===== *)
theory Prelude
  imports Main "HOL-Library.Multiset"
begin

section \<open>Shared vocabulary of the development\<close>

text \<open>
  What every component theory uses: Go maps and the orders a \<open>range\<close> loop may visit them in,
  reachability of a step relation with the locales that carry an invariant or a simulation from
  single steps to every reachable state, the contract of a keyed store (a Go map or a
  \<open>sync.Map\<close>), and the arithmetic of counting the members of a bag of goroutines.
\<close>

named_theorems enum_intros \<open>introduction rules for enumerations of a Go map\<close>
named_theorems bag_simps \<open>counting over a bag of goroutines\<close>

type_synonym gostring = string
type_synonym goerror = string

subsection \<open>Go maps and their iteration orders\<close>

text \<open>
  A Go map is a partial function. A \<open>range\<close> loop visits its entries once each, in an order the
  language leaves open; the operations that loop over a map take that order as an argument, a
  list \<open>xs\<close> with \<open>enumerates m xs\<close>.
\<close>

definition enumerates :: "('k \<rightharpoonup> 'v) \<Rightarrow> ('k \<times> 'v) list \<Rightarrow> bool" where
  "enumerates m xs \<longleftrightarrow> distinct (map fst xs) \<and> map_of xs = m"

lemma enumerates_empty [simp, enum_intros]: "enumerates Map.empty []"
  by (simp add: enumerates_def)

lemma enumerates_map_of [enum_intros]: "distinct (map fst xs) \<Longrightarrow> enumerates (map_of xs) xs"
  by (simp add: enumerates_def)

lemma enumerates_set: "enumerates m xs \<Longrightarrow> (k, v) \<in> set xs \<longleftrightarrow> m k = Some v"
  by (auto simp: enumerates_def)

lemma enumerates_dom: "enumerates m xs \<Longrightarrow> fst ` set xs = dom m"
  unfolding enumerates_def using dom_map_of_conv_image_fst by metis

lemma enumerates_ran: "enumerates m xs \<Longrightarrow> snd ` set xs = ran m"
  unfolding enumerates_def using ran_distinct by metis

lemma enumerates_finite: "enumerates m xs \<Longrightarrow> finite (dom m)"
  using enumerates_dom by (metis List.finite_set finite_imageI)

lemma enumerates_distinct: "enumerates m xs \<Longrightarrow> distinct xs"
  by (auto simp: enumerates_def distinct_map)

lemma enumerates_mset:
  assumes "enumerates m xs" "enumerates m ys"
  shows "mset xs = mset ys"
proof -
  have "set xs = set ys"
    using enumerates_set[OF assms(1)] enumerates_set[OF assms(2)] by (auto simp: set_eq_iff)
  with assms show ?thesis
    by (metis enumerates_distinct set_eq_iff_mset_eq_distinct)
qed

lemma enumerates_length: "enumerates m xs \<Longrightarrow> length xs = card (dom m)"
  unfolding enumerates_def
  by (metis distinct_card dom_map_of_conv_image_fst length_map list.set_map)

lemma map_of_rev_keys:
  assumes "distinct (map fst xs)"
  shows "map_of (rev xs) = map_of xs"
proof
  fix k
  have d: "distinct (map fst (rev xs))" using assms by (simp flip: rev_map)
  show "map_of (rev xs) k = map_of xs k"
  proof (cases "map_of xs k")
    case None
    moreover from this have "map_of (rev xs) k = None" by (simp add: map_of_eq_None_iff)
    ultimately show ?thesis by simp
  next
    case (Some v)
    then have "(k, v) \<in> set xs" by (rule map_of_SomeD)
    then have "map_of (rev xs) k = Some v" by (simp add: map_of_eq_Some_iff[OF d])
    with Some show ?thesis by simp
  qed
qed

lemma enumerates_exists: "finite (dom m) \<Longrightarrow> \<exists>xs. enumerates m xs"
proof -
  assume "finite (dom m)"
  then obtain ks where ks: "set ks = dom m" "distinct ks"
    using finite_distinct_list by metis
  have "map_of (map (\<lambda>k. (k, the (m k))) ks) = m"
    by (rule ext) (use ks in \<open>auto simp: map_of_map_restrict restrict_map_def dom_def\<close>)
  with ks have "enumerates m (map (\<lambda>k. (k, the (m k))) ks)"
    by (simp add: enumerates_def comp_def)
  then show ?thesis ..
qed

subsection \<open>Reachable states, invariants and simulations\<close>

text \<open>
  A component with concurrent callers is a set of initial states and a step relation, one rule
  per atomic action of the code. The states it can be in are those reached from an initial one.
\<close>

inductive reach :: "('s \<Rightarrow> bool) \<Rightarrow> ('s \<Rightarrow> 's \<Rightarrow> bool) \<Rightarrow> 's \<Rightarrow> bool"
  for initial :: "'s \<Rightarrow> bool" and step :: "'s \<Rightarrow> 's \<Rightarrow> bool" where
  reach_initial: "initial s \<Longrightarrow> reach initial step s"
| reach_step: "reach initial step s \<Longrightarrow> step s t \<Longrightarrow> reach initial step t"

lemma reach_mono:
  assumes "reach i r s" and "\<And>s t. r s t \<Longrightarrow> r' s t"
  shows "reach i r' s"
  using assms(1) by induction (auto intro: reach.intros assms(2))

lemma reach_trans:
  assumes "r\<^sup>*\<^sup>* s t" and "reach i r s"
  shows "reach i r t"
  using assms by (induction) (auto intro: reach.intros)

text \<open>A run from one initial state is a run from an initial state.\<close>

lemma reach_from_initial:
  assumes "reach (\<lambda>x. x = s0) step s" "initial s0"
  shows "reach initial step s"
  using assms(1) by induction (auto intro: reach.intros assms(2))

text \<open>
  The contract of an invariant: it holds initially and every step from a state that satisfies it
  leads to one that does.
\<close>

locale invariant_machine =
  fixes initial :: "'s \<Rightarrow> bool" and step :: "'s \<Rightarrow> 's \<Rightarrow> bool" and inv :: "'s \<Rightarrow> bool"
  assumes inv_initial: "initial s \<Longrightarrow> inv s"
    and inv_step: "step s t \<Longrightarrow> inv s \<Longrightarrow> inv t"
begin

lemma reach_inv: "reach initial step s \<Longrightarrow> inv s"
  by (induction rule: reach.induct) (auto intro: inv_initial inv_step)

lemma steps_inv: "step\<^sup>*\<^sup>* s t \<Longrightarrow> inv s \<Longrightarrow> inv t"
  by (induction rule: rtranclp_induct) (auto intro: inv_step)

end

text \<open>
  The contract of a simulation: under the invariant, every concrete step is an abstract step
  between the abstractions of its two states, or leaves the abstraction as it is.
\<close>

locale simulation = invariant_machine initial step inv
  for initial :: "'s \<Rightarrow> bool" and step :: "'s \<Rightarrow> 's \<Rightarrow> bool" and inv :: "'s \<Rightarrow> bool" +
  fixes ainitial :: "'a \<Rightarrow> bool" and astep :: "'a \<Rightarrow> 'a \<Rightarrow> bool" and abs :: "'s \<Rightarrow> 'a"
  assumes abs_initial: "initial s \<Longrightarrow> ainitial (abs s)"
    and abs_step: "step s t \<Longrightarrow> inv s \<Longrightarrow> abs t = abs s \<or> astep (abs s) (abs t)"
begin

lemma reach_abs: "reach initial step s \<Longrightarrow> reach ainitial astep (abs s)"
proof (induction rule: reach.induct)
  case (reach_initial s)
  then show ?case by (blast intro: reach.reach_initial abs_initial)
next
  case (reach_step s t)
  then have "abs t = abs s \<or> astep (abs s) (abs t)"
    using abs_step reach_inv by blast
  with reach_step.IH show ?case by (auto intro: reach.reach_step)
qed

end

text \<open>A labelled machine run along a list of events.\<close>

inductive run :: "('s \<Rightarrow> 'e \<Rightarrow> 's \<Rightarrow> bool) \<Rightarrow> 's \<Rightarrow> 'e list \<Rightarrow> 's \<Rightarrow> bool"
  for step :: "'s \<Rightarrow> 'e \<Rightarrow> 's \<Rightarrow> bool" where
  run_nil: "run step s [] s"
| run_cons: "step s e t \<Longrightarrow> run step t es u \<Longrightarrow> run step s (e # es) u"

inductive_simps run_Nil_iff [simp]: "run step s [] t"
inductive_simps run_Cons_iff: "run step s (e # es) t"

lemma run_append: "run step s es t \<Longrightarrow> run step t fs u \<Longrightarrow> run step s (es @ fs) u"
  by (induction rule: run.induct) (auto intro: run.intros)

lemma run_snoc: "run step s es t \<Longrightarrow> step t e u \<Longrightarrow> run step s (es @ [e]) u"
  by (rule run_append) (auto intro: run.intros)

lemma run_reach:
  assumes "run step s es t" and "reach initial (\<lambda>x y. \<exists>e. step x e y) s"
  shows "reach initial (\<lambda>x y. \<exists>e. step x e y) t"
  using assms by (induction rule: run.induct) (auto intro: reach.reach_step)

subsection \<open>Keyed stores\<close>

text \<open>
  A Go map, or a \<open>sync.Map\<close>, as its clients see it: reading a key after writing one. The
  clients' lemmas are about a sequence of writes.
\<close>

locale keyed_store =
  fixes lookup :: "'s \<Rightarrow> 'k \<Rightarrow> 'v option" and store :: "'k \<Rightarrow> 'v \<Rightarrow> 's \<Rightarrow> 's"
  assumes lookup_store: "lookup (store k v s) = (lookup s)(k \<mapsto> v)"
begin

lemma lookup_store_all:
  "lookup (fold (\<lambda>(k, v). store k v) kvs s) = lookup s ++ map_of (rev kvs)"
proof (induction kvs arbitrary: s)
  case Nil
  then show ?case by simp
next
  case (Cons kv kvs)
  obtain k v where "kv = (k, v)" by (cases kv)
  then have "lookup (fold (\<lambda>(k, v). store k v) (kv # kvs) s)
      = (lookup s)(k \<mapsto> v) ++ map_of (rev kvs)"
    by (auto simp: Cons.IH lookup_store map_add_def fun_eq_iff split: option.splits)
  also have "\<dots> = lookup s ++ map_of (rev kvs @ [(k, v)])"
    by (rule ext) (auto simp: map_add_def split: option.splits)
  finally show ?case by (simp add: \<open>kv = (k, v)\<close>)
qed

lemma store_last_wins:
  "lookup (fold (\<lambda>(k, v). store k v) (kvs @ [(k, v)]) s) k = Some v"
  by (simp add: lookup_store)

lemma store_keeps_keys:
  "dom (lookup (fold (\<lambda>(k, v). store k v) kvs s)) = dom (lookup s) \<union> fst ` set kvs"
  by (simp add: lookup_store_all dom_map_of_conv_image_fst Un_commute)

lemma store_finite_keys:
  "finite (dom (lookup s)) \<Longrightarrow> finite (dom (lookup (fold (\<lambda>(k, v). store k v) kvs s)))"
  by (simp add: store_keeps_keys)

end

locale keyed_store_del = keyed_store lookup store
  for lookup :: "'s \<Rightarrow> 'k \<Rightarrow> 'v option" and store :: "'k \<Rightarrow> 'v \<Rightarrow> 's \<Rightarrow> 's" +
  fixes remove :: "'k \<Rightarrow> 's \<Rightarrow> 's"
  assumes lookup_remove: "lookup (remove k s) = (lookup s)(k := None)"
begin

lemma remove_store_other:
  "k \<noteq> k' \<Longrightarrow> lookup (remove k (store k' v s)) k' = Some v"
  by (simp add: lookup_store lookup_remove)

lemma remove_all_lookup: "lookup (fold remove ks s) = (lookup s) |` (- set ks)"
  by (induction ks arbitrary: s)
    (auto simp: lookup_remove restrict_map_def fun_eq_iff)

lemma remove_all_empty: "dom (lookup s) \<subseteq> set ks \<Longrightarrow> lookup (fold remove ks s) = Map.empty"
  by (auto simp: remove_all_lookup restrict_map_def fun_eq_iff dom_def)

end

subsection \<open>Counting in a bag of goroutines\<close>

text \<open>
  The goroutines of a component are a multiset of activities (calls in progress, background
  goroutines). Invariants count the activities with a property; a step replaces one activity.
\<close>

definition count_if :: "('a \<Rightarrow> bool) \<Rightarrow> 'a multiset \<Rightarrow> nat" where
  "count_if P M = size (filter_mset P M)"

lemma count_if_empty [simp, bag_simps]: "count_if P {#} = 0"
  by (simp add: count_if_def)

lemma count_if_add [simp, bag_simps]:
  "count_if P (add_mset x M) = (if P x then Suc (count_if P M) else count_if P M)"
  by (simp add: count_if_def)

lemma count_if_union [simp, bag_simps]: "count_if P (M + N) = count_if P M + count_if P N"
  by (simp add: count_if_def)

lemma count_if_zero: "count_if P M = 0 \<longleftrightarrow> (\<forall>x \<in># M. \<not> P x)"
  by (induction M) auto

lemma count_if_pos: "0 < count_if P M \<longleftrightarrow> (\<exists>x \<in># M. P x)"
  using count_if_zero[of P M] by (metis neq0_conv)

lemma count_if_mono: "(\<And>x. x \<in># M \<Longrightarrow> P x \<Longrightarrow> Q x) \<Longrightarrow> count_if P M \<le> count_if Q M"
  by (induction M) (auto simp: le_SucI)

lemma count_if_cong:
  "(\<And>x. x \<in># M \<Longrightarrow> P x \<longleftrightarrow> Q x) \<Longrightarrow> count_if P M = count_if Q M"
  by (induction M) auto

lemma count_if_two:
  assumes "add_mset x (add_mset y N) \<subseteq># M" "P x" "P y"
  shows "2 \<le> count_if P M"
proof -
  from assms(1) obtain K where "M = add_mset x (add_mset y N) + K"
    using mset_subset_eq_exists_conv by blast
  with assms(2,3) show ?thesis by simp
qed

subsection \<open>Buffered channels that drop, and times\<close>

text \<open>
  A send inside \<open>select\<close> with a \<open>default\<close> branch on a buffered channel: it succeeds while the
  buffer has room and is skipped otherwise. The buffer is the list of values not yet received.
\<close>

definition try_send :: "nat \<Rightarrow> 'a \<Rightarrow> 'a list \<Rightarrow> 'a list" where
  "try_send cap x buf = (if length buf < cap then buf @ [x] else buf)"

lemma try_send_length: "length buf \<le> cap \<Longrightarrow> length (try_send cap x buf) \<le> cap"
  by (simp add: try_send_def)

lemma try_send_keeps: "set buf \<subseteq> set (try_send cap x buf)"
  by (auto simp: try_send_def)

lemma try_send_room: "length buf < cap \<Longrightarrow> try_send cap x buf = buf @ [x]"
  by (simp add: try_send_def)

lemma try_send_full: "cap \<le> length buf \<Longrightarrow> try_send cap x buf = buf"
  by (simp add: try_send_def)

text \<open>\<open>time.Time\<close>: the zero value, or an instant in Unix seconds and nanoseconds.\<close>

datatype gotime = ZeroTime | At int nat

fun time_is_zero :: "gotime \<Rightarrow> bool" where
  "time_is_zero ZeroTime = True"
| "time_is_zero (At s n) = False"

fun time_unix :: "gotime \<Rightarrow> int" where
  "time_unix ZeroTime = -62135596800"
| "time_unix (At s n) = s"

end
