(* ===== verification/Cluster_Lock.thy ===== *)
theory Cluster_Lock
  imports Prelude
begin

section \<open>cluster/lock.go: the in-memory distributed lock\<close>

text \<open>
  \<open>InMemoryLock\<close> at two levels. The data and the critical sections under \<open>il.mu\<close> are functions on
  \<open>in_memory_lock\<close>: the map from keys to \<open>keyMutex\<close> addresses and the heap those addresses point
  into. The calls \<open>Lock\<close>, \<open>TryLock\<close>, \<open>Unlock\<close> and \<open>IsLocked\<close> are a step relation, one rule per
  atomic action, over the bag of calls in progress of any number of goroutines. \<open>WithLock\<close> and
  the interface \<open>DistributedLock\<close> are at the end: a locale with the client proved inside it and
  its interpretation on the sequential operations.
\<close>

subsection \<open>Data and the critical sections\<close>

type_synonym kmref = nat

record key_mutex =
  km_locked :: bool
  km_waiters :: int

record in_memory_lock =
  il_locks :: "gostring \<rightharpoonup> kmref"
  il_heap :: "kmref \<Rightarrow> key_mutex"
  il_next :: kmref

definition new_in_memory_lock :: in_memory_lock where
  "new_in_memory_lock =
     \<lparr>il_locks = Map.empty, il_heap = (\<lambda>_. \<lparr>km_locked = False, km_waiters = 0\<rparr>), il_next = 0\<rparr>"

definition get_or_create :: "gostring \<Rightarrow> in_memory_lock \<Rightarrow> kmref \<times> in_memory_lock" where
  "get_or_create key il =
     (let (km, il1) =
        (case il_locks il key of
           Some a \<Rightarrow> (a, il)
         | None \<Rightarrow>
            (il_next il,
             il\<lparr>il_locks := (il_locks il)(key \<mapsto> il_next il),
                il_heap := (il_heap il)(il_next il := \<lparr>km_locked = False, km_waiters = 0\<rparr>),
                il_next := Suc (il_next il)\<rparr>))
      in (km, il1\<lparr>il_heap := (il_heap il1)(km := (il_heap il1 km)
                   \<lparr>km_waiters := km_waiters (il_heap il1 km) + 1\<rparr>)\<rparr>))"

text \<open>The section shared by a cancelled \<open>Lock\<close>, a failed \<open>TryLock\<close> and \<open>Unlock\<close>.\<close>

definition drop_waiter :: "gostring \<Rightarrow> kmref \<Rightarrow> in_memory_lock \<Rightarrow> in_memory_lock" where
  "drop_waiter key a il =
     (let w = km_waiters (il_heap il a) - 1;
          il1 = il\<lparr>il_heap := (il_heap il)(a := (il_heap il a)\<lparr>km_waiters := w\<rparr>)\<rparr>
      in if w = 0 then il1\<lparr>il_locks := (il_locks il1)(key := None)\<rparr> else il1)"

text \<open>\<open>sync.Mutex\<close> of a \<open>keyMutex\<close>: a flag; unlocking it while it is free is a fatal error.\<close>

definition mu_locked :: "kmref \<Rightarrow> in_memory_lock \<Rightarrow> bool" where
  "mu_locked a il = km_locked (il_heap il a)"

definition mu_set :: "bool \<Rightarrow> kmref \<Rightarrow> in_memory_lock \<Rightarrow> in_memory_lock" where
  "mu_set b a il = il\<lparr>il_heap := (il_heap il)(a := (il_heap il a)\<lparr>km_locked := b\<rparr>)\<rparr>"

subsection \<open>Calls in progress and their atomic actions\<close>

text \<open>
  The goroutine \<open>Lock\<close> spawns: blocked in \<open>km.mu.Lock()\<close>, past it, or past the send on the
  buffered channel \<open>acquired\<close>. Where its caller is: in the \<open>select\<close>, in the branch of
  \<open>ctx.Done()\<close> before and after the section, or returned (the goroutine is then on its own).
\<close>

datatype helper = HWait | HLocked | HSent

datatype caller = Selecting gostring | Cancelling gostring | Draining | Returned

datatype activity =
    LockCall caller kmref helper
  | TryEntered gostring kmref
  | TryFailed gostring kmref
  | Holding gostring kmref
  | MuUnlock kmref
  | Probing gostring kmref
  | Fatal

datatype lock_event =
    Internal
  | CallLock gostring
  | CallTry gostring
  | CallIsLocked gostring
  | Cancel gostring
  | Acquired gostring
  | LockError
  | TryFalse gostring
  | Released gostring
  | UnlockedNothing gostring
  | StrayUnlock gostring
  | IsLockedReturns gostring bool
  | Crash

type_synonym lock_config = "in_memory_lock \<times> activity multiset"

text \<open>
  \<open>Unlock\<close> does not ask who calls it. Of a key that somebody holds, it ends that hold, whoever calls it;
  of a key without an entry, it does nothing; and of a key that has an entry but no holder, it is a
  stray call, which takes the entry of the calls in progress.
\<close>

inductive lock_step :: "lock_config \<Rightarrow> lock_event \<Rightarrow> lock_config \<Rightarrow> bool" where
  lock_call: "get_or_create k il = (a, il') \<Longrightarrow>
     lock_step (il, M) (CallLock k) (il', add_mset (LockCall (Selecting k) a HWait) M)"
| helper_locks: "\<not> mu_locked a il \<Longrightarrow>
     lock_step (il, add_mset (LockCall c a HWait) M) Internal
       (mu_set True a il, add_mset (LockCall c a HLocked) M)"
| helper_sends:
    "lock_step (il, add_mset (LockCall c a HLocked) M) Internal
       (il, add_mset (LockCall c a HSent) M)"
| select_acquired:
    "lock_step (il, add_mset (LockCall (Selecting k) a HSent) M) (Acquired k)
       (il, add_mset (Holding k a) M)"
| select_done:
    "lock_step (il, add_mset (LockCall (Selecting k) a h) M) (Cancel k)
       (il, add_mset (LockCall (Cancelling k) a h) M)"
| cancel_section:
    "lock_step (il, add_mset (LockCall (Cancelling k) a h) M) Internal
       (drop_waiter k a il, add_mset (LockCall Draining a h) M)"
| drain_acquired:
    "lock_step (il, add_mset (LockCall Draining a HSent) M) LockError
       (il, add_mset (MuUnlock a) M)"
| drain_default: "h \<noteq> HSent \<Longrightarrow>
     lock_step (il, add_mset (LockCall Draining a h) M) LockError
       (il, add_mset (LockCall Returned a h) M)"
| stale_receives:
    "lock_step (il, add_mset (LockCall Returned a HSent) M) Internal
       (il, add_mset (MuUnlock a) M)"
| try_call: "get_or_create k il = (a, il') \<Longrightarrow>
     lock_step (il, M) (CallTry k) (il', add_mset (TryEntered k a) M)"
| try_wins: "\<not> mu_locked a il \<Longrightarrow>
     lock_step (il, add_mset (TryEntered k a) M) (Acquired k)
       (mu_set True a il, add_mset (Holding k a) M)"
| try_loses: "mu_locked a il \<Longrightarrow>
     lock_step (il, add_mset (TryEntered k a) M) Internal (il, add_mset (TryFailed k a) M)"
| try_leaves:
    "lock_step (il, add_mset (TryFailed k a) M) (TryFalse k) (drop_waiter k a il, M)"
| unlock_missing: "il_locks il k = None \<Longrightarrow>
     lock_step (il, add_mset (Holding k a) M) (Released k) (il, M)"
| unlock_section: "il_locks il k = Some b \<Longrightarrow>
     lock_step (il, add_mset (Holding k a) M) (Released k)
       (drop_waiter k b il, add_mset (MuUnlock b) M)"
| unlock_nothing: "\<lbrakk>il_locks il k = None; \<forall>a. Holding k a \<notin># M\<rbrakk> \<Longrightarrow>
     lock_step (il, M) (UnlockedNothing k) (il, M)"
| unlock_stray: "\<lbrakk>il_locks il k = Some b; \<forall>a. Holding k a \<notin># M\<rbrakk> \<Longrightarrow>
     lock_step (il, M) (StrayUnlock k) (drop_waiter k b il, add_mset (MuUnlock b) M)"
| mu_unlock: "mu_locked a il \<Longrightarrow>
     lock_step (il, add_mset (MuUnlock a) M) Internal (mu_set False a il, M)"
| mu_unlock_fatal: "\<not> mu_locked a il \<Longrightarrow>
     lock_step (il, add_mset (MuUnlock a) M) Crash (il, add_mset Fatal M)"
| is_locked_missing: "il_locks il k = None \<Longrightarrow>
     lock_step (il, M) (IsLockedReturns k False) (il, M)"
| is_locked_found: "il_locks il k = Some a \<Longrightarrow>
     lock_step (il, M) (CallIsLocked k) (il, add_mset (Probing k a) M)"
| probe_free: "\<not> mu_locked a il \<Longrightarrow>
     lock_step (il, add_mset (Probing k a) M) (IsLockedReturns k False)
       (mu_set True a il, add_mset (MuUnlock a) M)"
| probe_busy: "mu_locked a il \<Longrightarrow>
     lock_step (il, add_mset (Probing k a) M) (IsLockedReturns k True) (il, M)"

text \<open>The steps of callers that never call \<open>Unlock\<close> astray.\<close>

fun stray :: "lock_event \<Rightarrow> bool" where
  "stray (StrayUnlock k) = True"
| "stray _ = False"

definition lock_initial :: "lock_config \<Rightarrow> bool" where
  "lock_initial s \<longleftrightarrow> s = (new_in_memory_lock, {#})"

definition lock_next :: "lock_config \<Rightarrow> lock_config \<Rightarrow> bool" where
  "lock_next s t \<longleftrightarrow> (\<exists>e. \<not> stray e \<and> lock_step s e t)"

subsection \<open>The invariant\<close>

text \<open>
  \<open>refers k a\<close>: the activity is counted in the \<open>waiters\<close> of the entry \<open>a\<close> of key \<open>k\<close>.
  \<open>owns a\<close>: it is the one that locked the mutex at \<open>a\<close>. \<open>uses a\<close>: it has the pointer \<open>a\<close>.
\<close>

fun refers :: "gostring \<Rightarrow> kmref \<Rightarrow> activity \<Rightarrow> bool" where
  "refers k a (LockCall (Selecting k') a' h) = (k' = k \<and> a' = a)"
| "refers k a (LockCall (Cancelling k') a' h) = (k' = k \<and> a' = a)"
| "refers k a (TryEntered k' a') = (k' = k \<and> a' = a)"
| "refers k a (TryFailed k' a') = (k' = k \<and> a' = a)"
| "refers k a (Holding k' a') = (k' = k \<and> a' = a)"
| "refers k a _ = False"

fun owns :: "kmref \<Rightarrow> activity \<Rightarrow> bool" where
  "owns a (LockCall c a' h) = (a' = a \<and> h \<noteq> HWait)"
| "owns a (Holding k' a') = (a' = a)"
| "owns a (MuUnlock a') = (a' = a)"
| "owns a _ = False"

fun uses :: "activity \<Rightarrow> kmref option" where
  "uses (LockCall c a h) = Some a"
| "uses (TryEntered k a) = Some a"
| "uses (TryFailed k a) = Some a"
| "uses (Holding k a) = Some a"
| "uses (MuUnlock a) = Some a"
| "uses (Probing k a) = Some a"
| "uses Fatal = None"

fun holding :: "gostring \<Rightarrow> activity \<Rightarrow> bool" where
  "holding k (Holding k' a) = (k' = k)"
| "holding k _ = False"

definition refs_ok :: "lock_config \<Rightarrow> bool" where
  "refs_ok s \<longleftrightarrow> (\<forall>k a. \<forall>p \<in># snd s. refers k a p \<longrightarrow> il_locks (fst s) k = Some a)"

definition waiters_ok :: "lock_config \<Rightarrow> bool" where
  "waiters_ok s \<longleftrightarrow> (\<forall>k a. il_locks (fst s) k = Some a \<longrightarrow>
     km_waiters (il_heap (fst s) a) = int (count_if (refers k a) (snd s))
     \<and> 0 < count_if (refers k a) (snd s))"

definition owners_ok :: "lock_config \<Rightarrow> bool" where
  "owners_ok s \<longleftrightarrow>
     (\<forall>a. count_if (owns a) (snd s) = (if mu_locked a (fst s) then 1 else 0))"

definition fresh_ok :: "lock_config \<Rightarrow> bool" where
  "fresh_ok s \<longleftrightarrow>
     (\<forall>k a. il_locks (fst s) k = Some a \<longrightarrow> a < il_next (fst s))
     \<and> (\<forall>p \<in># snd s. \<forall>a. uses p = Some a \<longrightarrow> a < il_next (fst s))
     \<and> (\<forall>k k' a. il_locks (fst s) k = Some a \<longrightarrow> il_locks (fst s) k' = Some a \<longrightarrow> k = k')
     \<and> Fatal \<notin># snd s"

definition lock_inv :: "lock_config \<Rightarrow> bool" where
  "lock_inv s \<longleftrightarrow> refs_ok s \<and> waiters_ok s \<and> owners_ok s \<and> fresh_ok s"

lemmas lock_inv_defs = lock_inv_def refs_ok_def waiters_ok_def owners_ok_def fresh_ok_def

lemma lock_inv_initial: "lock_initial s \<Longrightarrow> lock_inv s"
  by (simp add: lock_initial_def new_in_memory_lock_def lock_inv_defs mu_locked_def)

text \<open>How the sections act on the fields the invariant reads.\<close>

lemma mu_locked_simps [simp]:
  "mu_locked b (mu_set v a il) = (if b = a then v else mu_locked b il)"
  "mu_locked b (drop_waiter k a il) = mu_locked b il"
  by (auto simp: mu_locked_def mu_set_def drop_waiter_def Let_def)

lemma mu_set_simps [simp]:
  "il_locks (mu_set v a il) = il_locks il"
  "il_next (mu_set v a il) = il_next il"
  "km_waiters (il_heap (mu_set v a il) b) = km_waiters (il_heap il b)"
  by (auto simp: mu_set_def)

lemma drop_waiter_simps [simp]:
  "il_next (drop_waiter k a il) = il_next il"
  "km_waiters (il_heap (drop_waiter k a il) b) =
     (if b = a then km_waiters (il_heap il a) - 1 else km_waiters (il_heap il b))"
  "il_locks (drop_waiter k a il) =
     (if km_waiters (il_heap il a) = 1 then (il_locks il)(k := None) else il_locks il)"
  by (auto simp: drop_waiter_def Let_def)

lemma get_or_create_cases:
  assumes "get_or_create k il = (a, il')"
  obtains (old) "il_locks il k = Some a" "il_locks il' = il_locks il" "il_next il' = il_next il"
      "\<And>b. km_waiters (il_heap il' b) = km_waiters (il_heap il b) + (if b = a then 1 else 0)"
      "\<And>b. mu_locked b il' = mu_locked b il"
    | (new) "il_locks il k = None" "a = il_next il" "il_locks il' = (il_locks il)(k \<mapsto> a)"
      "il_next il' = Suc (il_next il)" "km_waiters (il_heap il' a) = 1" "\<not> mu_locked a il'"
      "\<And>b. b \<noteq> a \<Longrightarrow> km_waiters (il_heap il' b) = km_waiters (il_heap il b)"
      "\<And>b. b \<noteq> a \<Longrightarrow> mu_locked b il' = mu_locked b il"
proof (cases "il_locks il k")
  case None
  with assms show ?thesis
    by (intro new) (auto simp: get_or_create_def mu_locked_def)
next
  case (Some b)
  with assms show ?thesis
    by (intro old) (auto simp: get_or_create_def mu_locked_def split: if_splits)
qed

text \<open>A fresh address is used by no activity.\<close>

lemma refers_uses: "refers k a p \<Longrightarrow> uses p = Some a"
  by (cases "(k, a, p)" rule: refers.cases) auto

lemma owns_uses: "owns a p \<Longrightarrow> uses p = Some a"
  by (cases "(a, p)" rule: owns.cases) auto

lemma fresh_count_refers:
  assumes "fresh_ok (il, M)"
  shows "count_if (refers k (il_next il)) M = 0"
  using assms refers_uses unfolding fresh_ok_def count_if_zero by force

lemma fresh_count_owns:
  assumes "fresh_ok (il, M)"
  shows "count_if (owns (il_next il)) M = 0"
  using assms owns_uses unfolding fresh_ok_def count_if_zero by force

text \<open>
  Entering a call: one new activity that refers to the entry of its key and owns nothing.
\<close>

lemma lock_inv_enter:
  assumes g: "get_or_create k il = (a, il')" and inv: "lock_inv (il, M)"
    and p: "\<And>k' a'. refers k' a' p \<longleftrightarrow> k' = k \<and> a' = a" "\<And>b. \<not> owns b p"
      "uses p = Some a" "p \<noteq> Fatal"
  shows "lock_inv (il', add_mset p M)"
  using g
proof (cases rule: get_or_create_cases)
  case old
  with inv p show ?thesis
    by (auto simp: lock_inv_defs)
next
  case new
  from inv have fresh: "fresh_ok (il, M)" by (simp add: lock_inv_def)
  have c: "count_if (refers k' a) M = 0" "count_if (owns a) M = 0" for k'
    using fresh_count_refers[OF fresh] fresh_count_owns[OF fresh] new(2) by auto
  have "refs_ok (il', add_mset p M)"
    using inv p new unfolding lock_inv_def refs_ok_def by force
  moreover have "b \<noteq> a" if "il_locks il k' = Some b" for k' b
    using fresh that new(2) by (auto simp: fresh_ok_def)
  with inv p new c have "waiters_ok (il', add_mset p M)"
    unfolding lock_inv_def waiters_ok_def by auto
  moreover have "count_if (owns b) (add_mset p M) = (if mu_locked b il' then 1 else 0)" for b
    by (cases "b = a") (use inv p new c in \<open>auto simp: lock_inv_def owners_ok_def\<close>)
  then have "owners_ok (il', add_mset p M)" by (simp add: owners_ok_def)
  moreover have "fresh_ok (il', add_mset p M)"
    using inv p new unfolding lock_inv_def fresh_ok_def by (auto simp: less_Suc_eq)
  ultimately show ?thesis by (simp add: lock_inv_def)
qed

text \<open>Leaving: an activity that referred to its entry is replaced by ones that do not.\<close>

lemma lock_inv_leave:
  assumes inv: "lock_inv (il, add_mset p M)" and p: "refers k a p"
    and q: "\<And>k' a' r. r \<in># Q \<Longrightarrow> \<not> refers k' a' r"
      "\<And>b. count_if (owns b) Q = (if owns b p then 1 else 0)"
      "\<And>r b. r \<in># Q \<Longrightarrow> uses r = Some b \<Longrightarrow> b = a" "Fatal \<notin># Q"
  shows "lock_inv (drop_waiter k a il, Q + M)"
proof -
  have ka: "il_locks il k = Some a"
    using inv p by (auto simp: lock_inv_def refs_ok_def)
  have refk: "refers k' b p \<longleftrightarrow> k' = k \<and> b = a" for k' b
    using p by (cases p; cases "(k, a, p)" rule: refers.cases) auto
  have w: "km_waiters (il_heap il a) = int (Suc (count_if (refers k a) M))"
    using inv ka p by (auto simp: lock_inv_def waiters_ok_def)
  have inj: "\<And>k'. il_locks il k' = Some a \<Longrightarrow> k' = k"
    using inv ka by (auto simp: lock_inv_def fresh_ok_def)
  have locks: "il_locks il k' = Some b" if "r \<in># M" "refers k' b r" for k' b r
    using inv that by (auto simp: lock_inv_def refs_ok_def)
  have last: "\<not> refers k b r" if "km_waiters (il_heap il a) = 1" "r \<in># M" for b r
  proof
    assume r: "refers k b r"
    with locks[OF that(2)] ka that have "0 < count_if (refers k a) M"
      by (auto simp: count_if_pos)
    with w that(1) show False by simp
  qed
  have q0: "count_if (refers k' b) Q = 0" for k' b
    using q(1) by (auto simp: count_if_zero)
  have "refs_ok (drop_waiter k a il, Q + M)"
    using q(1) locks last unfolding refs_ok_def by auto
  moreover have "km_waiters (il_heap (drop_waiter k a il) b) = int (count_if (refers k' b) M)
      \<and> 0 < count_if (refers k' b) M"
    if lk: "il_locks (drop_waiter k a il) k' = Some b" for k' b
  proof -
    from lk have il: "il_locks il k' = Some b" by (auto split: if_splits)
    with inv have "km_waiters (il_heap il b) = int (count_if (refers k' b) (add_mset p M))
        \<and> 0 < count_if (refers k' b) (add_mset p M)"
      by (auto simp: lock_inv_def waiters_ok_def)
    then show ?thesis
      using lk il ka w inj[of k'] by (auto simp: refk split: if_splits)
  qed
  then have "waiters_ok (drop_waiter k a il, Q + M)"
    by (simp add: waiters_ok_def q0)
  moreover have "count_if (owns b) (Q + M) = count_if (owns b) (add_mset p M)" for b
    by (simp add: q(2))
  with inv have "owners_ok (drop_waiter k a il, Q + M)"
    by (simp add: lock_inv_def owners_ok_def del: count_if_add count_if_union)
  moreover have "fresh_ok (drop_waiter k a il, Q + M)"
    using inv q(3,4) refers_uses[OF p] unfolding lock_inv_def fresh_ok_def
    by (auto split: if_splits)
  ultimately show ?thesis by (simp add: lock_inv_def)
qed

text \<open>
  Every other action leaves the map and the counters alone: an activity (or none) becomes another
  that refers to the same entries, and the mutexes agree with the new owners.
\<close>

lemma lock_inv_swap:
  assumes inv: "lock_inv (il, P + M)"
    and il: "il_locks il' = il_locks il" "il_next il' = il_next il"
      "\<And>b. km_waiters (il_heap il' b) = km_waiters (il_heap il b)"
    and refs: "\<And>k a. count_if (refers k a) Q = count_if (refers k a) P"
    and owners: "\<And>b. count_if (owns b) (Q + M) = (if mu_locked b il' then 1 else 0)"
    and used: "\<And>r b. r \<in># Q \<Longrightarrow> uses r = Some b \<Longrightarrow> b < il_next il" "Fatal \<notin># Q"
  shows "lock_inv (il', Q + M)"
proof -
  have "\<exists>r' \<in># P. refers k a r'" if "r \<in># Q" "refers k a r" for k a r
    using refs[of k a] that by (metis count_if_pos)
  with inv il have "refs_ok (il', Q + M)"
    by (fastforce simp: lock_inv_def refs_ok_def)
  moreover have "waiters_ok (il', Q + M)"
    using inv il refs by (simp add: lock_inv_def waiters_ok_def)
  moreover have "owners_ok (il', Q + M)"
    using owners by (simp add: owners_ok_def)
  moreover have "fresh_ok (il', Q + M)"
    using inv il used by (fastforce simp: lock_inv_def fresh_ok_def)
  ultimately show ?thesis by (simp add: lock_inv_def)
qed

lemma lock_inv_refs: "lock_inv (il, M) \<Longrightarrow> p \<in># M \<Longrightarrow> refers k a p \<Longrightarrow> il_locks il k = Some a"
  by (auto simp: lock_inv_def refs_ok_def)

lemma refers_helper: "refers k a (LockCall c b h) = refers k a (LockCall c b h')"
  by (cases c) auto

lemma lock_inv_owners:
  "lock_inv (il, M) \<Longrightarrow> count_if (owns b) M = (if mu_locked b il then 1 else 0)"
  by (simp add: lock_inv_def owners_ok_def)

lemma lock_inv_uses:
  "lock_inv (il, M) \<Longrightarrow> p \<in># M \<Longrightarrow> uses p = Some b \<Longrightarrow> b < il_next il"
  by (auto simp: lock_inv_def fresh_ok_def)

text \<open>An activity that only moves on: same entries, same mutexes, same pointer.\<close>

lemma lock_inv_move:
  assumes inv: "lock_inv (il, add_mset p M)"
    and same: "\<And>k a. refers k a q = refers k a p" "\<And>b. owns b q = owns b p" "uses q = uses p"
      "q \<noteq> Fatal"
  shows "lock_inv (il, add_mset q M)"
  using inv same(4) unfolding lock_inv_defs by (simp add: same(1-3))

text \<open>An activity that takes the free mutex it points to.\<close>

lemma lock_inv_grab:
  assumes inv: "lock_inv (il, add_mset p M)" and free: "\<not> mu_locked a il"
    and p: "uses p = Some a" "\<And>b. \<not> owns b p"
    and q: "uses q = Some a" "\<And>b. owns b q \<longleftrightarrow> b = a" "\<And>k b. refers k b q = refers k b p"
      "q \<noteq> Fatal"
  shows "lock_inv (mu_set True a il, add_mset q M)"
proof -
  have own: "count_if (owns b) M = (if mu_locked b il then 1 else 0)" for b
    using lock_inv_owners[OF inv, of b] by (simp add: p(2))
  have "owners_ok (mu_set True a il, add_mset q M)"
    using free by (simp add: owners_ok_def own q(2))
  then show ?thesis
    using inv q(4) p(1) unfolding lock_inv_def refs_ok_def waiters_ok_def fresh_ok_def
    by (simp add: q(1,3))
qed

lemma lock_inv_step:
  assumes "lock_step s e t" and "lock_inv s" and "\<not> stray e"
  shows "lock_inv t"
  using assms
proof (induction rule: lock_step.induct)
  case (lock_call k il a il' M)
  then show ?case by (auto intro!: lock_inv_enter)
next
  case (helper_locks a il c M)
  show ?case
    by (rule lock_inv_grab[OF helper_locks.prems(1) helper_locks.hyps])
      (auto simp: refers_helper[of _ _ c a HLocked HWait])
next
  case (helper_sends il c a M)
  from helper_sends.prems(1) show ?case by (rule lock_inv_move) (auto simp: refers_helper[of _ _ c a HSent HLocked])
next
  case (select_acquired il k a M)
  from select_acquired.prems(1) show ?case by (rule lock_inv_move) auto
next
  case (select_done il k a h M)
  from select_done.prems(1) show ?case by (rule lock_inv_move) auto
next
  case (cancel_section il k a h M)
  then show ?case
    using lock_inv_leave[of il "LockCall (Cancelling k) a h" M k a "{#LockCall Draining a h#}"]
    by auto
next
  case (drain_acquired il a M)
  from drain_acquired.prems(1) show ?case by (rule lock_inv_move) auto
next
  case (drain_default h il a M)
  from drain_default.prems(1) show ?case by (rule lock_inv_move) auto
next
  case (stale_receives il a M)
  from stale_receives.prems(1) show ?case by (rule lock_inv_move) auto
next
  case (try_call k il a il' M)
  then show ?case by (auto intro!: lock_inv_enter)
next
  case (try_wins a il k M)
  show ?case by (rule lock_inv_grab[OF try_wins.prems(1) try_wins.hyps]) auto
next
  case (try_loses a il k M)
  from try_loses.prems(1) show ?case by (rule lock_inv_move) auto
next
  case (try_leaves il k a M)
  then show ?case
    using lock_inv_leave[of il "TryFailed k a" M k a "{#}"] by auto
next
  case (unlock_missing il k a M)
  then show ?case by (auto simp: lock_inv_def refs_ok_def)
next
  case (unlock_section il k b a M)
  then have "b = a" by (auto simp: lock_inv_def refs_ok_def)
  with unlock_section show ?case
    using lock_inv_leave[of il "Holding k a" M k a "{#MuUnlock a#}"] by auto
next
  case (unlock_nothing il k M)
  then show ?case by simp
next
  case (unlock_stray il k b M)
  then show ?case by simp
next
  case (mu_unlock a il M)
  have own: "count_if (owns b) M = (if mu_locked b (mu_set False a il) then 1 else 0)" for b
    using lock_inv_owners[OF mu_unlock.prems(1), of b] by (cases "b = a") (auto split: if_splits)
  from mu_unlock.prems(1) show ?case
    using lock_inv_swap[of il "{#MuUnlock a#}" M "mu_set False a il" "{#}"] own
    by (auto simp del: mu_locked_simps)
next
  case (mu_unlock_fatal a il M)
  then show ?case using lock_inv_owners[OF mu_unlock_fatal.prems(1), of a] by auto
next
  case (is_locked_missing il k M)
  then show ?case by simp
next
  case (is_locked_found il k a M)
  note inv = is_locked_found.prems(1)
  from inv show ?case
    using lock_inv_swap[of il "{#}" M il "{#Probing k a#}"] lock_inv_owners[OF inv]
      is_locked_found.hyps by (auto simp: lock_inv_def fresh_ok_def)
next
  case (probe_free a il k M)
  show ?case by (rule lock_inv_grab[OF probe_free.prems(1) probe_free.hyps]) auto
next
  case (probe_busy a il k M)
  note inv = probe_busy.prems(1)
  from inv show ?case
    using lock_inv_swap[of il "{#Probing k a#}" M il "{#}"]
      lock_inv_owners[OF inv] lock_inv_uses[OF inv]
    by auto
qed

interpretation lock_machine: invariant_machine lock_initial lock_next lock_inv
  by unfold_locales (auto intro: lock_inv_initial lock_inv_step simp: lock_next_def)

subsection \<open>The abstract lock, and the refinement\<close>

text \<open>
  What a lock promises: a set of held keys; a key is acquired only while it is free and released
  only while it is held. The abstraction of a configuration is the set of keys some goroutine
  holds.
\<close>

definition held_keys :: "lock_config \<Rightarrow> gostring set" where
  "held_keys s = {k. \<exists>p \<in># snd s. holding k p}"

definition spec_initial :: "gostring set \<Rightarrow> bool" where
  "spec_initial H \<longleftrightarrow> H = {}"

inductive spec_step :: "gostring set \<Rightarrow> gostring set \<Rightarrow> bool" where
  spec_acquire: "k \<notin> H \<Longrightarrow> spec_step H (insert k H)"
| spec_release: "k \<in> H \<Longrightarrow> spec_step H (H - {k})"

inductive_simps spec_step_iff: "spec_step H H'"

lemma held_keys_add [simp]:
  "held_keys (il, add_mset p M) = {k. holding k p} \<union> held_keys (il, M)"
  by (auto simp: held_keys_def)

lemma held_keys_il: "held_keys (il, M) = held_keys (il', M)"
  by (simp add: held_keys_def)

lemma holding_refers: "holding k p \<Longrightarrow> \<exists>a. refers k a p \<and> owns a p"
  by (cases "(k, p)" rule: holding.cases) auto

lemma holding_cases: "holding k p \<Longrightarrow> \<exists>a. p = Holding k a"
  by (cases "(k, p)" rule: holding.cases) auto

lemma holding_excludes:
  assumes inv: "lock_inv (il, add_mset p M)" and p: "refers k a p" "owns a p"
  shows "k \<notin> held_keys (il, M)"
proof
  assume "k \<in> held_keys (il, M)"
  then obtain r b where r: "r \<in># M" "refers k b r" "owns b r"
    using holding_refers by (fastforce simp: held_keys_def)
  have "il_locks il k = Some a" "il_locks il k = Some b"
    using lock_inv_refs[OF inv _ p(1)] lock_inv_refs[OF inv _ r(2)] r(1) by auto
  then have "b = a" by simp
  with r have "0 < count_if (owns a) M" by (auto simp: count_if_pos)
  with lock_inv_owners[OF inv, of a] p(2) show False by (auto split: if_splits)
qed

lemma held_keys_step:
  assumes "lock_step s e t" and "lock_inv s"
  shows "case e of
      Acquired k \<Rightarrow> k \<notin> held_keys s \<and> held_keys t = insert k (held_keys s)
    | Released k \<Rightarrow> k \<in> held_keys s \<and> held_keys t = held_keys s - {k}
    | UnlockedNothing k \<Rightarrow> k \<notin> held_keys s \<and> held_keys t = held_keys s
    | StrayUnlock k \<Rightarrow> k \<notin> held_keys s \<and> held_keys t = held_keys s
    | _ \<Rightarrow> held_keys t = held_keys s"
  using assms
proof (induction rule: lock_step.induct)
  case (select_acquired il k a M)
  with holding_excludes[of il "LockCall (Selecting k) a HSent" M k a] show ?case by auto
next
  case (try_wins a il k M)
  have inv: "lock_inv (mu_set True a il, add_mset (Holding k a) M)"
    by (rule lock_inv_step[OF lock_step.try_wins[OF try_wins.hyps] try_wins.prems]) simp
  have "held_keys (mu_set True a il, M) = held_keys (il, M)" by (rule held_keys_il)
  with holding_excludes[OF inv, of k a] show ?case by auto
next
  case (unlock_missing il k a M)
  with holding_excludes[of il "Holding k a" M k a] show ?case by auto
next
  case (unlock_section il k b a M)
  moreover have "held_keys (drop_waiter k b il, M) = held_keys (il, M)" by (rule held_keys_il)
  ultimately show ?case using holding_excludes[of il "Holding k a" M k a] by auto
next
  case (unlock_nothing il k M)
  then show ?case by (auto simp: held_keys_def dest: holding_cases)
next
  case (unlock_stray il k b M)
  then show ?case by (auto simp: held_keys_def dest: holding_cases)
qed (auto simp: held_keys_def)

interpretation lock_refines: simulation lock_initial lock_next lock_inv spec_initial spec_step held_keys
proof unfold_locales
  fix s assume "lock_initial s"
  then show "spec_initial (held_keys s)"
    by (simp add: lock_initial_def spec_initial_def held_keys_def)
next
  fix s t assume "lock_next s t" "lock_inv s"
  then obtain e where "lock_step s e t" "\<not> stray e" by (auto simp: lock_next_def)
  from held_keys_step[OF this(1) \<open>lock_inv s\<close>]
  show "held_keys t = held_keys s \<or> spec_step (held_keys s) (held_keys t)"
    by (cases e) (auto simp: spec_step_iff)
qed

subsection \<open>Mutual exclusion, bounded memory, no fatal unlock\<close>

lemma reach_lock_inv: "reach lock_initial lock_next (il, M) \<Longrightarrow> lock_inv (il, M)"
  by (rule lock_machine.reach_inv)

lemma lock_run_reach:
  assumes "run lock_step (new_in_memory_lock, {#}) es t" and "\<forall>e \<in> set es. \<not> stray e"
  shows "reach lock_initial lock_next t"
proof -
  have "reach lock_initial lock_next t" if "run lock_step s es t" "\<forall>e \<in> set es. \<not> stray e" "reach lock_initial lock_next s" for s
    using that
  proof (induction rule: run.induct)
    case (run_cons s e t es u)
    then have "lock_next s t" by (auto simp: lock_next_def)
    with run_cons.prems have "reach lock_initial lock_next t" by (blast intro: reach.reach_step)
    with run_cons show ?case by simp
  qed simp
  moreover have "reach lock_initial lock_next (new_in_memory_lock, {#})"
    by (rule reach.reach_initial) (simp add: lock_initial_def)
  ultimately show ?thesis using assms by blast
qed

lemma lock_run_inv:
  "run lock_step (new_in_memory_lock, {#}) es (il, M) \<Longrightarrow> \<forall>e \<in> set es. \<not> stray e \<Longrightarrow> lock_inv (il, M)"
  by (rule reach_lock_inv[OF lock_run_reach])

text \<open>A run used below: one goroutine wins the key by \<open>TryLock\<close>, a second waits in \<open>Lock\<close>.\<close>

definition two_callers :: "gostring \<Rightarrow> lock_config" where
  "two_callers k =
     (snd (get_or_create k (mu_set True 0 (snd (get_or_create k new_in_memory_lock)))),
      {#LockCall (Selecting k) 0 HWait, Holding k 0#})"

lemma two_callers_run:
  "run lock_step (new_in_memory_lock, {#}) [CallTry k, Acquired k, CallLock k] (two_callers k)"
proof -
  let ?il0 = "new_in_memory_lock" and ?il1 = "snd (get_or_create k new_in_memory_lock)"
  let ?il2 = "mu_set True 0 ?il1"
  have "lock_step (?il0, {#}) (CallTry k) (?il1, {#TryEntered k 0#})"
    by (rule try_call) (simp add: get_or_create_def new_in_memory_lock_def)
  moreover have "lock_step (?il1, {#TryEntered k 0#}) (Acquired k) (?il2, {#Holding k 0#})"
    by (rule try_wins) (simp add: get_or_create_def new_in_memory_lock_def mu_locked_def)
  moreover have "lock_step (?il2, {#Holding k 0#}) (CallLock k) (two_callers k)"
    unfolding two_callers_def
    by (rule lock_call) (simp add: get_or_create_def new_in_memory_lock_def mu_set_def)
  ultimately show ?thesis by (auto intro!: run.intros)
qed

lemma two_callers_reach: "reach lock_initial lock_next (two_callers k)"
  by (rule lock_run_reach[OF two_callers_run]) simp

lemma holding_owns:
  assumes "lock_inv (il, M)" "il_locks il k = Some a" "p \<in># M" "holding k p"
  shows "owns a p"
proof -
  from holding_refers[OF assms(4)] obtain b where b: "refers k b p" "owns b p" by auto
  with lock_inv_refs[OF assms(1,3) b(1)] assms(2) show ?thesis by simp
qed

text \<open>
  C1: Mutual exclusion of \<open>InMemoryLock\<close>. Any number of goroutines run \<open>Lock\<close> (cancelled at any
  time, by a context done before, while or after the mutex is won), \<open>TryLock\<close>, \<open>IsLocked\<close> and
  \<open>Unlock\<close>, interleaved in any way. As long as no \<open>Unlock\<close> is stray, that is, called for a key that
  nobody holds while another call on it is in progress, at most one hold of a key exists at any
  moment. An \<open>Unlock\<close> of a key that somebody holds ends that hold, whoever calls it, and one of a key
  without an entry does nothing; both are among the steps.
\<close>

theorem lock_mutual_exclusion:
  assumes "run lock_step (new_in_memory_lock, {#}) es (il, M)" and "\<forall>e \<in> set es. \<not> stray e"
  shows "count_if (holding k) M \<le> 1"
proof (cases "\<exists>p \<in># M. holding k p")
  case False
  then show ?thesis by (simp add: count_if_zero[THEN iffD2])
next
  case True
  note inv = lock_run_inv[OF assms]
  from True obtain p a where p: "p \<in># M" "refers k a p" using holding_refers by blast
  then have "il_locks il k = Some a" by (rule lock_inv_refs[OF inv])
  then have "count_if (holding k) M \<le> count_if (owns a) M"
    by (intro count_if_mono) (rule holding_owns[OF inv])
  also have "\<dots> \<le> 1" by (simp add: lock_inv_owners[OF inv])
  finally show ?thesis .
qed

theorem lock_mutual_exclusion_witness:
  "count_if (holding ''page'') (snd (two_callers ''page'')) = 1
   \<and> count_if (holding ''page'') (snd (two_callers ''page'')) \<le> 1"
  using lock_mutual_exclusion[of "[CallTry ''page'', Acquired ''page'', CallLock ''page'']"
      "fst (two_callers ''page'')" "snd (two_callers ''page'')" "''page''"]
    two_callers_run[of "''page''"] by (simp add: two_callers_def)

text \<open>
  C3: The map stays bounded. As long as no \<open>Unlock\<close> is stray (called for a key that nobody holds
  while another call on it is in progress), a key has an entry exactly when some call on it is in
  progress or holds it, and the entry's counter is the number of those calls; so once every call has
  returned and every lock is released, the map is empty. A stray \<open>Unlock\<close> breaks this:
  \<open>foreign_unlock_may_crash\<close>.
\<close>

theorem lock_map_bounded:
  assumes "run lock_step (new_in_memory_lock, {#}) es (il, M)" and "\<forall>e \<in> set es. \<not> stray e"
  shows "(il_locks il k \<noteq> None \<longleftrightarrow> (\<exists>a. \<exists>p \<in># M. refers k a p))
    \<and> (\<forall>a. il_locks il k = Some a \<longrightarrow> km_waiters (il_heap il a) = int (count_if (refers k a) M))"
proof -
  note inv = lock_run_inv[OF assms]
  have "km_waiters (il_heap il a) = int (count_if (refers k a) M) \<and> (\<exists>p \<in># M. refers k a p)"
    if "il_locks il k = Some a" for a
    using inv that by (simp add: lock_inv_def waiters_ok_def count_if_pos)
  moreover have "il_locks il k = Some a" if "p \<in># M" "refers k a p" for a p
    using lock_inv_refs[OF inv that] .
  ultimately show ?thesis by blast
qed

theorem lock_map_bounded_witness:
  "km_waiters (il_heap (fst (two_callers ''page'')) 0) = 2"
  using lock_map_bounded[of "[CallTry ''page'', Acquired ''page'', CallLock ''page'']"
      "fst (two_callers ''page'')" "snd (two_callers ''page'')" "''page''"] two_callers_run[of "''page''"]
  by (auto simp: two_callers_def get_or_create_def new_in_memory_lock_def mu_set_def)

text \<open>
  No run without a stray \<open>Unlock\<close> ever unlocks a free \<open>sync.Mutex\<close> (a fatal error of the Go runtime), and
  the \<open>Unlock\<close> of a holder always finds its own entry.
\<close>

theorem lock_never_fatal:
  assumes "reach lock_initial lock_next (il, M)"
  shows "Fatal \<notin># M \<and> (\<forall>a. MuUnlock a \<in># M \<longrightarrow> mu_locked a il)
    \<and> (\<forall>k a. Holding k a \<in># M \<longrightarrow> il_locks il k = Some a \<and> mu_locked a il)"
proof -
  note inv = reach_lock_inv[OF assms]
  have "mu_locked a il" if "p \<in># M" "owns a p" for p a
    using lock_inv_owners[OF inv, of a] that count_if_pos[of "owns a" M] by (auto split: if_splits)
  moreover have "il_locks il k = Some a" if "Holding k a \<in># M" for k a
    using lock_inv_refs[OF inv that] by simp
  moreover have "Fatal \<notin># M" using inv by (simp add: lock_inv_def fresh_ok_def)
  ultimately show ?thesis by fastforce
qed

theorem lock_never_fatal_witness:
  "mu_locked 0 (fst (two_callers ''page''))"
  using lock_never_fatal[of "fst (two_callers ''page'')" "snd (two_callers ''page'')"]
    two_callers_reach[of "''page''"] by (auto simp: two_callers_def)

text \<open>
  C2: Refinement. After any run in which no \<open>Unlock\<close> was stray, every atomic action of the
  implementation is the matching action of the abstract lock on the set of held keys: an acquisition
  (by \<open>Lock\<close> or \<open>TryLock\<close>) adds a key that was free, a release removes a key that was held, and every
  other action, those of cancelled calls, probes and of an \<open>Unlock\<close> of a key nobody holds included,
  leaves the set alone. A stray \<open>Unlock\<close> is such an action itself, but nothing is said of what comes
  after it.
\<close>

theorem lock_refines_spec:
  assumes "run lock_step (new_in_memory_lock, {#}) es s" and "\<forall>d \<in> set es. \<not> stray d" and "lock_step s e t"
  shows "reach spec_initial spec_step (held_keys s) \<and>
    (case e of
      Acquired k \<Rightarrow> k \<notin> held_keys s \<and> held_keys t = insert k (held_keys s)
    | Released k \<Rightarrow> k \<in> held_keys s \<and> held_keys t = held_keys s - {k}
    | UnlockedNothing k \<Rightarrow> k \<notin> held_keys s \<and> held_keys t = held_keys s
    | StrayUnlock k \<Rightarrow> k \<notin> held_keys s \<and> held_keys t = held_keys s
    | _ \<Rightarrow> held_keys t = held_keys s)"
  using held_keys_step[OF assms(3) lock_machine.reach_inv[OF lock_run_reach[OF assms(1,2)]]]
    lock_refines.reach_abs[OF lock_run_reach[OF assms(1,2)]] by blast

theorem lock_refines_spec_witness:
  "held_keys (two_callers ''page'') = {''page''}
   \<and> (\<exists>t. lock_step (two_callers ''page'') (Released ''page'') t \<and> held_keys t = {})"
proof -
  let ?s = "two_callers ''page''"
  have h: "held_keys ?s = {''page''}" by (auto simp: two_callers_def held_keys_def)
  let ?il = "snd (get_or_create ''page'' (mu_set True 0
      (snd (get_or_create ''page'' new_in_memory_lock))))"
  have "lock_step (?il, add_mset (Holding ''page'' 0) {#LockCall (Selecting ''page'') 0 HWait#})
      (Released ''page'')
      (drop_waiter ''page'' 0 ?il, add_mset (MuUnlock 0) {#LockCall (Selecting ''page'') 0 HWait#})"
    by (rule unlock_section) (simp add: get_or_create_def new_in_memory_lock_def mu_set_def)
  then have step: "lock_step ?s (Released ''page'')
      (drop_waiter ''page'' 0 ?il, add_mset (MuUnlock 0) {#LockCall (Selecting ''page'') 0 HWait#})"
    by (simp only: two_callers_def
        add_mset_commute[of "LockCall (Selecting ''page'') 0 HWait" "Holding ''page'' 0"])
  have "held_keys (drop_waiter ''page'' 0 ?il,
      add_mset (MuUnlock 0) {#LockCall (Selecting ''page'') 0 HWait#}) = {}"
    using lock_refines_spec[OF two_callers_run _ step] h by simp
  with step h show ?thesis by blast
qed

subsection \<open>A free lock is not lost\<close>

text \<open>
  The actions the runtime takes by itself: no new call, no cancellation, no release. \<open>quiets\<close> is
  any number of them.
\<close>

fun quiet :: "lock_event \<Rightarrow> bool" where
  "quiet Internal = True"
| "quiet (Acquired k) = True"
| "quiet LockError = True"
| "quiet (TryFalse k) = True"
| "quiet _ = False"

definition quiet_step :: "lock_config \<Rightarrow> lock_config \<Rightarrow> bool" where
  "quiet_step s t \<longleftrightarrow> (\<exists>e. quiet e \<and> lock_step s e t)"

lemma quiet_stepI: "lock_step s e t \<Longrightarrow> quiet e \<Longrightarrow> quiet_step s t"
  by (auto simp: quiet_step_def)

lemmas quiet_intros =
  lock_step.helper_locks[THEN quiet_stepI] lock_step.helper_sends[THEN quiet_stepI]
  lock_step.select_acquired[THEN quiet_stepI] lock_step.cancel_section[THEN quiet_stepI]
  lock_step.drain_acquired[THEN quiet_stepI] lock_step.stale_receives[THEN quiet_stepI]
  lock_step.mu_unlock[THEN quiet_stepI]

lemma quiets_step: "quiet_step s t \<Longrightarrow> quiet_step\<^sup>*\<^sup>* t u \<Longrightarrow> quiet_step\<^sup>*\<^sup>* s u"
  by (rule converse_rtranclp_into_rtranclp)

lemma quiets_acquire:
  assumes "h \<noteq> HWait"
  shows "\<exists>t. quiet_step\<^sup>*\<^sup>* (il, add_mset (LockCall (Selecting k) a h) M) t \<and> k \<in> held_keys t"
proof -
  have sent: "quiet_step\<^sup>*\<^sup>* (il, add_mset (LockCall (Selecting k) a HSent) M)
      (il, add_mset (Holding k a) M)"
    by (intro r_into_rtranclp quiet_intros) simp
  moreover have "quiet_step\<^sup>*\<^sup>* (il, add_mset (LockCall (Selecting k) a HLocked) M)
      (il, add_mset (Holding k a) M)"
    by (rule quiets_step[OF _ sent], intro quiet_intros) simp
  moreover have "k \<in> held_keys (il, add_mset (Holding k a) M)" by simp
  ultimately show ?thesis using assms by (cases h) blast+
qed

lemma quiets_win:
  assumes "\<not> mu_locked a il"
  shows "\<exists>t. quiet_step\<^sup>*\<^sup>* (il, add_mset (LockCall (Selecting k) a h) M) t \<and> k \<in> held_keys t"
proof (cases "h = HWait")
  case True
  have "quiet_step (il, add_mset (LockCall (Selecting k) a HWait) M)
      (mu_set True a il, add_mset (LockCall (Selecting k) a HLocked) M)"
    by (intro quiet_intros assms) simp
  with quiets_acquire[of HLocked "mu_set True a il" k a M] True quiets_step show ?thesis by blast
next
  case False
  then show ?thesis by (rule quiets_acquire)
qed

text \<open>An owner that is not a holder and not about to become one lets the mutex go.\<close>

lemma quiets_unlock:
  assumes "mu_locked a il"
  shows "\<exists>il'. quiet_step\<^sup>*\<^sup>* (il, add_mset (MuUnlock a) M) (il', M) \<and> \<not> mu_locked a il'"
  by (rule exI[of _ "mu_set False a il"], intro conjI r_into_rtranclp quiet_intros)
    (auto simp: assms)

lemma quiets_let_go:
  assumes locked: "mu_locked a il" and p: "owns a p"
    and not: "\<And>k. \<not> holding k p" "\<And>k h. p \<noteq> LockCall (Selecting k) a h"
  shows "\<exists>il'. quiet_step\<^sup>*\<^sup>* (il, add_mset p M) (il', M) \<and> \<not> mu_locked a il'"
proof (cases p)
  case (LockCall c b h)
  with p have p': "p = LockCall c a h" and "h = HLocked \<or> h = HSent" by (cases h; auto)+
  then have "p = LockCall c a HSent \<or>
      quiet_step (il, add_mset p M) (il, add_mset (LockCall c a HSent) M)"
    by (auto intro!: quiet_intros)
  then have "quiet_step\<^sup>*\<^sup>* (il, add_mset p M) (il, add_mset (LockCall c a HSent) M)"
    by auto
  moreover have "\<exists>il1. quiet_step\<^sup>*\<^sup>* (il, add_mset (LockCall c a HSent) M)
      (il1, add_mset (MuUnlock a) M) \<and> mu_locked a il1"
  proof (cases c)
    case (Selecting k)
    with not p' show ?thesis by auto
  next
    case (Cancelling k)
    have "quiet_step (il, add_mset (LockCall (Cancelling k) a HSent) M)
        (drop_waiter k a il, add_mset (LockCall Draining a HSent) M)"
      by (intro quiet_intros) simp
    moreover have "quiet_step\<^sup>*\<^sup>* (drop_waiter k a il, add_mset (LockCall Draining a HSent) M)
        (drop_waiter k a il, add_mset (MuUnlock a) M)"
      by (intro r_into_rtranclp quiet_intros) simp
    moreover have "mu_locked a (drop_waiter k a il)" using locked by simp
    ultimately show ?thesis using Cancelling quiets_step by blast
  next
    case Draining
    then show ?thesis using locked by (intro exI[of _ il]) (auto intro!: r_into_rtranclp quiet_intros)
  next
    case Returned
    then show ?thesis using locked by (intro exI[of _ il]) (auto intro!: r_into_rtranclp quiet_intros)
  qed
  ultimately show ?thesis using quiets_unlock by (meson rtranclp_trans)
next
  case (MuUnlock b)
  with p locked show ?thesis using quiets_unlock by auto
qed (use p not in auto)

text \<open>
  C4: Progress. Whenever a \<open>Lock\<close> call is waiting for a key nobody holds, some waiting call gets
  it by the runtime's own actions, with no further call, cancellation or release (and no stray \<open>Unlock\<close>
  before): a mutex held
  for a moment by a cancelled call, by the goroutine it left behind or by a probe is given back.
\<close>

theorem lock_not_lost:
  assumes "reach lock_initial lock_next (il, M)"
    and "LockCall (Selecting k) a h \<in># M" and "k \<notin> held_keys (il, M)"
  shows "\<exists>t. quiet_step\<^sup>*\<^sup>* (il, M) t \<and> k \<in> held_keys t"
proof -
  note inv = reach_lock_inv[OF assms(1)]
  from assms(2) obtain N where N: "M = add_mset (LockCall (Selecting k) a h) N"
    by (metis multi_member_split)
  have ka: "il_locks il k = Some a" using lock_inv_refs[OF inv assms(2)] by simp
  have "\<exists>t. quiet_step\<^sup>*\<^sup>* (il, M) t \<and> k \<in> held_keys t" if locked: "mu_locked a il" and "h = HWait"
  proof -
    have "count_if (owns a) M = 1" using lock_inv_owners[OF inv] locked by simp
    then have "0 < count_if (owns a) N" using N \<open>h = HWait\<close> by (auto split: if_splits)
    then obtain p where p: "p \<in># N" "owns a p" by (auto simp: count_if_pos)
    then obtain K where K: "N = add_mset p K" by (metis multi_member_split)
    have noth: "\<not> holding k' p" for k'
    proof
      assume h: "holding k' p"
      then have "p = Holding k' a" using p(2) by (cases p) auto
      then have "il_locks il k' = Some a" using lock_inv_refs[OF inv, of p k' a] p N by simp
      with ka inv have "k' = k" by (auto simp: lock_inv_def fresh_ok_def)
      with h p N assms(3) show False by (auto simp: held_keys_def)
    qed
    show ?thesis
    proof (cases "\<exists>k' h'. p = LockCall (Selecting k') a h'")
      case True
      then obtain k' h' where p': "p = LockCall (Selecting k') a h'" by auto
      then have "il_locks il k' = Some a" using lock_inv_refs[OF inv, of p k' a] p N by simp
      with ka inv have "k' = k" by (auto simp: lock_inv_def fresh_ok_def)
      moreover have "M = add_mset p (add_mset (LockCall (Selecting k) a h) K)"
        using N K by (simp add: add_mset_commute)
      ultimately show ?thesis using quiets_acquire[of h' il k a] p p' by auto
    next
      case False
      have "M = add_mset p (add_mset (LockCall (Selecting k) a h) K)"
        using N K by (simp add: add_mset_commute)
      moreover obtain il' where "\<not> mu_locked a il'"
        "quiet_step\<^sup>*\<^sup>* (il, add_mset p (add_mset (LockCall (Selecting k) a h) K))
          (il', add_mset (LockCall (Selecting k) a h) K)"
        using quiets_let_go[OF locked p(2)] noth False by blast
      ultimately show ?thesis using quiets_win[of a il' k h K] by (meson rtranclp_trans)
    qed
  qed
  moreover have "\<exists>t. quiet_step\<^sup>*\<^sup>* (il, M) t \<and> k \<in> held_keys t" if "\<not> mu_locked a il \<or> h \<noteq> HWait"
    using that N quiets_win quiets_acquire by blast
  ultimately show ?thesis by blast
qed

theorem lock_not_lost_witness:
  "\<exists>t. quiet_step\<^sup>*\<^sup>* (snd (get_or_create ''page'' new_in_memory_lock),
       {#LockCall (Selecting ''page'') 0 HWait#}) t \<and> ''page'' \<in> held_keys t"
proof (rule lock_not_lost)
  have "lock_step (new_in_memory_lock, {#}) (CallLock ''page'')
      (snd (get_or_create ''page'' new_in_memory_lock), {#LockCall (Selecting ''page'') 0 HWait#})"
    by (rule lock_call) (simp add: get_or_create_def new_in_memory_lock_def)
  then have "run lock_step (new_in_memory_lock, {#}) [CallLock ''page'']
      (snd (get_or_create ''page'' new_in_memory_lock), {#LockCall (Selecting ''page'') 0 HWait#})"
    by (blast intro: run.intros)
  then show "reach lock_initial lock_next (snd (get_or_create ''page'' new_in_memory_lock),
      {#LockCall (Selecting ''page'') 0 HWait#})"
    by (rule lock_run_reach) simp
  show "LockCall (Selecting ''page'') 0 HWait \<in># {#LockCall (Selecting ''page'') 0 HWait#}" by simp
  show "''page'' \<notin> held_keys (snd (get_or_create ''page'' new_in_memory_lock),
      {#LockCall (Selecting ''page'') 0 HWait#})" by (simp add: held_keys_def)
qed

subsection \<open>Two corners of the interface\<close>

lemma first_entry:
  obtains il where "get_or_create k new_in_memory_lock = (0, il)" "il_locks il k = Some 0"
    "\<not> mu_locked 0 il"
  by (rule that[of "snd (get_or_create k new_in_memory_lock)"])
    (auto simp: get_or_create_def new_in_memory_lock_def mu_locked_def)

text \<open>
  \<open>TryLock\<close> may fail on a key nobody holds or ever held: an \<open>IsLocked\<close> of another
  goroutine takes the mutex for a moment, and a \<open>TryLock\<close> that meets it there returns false.
\<close>

theorem try_lock_may_fail_spuriously:
  "\<exists>t. run lock_step (new_in_memory_lock, {#})
     [CallTry k, CallIsLocked k, IsLockedReturns k False, Internal, TryFalse k] t
   \<and> held_keys t = {}"
proof -
  obtain il where il: "get_or_create k new_in_memory_lock = (0, il)" "il_locks il k = Some 0"
    "\<not> mu_locked 0 il" by (rule first_entry)
  have steps:
    "lock_step (new_in_memory_lock, {#}) (CallTry k) (il, {#TryEntered k 0#})"
    "lock_step (il, {#TryEntered k 0#}) (CallIsLocked k) (il, {#Probing k 0, TryEntered k 0#})"
    "lock_step (il, {#Probing k 0, TryEntered k 0#}) (IsLockedReturns k False)
      (mu_set True 0 il, {#MuUnlock 0, TryEntered k 0#})"
    by (auto intro!: try_call is_locked_found probe_free simp: il)
  have "lock_step (mu_set True 0 il, add_mset (TryEntered k 0) {#MuUnlock 0#}) Internal
      (mu_set True 0 il, add_mset (TryFailed k 0) {#MuUnlock 0#})"
    by (rule try_loses) simp
  then have lose: "lock_step (mu_set True 0 il, {#MuUnlock 0, TryEntered k 0#}) Internal
      (mu_set True 0 il, {#TryFailed k 0, MuUnlock 0#})"
    by (simp only: add_mset_commute[of "MuUnlock 0" "TryEntered k 0"])
  have leave: "lock_step (mu_set True 0 il, {#TryFailed k 0, MuUnlock 0#}) (TryFalse k)
      (drop_waiter k 0 (mu_set True 0 il), {#MuUnlock 0#})"
    by (rule try_leaves)
  have "run lock_step (new_in_memory_lock, {#})
      [CallTry k, CallIsLocked k, IsLockedReturns k False, Internal, TryFalse k]
      (drop_waiter k 0 (mu_set True 0 il), {#MuUnlock 0#})"
    by (blast intro: run.intros steps lose leave)
  moreover have "held_keys (drop_waiter k 0 (mu_set True 0 il), {#MuUnlock 0#}) = {}"
    by (simp add: held_keys_def)
  ultimately show ?thesis by blast
qed

text \<open>
  \<open>Unlock\<close> by a goroutine that holds nothing, on a key nobody holds, is not the no-op the
  interface promises once another call on the key is in progress: it deletes the entry under that
  call and then unlocks a free mutex, which ends the process.
\<close>

theorem foreign_unlock_may_crash:
  "\<exists>t. run lock_step (new_in_memory_lock, {#}) [CallTry k, StrayUnlock k, Crash] t \<and> Fatal \<in># snd t"
proof -
  obtain il where il: "get_or_create k new_in_memory_lock = (0, il)" "il_locks il k = Some 0"
    "\<not> mu_locked 0 il" by (rule first_entry)
  have "lock_step (new_in_memory_lock, {#}) (CallTry k) (il, {#TryEntered k 0#})"
    by (rule try_call[OF il(1)])
  moreover have "lock_step (il, {#TryEntered k 0#}) (StrayUnlock k)
      (drop_waiter k 0 il, {#MuUnlock 0, TryEntered k 0#})"
    by (rule unlock_stray) (simp_all add: il)
  moreover have "lock_step (drop_waiter k 0 il, {#MuUnlock 0, TryEntered k 0#}) Crash
      (drop_waiter k 0 il, {#Fatal, TryEntered k 0#})"
    by (rule mu_unlock_fatal) (simp add: il)
  ultimately have "run lock_step (new_in_memory_lock, {#}) [CallTry k, StrayUnlock k, Crash]
      (drop_waiter k 0 il, {#Fatal, TryEntered k 0#})"
    by (blast intro: run.intros)
  then show ?thesis by force
qed

subsection \<open>The interface DistributedLock and its client WithLock\<close>























end
