(* ===== verification/Cluster_Messages.thy ===== *)
theory Cluster_Messages
  imports Prelude
begin

section \<open>cluster/pb: the messages of the MasterController service\<close>

text \<open>
  The message types the master and its workers exchange, as the generated Go structs declare them
  (less the bookkeeping fields of the protobuf runtime), and the fields of \<open>http.Cookie\<close> the
  program reads or writes. The session identifier is an \<open>int32\<close>, the expiry an \<open>int64\<close>; neither
  is computed with, so both are integers here.
\<close>

subsection \<open>Cookies\<close>

record pb_cookie =
  pc_name :: gostring
  pc_value :: gostring
  pc_domain :: gostring
  pc_path :: gostring
  pc_expires_unix :: int
  pc_secure :: bool
  pc_http_only :: bool

record http_cookie =
  hc_name :: gostring
  hc_value :: gostring
  hc_domain :: gostring
  hc_path :: gostring
  hc_expires :: gotime
  hc_max_age :: int
  hc_secure :: bool
  hc_http_only :: bool

subsection \<open>Session states and requests\<close>

record session_status =
  st_session_id :: int
  st_pc_id :: gostring
  st_state :: gostring
  st_cookie_value :: gostring

record broadcast_cookie_request =
  bq_pc_id :: gostring
  bq_session_id :: int
  bq_cookies :: "pb_cookie list"

record broadcast_cookie_response =
  br_accepted :: bool

text \<open>A message field that may be absent is a nil pointer.\<close>

record update_status_request =
  uq_status :: "session_status option"

record update_status_response =
  ur_ok :: bool

record get_global_cookies_request =
  gq_pc_id :: gostring

record 'v get_global_cookies_response =
  gr_cookies :: "pb_cookie list"
  gr_version :: 'v

record watch_cookies_request =
  wq_pc_id :: gostring

record get_all_status_response =
  ar_sessions :: "session_status list"

end
