(* ===== verification/Cluster_Jar.thy ===== *)
theory Cluster_Jar
  imports Cluster_Messages "HOL-Library.Word"
begin

section \<open>cluster/controller.go: the global cookie jar\<close>

text \<open>
  \<open>GlobalCookieJar\<close>: a map from cookie names to the last cookie broadcast under the name, and an
  atomic counter. \<open>Store\<close> writes the entries under the lock and bumps the counter after releasing
  it; the two halves are separate definitions, because other goroutines run between them. The
  loops of \<open>Snapshot\<close> and \<open>ToHTTPCookies\<close> take the iteration order of the map as an argument.
\<close>

subsection \<open>The jar\<close>

record cookie_entry =
  ce_cookie :: pb_cookie
  ce_stored_at :: gotime

record cookie_jar =
  cj_entries :: "gostring \<rightharpoonup> cookie_entry"
  cj_version :: "64 word"

definition new_cookie_jar :: cookie_jar where
  "new_cookie_jar = \<lparr>cj_entries = Map.empty, cj_version = 0\<rparr>"

definition jar_put :: "gostring \<Rightarrow> cookie_entry \<Rightarrow> cookie_jar \<Rightarrow> cookie_jar" where
  "jar_put n e j = j\<lparr>cj_entries := (cj_entries j)(n \<mapsto> e)\<rparr>"

text \<open>The loop of \<open>Store\<close>; each round reads the clock.\<close>

fun jar_store_entries :: "(pb_cookie \<times> gotime) list \<Rightarrow> cookie_jar \<Rightarrow> cookie_jar" where
  "jar_store_entries [] j = j"
| "jar_store_entries ((c, now) # cs) j =
     jar_store_entries cs (jar_put (pc_name c) \<lparr>ce_cookie = c, ce_stored_at = now\<rparr> j)"

definition jar_bump :: "cookie_jar \<Rightarrow> 64 word \<times> cookie_jar" where
  "jar_bump j = (cj_version j + 1, j\<lparr>cj_version := cj_version j + 1\<rparr>)"

definition jar_store :: "(pb_cookie \<times> gotime) list \<Rightarrow> cookie_jar \<Rightarrow> 64 word \<times> cookie_jar" where
  "jar_store cs j = jar_bump (jar_store_entries cs j)"

definition jar_snapshot ::
  "(gostring \<times> cookie_entry) list \<Rightarrow> cookie_jar \<Rightarrow> pb_cookie list \<times> 64 word" where
  "jar_snapshot order j = (map (\<lambda>(n, e). ce_cookie e) order, cj_version j)"

definition cookie_expired :: "int \<Rightarrow> pb_cookie \<Rightarrow> bool" where
  "cookie_expired now c \<longleftrightarrow> pc_expires_unix c > 0 \<and> pc_expires_unix c < now"

fun jar_to_http_loop :: "int \<Rightarrow> (gostring \<times> cookie_entry) list \<Rightarrow> http_cookie list" where
  "jar_to_http_loop now [] = []"
| "jar_to_http_loop now ((n, e) # es) =
     (let c = ce_cookie e in
      if cookie_expired now c then jar_to_http_loop now es
      else \<lparr>hc_name = pc_name c, hc_value = pc_value c, hc_domain = pc_domain c,
             hc_path = pc_path c, hc_expires = ZeroTime, hc_max_age = 0,
             hc_secure = pc_secure c, hc_http_only = pc_http_only c\<rparr>
           # jar_to_http_loop now es)"

definition jar_to_http :: "int \<Rightarrow> (gostring \<times> cookie_entry) list \<Rightarrow> cookie_jar \<Rightarrow> http_cookie list" where
  "jar_to_http now order j = jar_to_http_loop now order"

subsection \<open>The jar is a keyed store\<close>

interpretation jar_kv: keyed_store cj_entries jar_put
  by unfold_locales (simp add: jar_put_def)

lemma jar_put_version [simp]: "cj_version (jar_put n e j) = cj_version j"
  by (simp add: jar_put_def)

lemma jar_store_entries_fold:
  "jar_store_entries cs j =
     fold (\<lambda>(n, e). jar_put n e)
       (map (\<lambda>(c, t). (pc_name c, \<lparr>ce_cookie = c, ce_stored_at = t\<rparr>)) cs) j"
  by (induction cs j rule: jar_store_entries.induct) auto

lemma jar_store_entries_version [simp]: "cj_version (jar_store_entries cs j) = cj_version j"
  by (induction cs j rule: jar_store_entries.induct) auto

lemma jar_store_entries_dom:
  "dom (cj_entries (jar_store_entries cs j)) = dom (cj_entries j) \<union> (pc_name \<circ> fst) ` set cs"
  by (simp only: jar_store_entries_fold jar_kv.store_keeps_keys set_map image_image)
    (simp add: split_def)

text \<open>Every entry is filed under its cookie's own name.\<close>

definition jar_ok :: "cookie_jar \<Rightarrow> bool" where
  "jar_ok j \<longleftrightarrow> finite (dom (cj_entries j))
     \<and> (\<forall>n e. cj_entries j n = Some e \<longrightarrow> pc_name (ce_cookie e) = n)"

lemma jar_ok_new: "jar_ok new_cookie_jar"
  by (simp add: jar_ok_def new_cookie_jar_def)

lemma jar_ok_put: "jar_ok j \<Longrightarrow> pc_name (ce_cookie e) = n \<Longrightarrow> jar_ok (jar_put n e j)"
  by (simp add: jar_ok_def jar_put_def)

lemma jar_ok_store_entries: "jar_ok j \<Longrightarrow> jar_ok (jar_store_entries cs j)"
  by (induction cs j rule: jar_store_entries.induct) (simp_all add: jar_ok_put)

lemma jar_ok_bump: "jar_ok j \<Longrightarrow> jar_ok (snd (jar_bump j))"
  by (simp add: jar_ok_def jar_bump_def)

text \<open>
  The jar as the last cookie broadcast under each name: the abstract contract of \<open>Store\<close>.
\<close>

fun last_named :: "gostring \<Rightarrow> pb_cookie list \<Rightarrow> pb_cookie option" where
  "last_named n [] = None"
| "last_named n (c # cs) =
     (case last_named n cs of Some d \<Rightarrow> Some d
      | None \<Rightarrow> if pc_name c = n then Some c else None)"

definition jar_cookie :: "cookie_jar \<Rightarrow> gostring \<rightharpoonup> pb_cookie" where
  "jar_cookie j n = map_option ce_cookie (cj_entries j n)"

lemma jar_cookie_put [simp]:
  "jar_cookie (jar_put n e j) = (jar_cookie j)(n \<mapsto> ce_cookie e)"
  by (auto simp: jar_cookie_def jar_put_def fun_eq_iff)

lemma jar_cookie_store_entries:
  "jar_cookie (jar_store_entries cs j) n =
     (case last_named n (map fst cs) of Some c \<Rightarrow> Some c | None \<Rightarrow> jar_cookie j n)"
  by (induction cs j rule: jar_store_entries.induct) (auto split: option.splits)

lemma jar_cookie_bump [simp]: "jar_cookie (snd (jar_bump j)) = jar_cookie j"
  by (auto simp: jar_cookie_def jar_bump_def)

lemma jar_bump_version [simp]: "cj_version (snd (jar_bump j)) = cj_version j + 1"
  by (simp add: jar_bump_def)

lemma last_named_name: "last_named n cs = Some c \<Longrightarrow> pc_name c = n \<and> c \<in> set cs"
  by (induction cs) (auto split: option.splits if_splits)

lemma last_named_None: "last_named n cs = None \<longleftrightarrow> n \<notin> pc_name ` set cs"
  by (induction cs) (auto split: option.splits)

lemma last_named_append:
  "last_named n (cs @ ds) = (case last_named n ds of Some c \<Rightarrow> Some c | None \<Rightarrow> last_named n cs)"
  by (induction cs) (auto split: option.splits)

lemma jar_cookie_new [simp]: "jar_cookie new_cookie_jar n = None"
  by (simp add: jar_cookie_def new_cookie_jar_def)

lemma snapshot_cookies:
  assumes "enumerates (cj_entries j) order" "jar_snapshot order j = (cs, v)"
  shows "set cs = ran (jar_cookie j)" and "v = cj_version j"
    and "length cs = card (dom (cj_entries j))"
proof -
  have cs: "cs = map (ce_cookie \<circ> snd) order" and v: "v = cj_version j"
    using assms(2) by (auto simp: jar_snapshot_def split_def comp_def)
  have "set cs = ce_cookie ` ran (cj_entries j)"
    using enumerates_ran[OF assms(1)] by (simp add: cs flip: image_image)
  also have "\<dots> = ran (jar_cookie j)" by (force simp: ran_def jar_cookie_def)
  finally show "set cs = ran (jar_cookie j)" .
  show "length cs = card (dom (cj_entries j))"
    using enumerates_length[OF assms(1)] by (simp add: cs)
  show "v = cj_version j" by (rule v)
qed

fun jar_store_all :: "(pb_cookie \<times> gotime) list list \<Rightarrow> cookie_jar \<Rightarrow> cookie_jar" where
  "jar_store_all [] j = j"
| "jar_store_all (b # bs) j = jar_store_all bs (snd (jar_store b j))"

lemma jar_store_all_cookie:
  "jar_cookie (jar_store_all bs j) n =
     (case last_named n (map fst (concat bs)) of Some c \<Rightarrow> Some c | None \<Rightarrow> jar_cookie j n)"
  by (induction bs j rule: jar_store_all.induct)
    (simp_all add: jar_store_def jar_cookie_store_entries last_named_append split: option.splits)

lemma jar_store_all_version:
  "cj_version (jar_store_all bs j) = cj_version j + word_of_nat (length bs)"
  by (induction bs j rule: jar_store_all.induct) (simp_all add: jar_store_def)

lemma jar_store_all_ok: "jar_ok j \<Longrightarrow> jar_ok (jar_store_all bs j)"
  by (induction bs j rule: jar_store_all.induct)
    (simp_all add: jar_store_def jar_ok_bump jar_ok_store_entries)

lemma snapshot_distinct:
  assumes "enumerates (cj_entries j) order" "jar_ok j"
  shows "distinct (map pc_name (fst (jar_snapshot order j)))"
proof -
  have "map pc_name (fst (jar_snapshot order j)) = map fst order"
    using enumerates_set[OF assms(1)] assms(2)
    by (auto simp: jar_snapshot_def jar_ok_def)
  then show ?thesis using assms(1) by (simp add: enumerates_def)
qed

text \<open>
  The jar holds, after any sequence of broadcasts, exactly the last cookie stored under each
  name, and \<open>Snapshot\<close> returns each of them once, whatever order the map is visited in; the
  version counts the broadcasts modulo the width of its counter.
\<close>

theorem jar_last_write_wins:
  assumes "enumerates (cj_entries (jar_store_all bs new_cookie_jar)) order"
    and "jar_snapshot order (jar_store_all bs new_cookie_jar) = (cs, v)"
  shows "distinct (map pc_name cs) \<and> v = word_of_nat (length bs)
    \<and> (\<forall>c. c \<in> set cs \<longleftrightarrow> last_named (pc_name c) (map fst (concat bs)) = Some c)"
proof -
  let ?j = "jar_store_all bs new_cookie_jar"
  have get: "jar_cookie ?j n = last_named n (map fst (concat bs))" for n
    by (simp add: jar_store_all_cookie split: option.splits)
  have "c \<in> set cs \<longleftrightarrow> last_named (pc_name c) (map fst (concat bs)) = Some c" for c
    using snapshot_cookies(1)[OF assms] last_named_name[of _ "map fst (concat bs)"]
    by (auto simp: ran_def get)
  moreover have "distinct (map pc_name cs)"
    using snapshot_distinct[OF assms(1) jar_store_all_ok[OF jar_ok_new]] assms(2) by simp
  moreover have "v = word_of_nat (length bs)"
    using snapshot_cookies(2)[OF assms] by (simp add: jar_store_all_version new_cookie_jar_def)
  ultimately show ?thesis by blast
qed

definition sample_cookie :: "gostring \<Rightarrow> gostring \<Rightarrow> int \<Rightarrow> pb_cookie" where
  "sample_cookie n v ex = \<lparr>pc_name = n, pc_value = v, pc_domain = ''d'', pc_path = ''/'',
     pc_expires_unix = ex, pc_secure = True, pc_http_only = False\<rparr>"

theorem jar_last_write_wins_witness:
  "let bs = [[(sample_cookie ''a'' ''1'' 0, At 5 0), (sample_cookie ''b'' ''2'' 0, At 5 0)],
             [(sample_cookie ''a'' ''3'' 0, At 6 0)]];
       order = [(''b'', \<lparr>ce_cookie = sample_cookie ''b'' ''2'' 0, ce_stored_at = At 5 0\<rparr>),
                (''a'', \<lparr>ce_cookie = sample_cookie ''a'' ''3'' 0, ce_stored_at = At 6 0\<rparr>)];
       cs = [sample_cookie ''b'' ''2'' 0, sample_cookie ''a'' ''3'' 0]
   in jar_snapshot order (jar_store_all bs new_cookie_jar) = (cs, 2)
      \<and> distinct (map pc_name cs)"
proof -
  let ?bs = "[[(sample_cookie ''a'' ''1'' 0, At 5 0), (sample_cookie ''b'' ''2'' 0, At 5 0)],
             [(sample_cookie ''a'' ''3'' 0, At 6 0)]]"
  let ?order = "[(''b'', \<lparr>ce_cookie = sample_cookie ''b'' ''2'' 0, ce_stored_at = At 5 0\<rparr>),
                (''a'', \<lparr>ce_cookie = sample_cookie ''a'' ''3'' 0, ce_stored_at = At 6 0\<rparr>)]"
  let ?cs = "[sample_cookie ''b'' ''2'' 0, sample_cookie ''a'' ''3'' 0]"
  have e: "enumerates (cj_entries (jar_store_all ?bs new_cookie_jar)) ?order"
    by (auto simp: enumerates_def fun_eq_iff jar_store_def jar_put_def jar_bump_def
        new_cookie_jar_def sample_cookie_def)
  have s: "jar_snapshot ?order (jar_store_all ?bs new_cookie_jar) = (?cs, 2)"
    by (simp add: jar_snapshot_def jar_store_def jar_put_def jar_bump_def new_cookie_jar_def)
  from jar_last_write_wins[OF e s] s show ?thesis by (simp add: Let_def)
qed

end
