(* ===== verification/Cluster_Controller.thy ===== *)
theory Cluster_Controller
  imports Cluster_Jar
begin

section \<open>cluster/controller.go: the master controller\<close>

text \<open>
  \<open>MasterControllerServer\<close>. First its handlers as functions of the server's state, each built from
  the pieces the code runs under one lock; then the handlers of many callers interleaved, as a
  step relation over the bag of calls in progress whose rules use the same pieces. A stream of
  \<open>WatchCookies\<close> is a number: \<open>ms_chan\<close> is the buffer of its channel, \<open>ms_sent\<close> what \<open>stream.Send\<close>
  has delivered to its client.
\<close>

subsection \<open>State and handlers\<close>

type_synonym cookies_response = "64 word get_global_cookies_response"

record master =
  ms_jar :: cookie_jar
  ms_sessions :: "int \<rightharpoonup> session_status"
  ms_subs :: "gostring \<rightharpoonup> nat"
  ms_chan :: "nat \<Rightarrow> cookies_response list"
  ms_sent :: "nat \<Rightarrow> cookies_response list"
  ms_next :: nat

definition new_master :: master where
  "new_master = \<lparr>ms_jar = new_cookie_jar, ms_sessions = Map.empty, ms_subs = Map.empty,
     ms_chan = (\<lambda>_. []), ms_sent = (\<lambda>_. []), ms_next = 0\<rparr>"

definition watch_buffer :: nat where
  "watch_buffer = 32"

definition snapshot_response :: "(gostring \<times> cookie_entry) list \<Rightarrow> cookie_jar \<Rightarrow> cookies_response" where
  "snapshot_response order j =
     (let (cs, v) = jar_snapshot order j in \<lparr>gr_cookies = cs, gr_version = v\<rparr>)"

text \<open>The loop over the subscribers under \<open>subMu\<close>, with its dropping sends.\<close>

fun fan_out :: "cookies_response \<Rightarrow> (gostring \<times> nat) list \<Rightarrow> master \<Rightarrow> master" where
  "fan_out r [] m = m"
| "fan_out r ((pc, st) # subs) m =
     fan_out r subs (m\<lparr>ms_chan := (ms_chan m)(st := try_send watch_buffer r (ms_chan m st))\<rparr>)"

definition broadcast_cookie ::
  "gotime list \<Rightarrow> (gostring \<times> cookie_entry) list \<Rightarrow> (gostring \<times> nat) list
   \<Rightarrow> broadcast_cookie_request \<Rightarrow> master \<Rightarrow> (goerror + broadcast_cookie_response) \<times> master" where
  "broadcast_cookie clocks order subs req m =
     (if bq_cookies req = [] then (Inl ''rpc error: code = InvalidArgument desc = cookies must not be empty'', m)
      else
        (let (ver, j) = jar_store (zip (bq_cookies req) clocks) (ms_jar m);
             (cookies, _) = jar_snapshot order j;
             resp = \<lparr>gr_cookies = cookies, gr_version = ver\<rparr>
         in (Inr \<lparr>br_accepted = True\<rparr>, fan_out resp subs (m\<lparr>ms_jar := j\<rparr>))))"

definition session_put :: "int \<Rightarrow> session_status \<Rightarrow> master \<Rightarrow> master" where
  "session_put i st m = m\<lparr>ms_sessions := (ms_sessions m)(i \<mapsto> st)\<rparr>"

definition update_status ::
  "update_status_request \<Rightarrow> master \<Rightarrow> (goerror + update_status_response) \<times> master" where
  "update_status req m =
     (case uq_status req of
        None \<Rightarrow> (Inl ''rpc error: code = InvalidArgument desc = status must not be nil'', m)
      | Some st \<Rightarrow> (Inr \<lparr>ur_ok = True\<rparr>, session_put (st_session_id st) st m))"

definition get_global_cookies ::
  "(gostring \<times> cookie_entry) list \<Rightarrow> get_global_cookies_request \<Rightarrow> master \<Rightarrow> goerror + cookies_response" where
  "get_global_cookies order req m = Inr (snapshot_response order (ms_jar m))"

definition get_all_status :: "(int \<times> session_status) list \<Rightarrow> master \<Rightarrow> get_all_status_response" where
  "get_all_status order m = \<lparr>ar_sessions = map snd order\<rparr>"

text \<open>\<open>WatchCookies\<close> in pieces: registration, sends, the deferred removal.\<close>

definition watch_register :: "gostring \<Rightarrow> master \<Rightarrow> nat \<times> master" where
  "watch_register pc m =
     (ms_next m,
      m\<lparr>ms_subs := (ms_subs m)(pc \<mapsto> ms_next m), ms_chan := (ms_chan m)(ms_next m := []),
        ms_sent := (ms_sent m)(ms_next m := []), ms_next := Suc (ms_next m)\<rparr>)"

definition stream_send :: "nat \<Rightarrow> cookies_response \<Rightarrow> master \<Rightarrow> master" where
  "stream_send st r m = m\<lparr>ms_sent := (ms_sent m)(st := ms_sent m st @ [r])\<rparr>"

definition watch_receive :: "nat \<Rightarrow> cookies_response list \<Rightarrow> master \<Rightarrow> master" where
  "watch_receive st rest m = m\<lparr>ms_chan := (ms_chan m)(st := rest)\<rparr>"

definition watch_unregister :: "gostring \<Rightarrow> master \<Rightarrow> master" where
  "watch_unregister pc m = m\<lparr>ms_subs := (ms_subs m)(pc := None)\<rparr>"

subsection \<open>Server lifecycle\<close>

text \<open>
  \<open>ListenAndServe\<close>: listening may fail; afterwards the call returns when the context is done
  (nil, after a graceful stop) or when the server does (with its error), whichever \<open>select\<close> sees.
\<close>

datatype serve_event = CtxDone | ServeReturned goerror

definition listen_and_serve :: "gostring \<Rightarrow> goerror option \<Rightarrow> serve_event \<Rightarrow> goerror option" where
  "listen_and_serve addr listen_err ev =
     (case listen_err of
        Some e \<Rightarrow> Some (''cluster: listen '' @ addr @ '': '' @ e)
      | None \<Rightarrow> (case ev of CtxDone \<Rightarrow> None | ServeReturned e \<Rightarrow> Some (''cluster: serve: '' @ e)))"

subsection \<open>Lemmas on the pieces\<close>

lemma fan_out_frame [simp]:
  "ms_jar (fan_out r subs m) = ms_jar m" "ms_sessions (fan_out r subs m) = ms_sessions m"
  "ms_subs (fan_out r subs m) = ms_subs m" "ms_sent (fan_out r subs m) = ms_sent m"
  "ms_next (fan_out r subs m) = ms_next m"
  by (induction r subs m rule: fan_out.induct) auto

lemma fan_out_chan:
  "distinct (map snd subs) \<Longrightarrow>
   ms_chan (fan_out r subs m) st =
     (if st \<in> snd ` set subs then try_send watch_buffer r (ms_chan m st) else ms_chan m st)"
  by (induction r subs m rule: fan_out.induct) auto

definition subs_inj :: "master \<Rightarrow> bool" where
  "subs_inj m \<longleftrightarrow> (\<forall>pc pc' st. ms_subs m pc = Some st \<longrightarrow> ms_subs m pc' = Some st \<longrightarrow> pc = pc')"

lemma enumerates_subs_distinct:
  assumes "enumerates (ms_subs m) subs" "subs_inj m"
  shows "distinct (map snd subs)"
proof -
  have "inj_on snd (set subs)"
    using enumerates_set[OF assms(1)] assms(2) unfolding subs_inj_def inj_on_def by force
  then show ?thesis using enumerates_distinct[OF assms(1)] by (simp add: distinct_map)
qed

interpretation sessions_kv: keyed_store ms_sessions session_put
  by unfold_locales (simp add: session_put_def)

interpretation subs_kv: keyed_store_del ms_subs
  "\<lambda>pc st m. m\<lparr>ms_subs := (ms_subs m)(pc \<mapsto> st)\<rparr>" watch_unregister
  by unfold_locales (auto simp: watch_unregister_def)

text \<open>
  C11: \<open>BroadcastCookie\<close>. An empty request is refused and changes nothing. Otherwise the reply
  accepts, the jar holds the request's cookies over its old ones under the next version, and
  every subscriber with room in its channel is sent that version with the whole jar, exactly once;
  a subscriber whose channel is full and every other stream are left as they were.
\<close>

theorem broadcast_cookie_spec:
  assumes "enumerates (ms_subs m) subs" and "subs_inj m"
    and "length clocks = length (bq_cookies req)"
    and "enumerates (cj_entries (snd (jar_store (zip (bq_cookies req) clocks) (ms_jar m)))) order"
    and "broadcast_cookie clocks order subs req m = (res, m')"
  shows "if bq_cookies req = [] then res = Inl ''rpc error: code = InvalidArgument desc = cookies must not be empty'' \<and> m' = m
    else res = Inr \<lparr>br_accepted = True\<rparr>
      \<and> cj_version (ms_jar m') = cj_version (ms_jar m) + 1
      \<and> (\<forall>n. jar_cookie (ms_jar m') n =
            (case last_named n (bq_cookies req) of
               Some c \<Rightarrow> Some c | None \<Rightarrow> jar_cookie (ms_jar m) n))
      \<and> (\<exists>r. gr_version r = cj_version (ms_jar m') \<and> set (gr_cookies r) = ran (jar_cookie (ms_jar m'))
          \<and> (\<forall>st. ms_chan m' st =
               (if st \<in> ran (ms_subs m) \<and> length (ms_chan m st) < 32
                then ms_chan m st @ [r] else ms_chan m st)))"
proof (cases "bq_cookies req = []")
  case True
  with assms(5) show ?thesis by (simp add: broadcast_cookie_def)
next
  case False
  let ?j = "snd (jar_store (zip (bq_cookies req) clocks) (ms_jar m))"
  let ?r = "\<lparr>gr_cookies = fst (jar_snapshot order ?j), gr_version = cj_version (ms_jar m) + 1\<rparr>"
  have m': "m' = fan_out ?r subs (m\<lparr>ms_jar := ?j\<rparr>)" "res = Inr \<lparr>br_accepted = True\<rparr>"
    using assms(5) False
    by (auto simp: broadcast_cookie_def jar_store_def jar_bump_def jar_snapshot_def Let_def)
  have v: "cj_version ?j = cj_version (ms_jar m) + 1" by (simp add: jar_store_def)
  have "map fst (zip (bq_cookies req) clocks) = bq_cookies req" using assms(3) by simp
  then have "jar_cookie ?j n = (case last_named n (bq_cookies req) of
      Some c \<Rightarrow> Some c | None \<Rightarrow> jar_cookie (ms_jar m) n)" for n
    by (simp add: jar_store_def jar_cookie_store_entries)
  moreover have "set (gr_cookies ?r) = ran (jar_cookie ?j)"
    using snapshot_cookies(1)[OF assms(4)] by (simp add: jar_snapshot_def)
  moreover have "ms_chan m' st = (if st \<in> ran (ms_subs m) \<and> length (ms_chan m st) < 32
      then ms_chan m st @ [?r] else ms_chan m st)" for st
    using enumerates_ran[OF assms(1)]
    by (simp add: m' fan_out_chan[OF enumerates_subs_distinct[OF assms(1,2)]] try_send_def
        watch_buffer_def)
  ultimately show ?thesis
    using False m' v by (auto intro!: exI[of _ ?r])
qed

theorem broadcast_cookie_spec_witness:
  "let m = snd (watch_register ''pc-2'' new_master);
       req = \<lparr>bq_pc_id = ''pc-1'', bq_session_id = 1, bq_cookies = [sample_cookie ''a'' ''1'' 0]\<rparr>;
       order = [(''a'', \<lparr>ce_cookie = sample_cookie ''a'' ''1'' 0, ce_stored_at = At 5 0\<rparr>)];
       m' = snd (broadcast_cookie [At 5 0] order [(''pc-2'', 0)] req m)
   in cj_version (ms_jar m') = 1 \<and> jar_cookie (ms_jar m') ''a'' = Some (sample_cookie ''a'' ''1'' 0)"
proof -
  let ?m = "snd (watch_register ''pc-2'' new_master)"
  let ?req = "\<lparr>bq_pc_id = ''pc-1'', bq_session_id = 1, bq_cookies = [sample_cookie ''a'' ''1'' 0]\<rparr>"
  let ?order = "[(''a'', \<lparr>ce_cookie = sample_cookie ''a'' ''1'' 0, ce_stored_at = At 5 0\<rparr>)]"
  have e1: "enumerates (ms_subs ?m) [(''pc-2'', 0)]"
    by (auto simp: enumerates_def watch_register_def new_master_def fun_eq_iff)
  have e2: "subs_inj ?m" by (auto simp: subs_inj_def watch_register_def new_master_def)
  have e3: "enumerates (cj_entries (snd (jar_store (zip (bq_cookies ?req) [At 5 0]) (ms_jar ?m)))) ?order"
    by (auto simp: enumerates_def fun_eq_iff jar_store_def jar_put_def jar_bump_def
        watch_register_def new_master_def new_cookie_jar_def sample_cookie_def)
  have j: "ms_jar ?m = new_cookie_jar" "cj_version new_cookie_jar = 0"
    by (simp_all add: watch_register_def new_master_def new_cookie_jar_def)
  have "last_named ''a'' (bq_cookies ?req) = Some (sample_cookie ''a'' ''1'' 0)" "bq_cookies ?req \<noteq> []"
    by (simp_all add: sample_cookie_def)
  with broadcast_cookie_spec[OF e1 e2 _ e3 prod.collapse[symmetric]] j show ?thesis
    unfolding Let_def by auto
qed

subsection \<open>Session statuses\<close>

fun update_status_all :: "update_status_request list \<Rightarrow> master \<Rightarrow> master" where
  "update_status_all [] m = m"
| "update_status_all (q # qs) m = update_status_all qs (snd (update_status q m))"

definition statuses :: "update_status_request list \<Rightarrow> session_status list" where
  "statuses qs = List.map_filter uq_status qs"

lemma update_status_all_fold:
  "update_status_all qs m =
     fold (\<lambda>(i, st). session_put i st) (map (\<lambda>st. (st_session_id st, st)) (statuses qs)) m"
  by (induction qs m rule: update_status_all.induct)
    (auto simp: update_status_def statuses_def map_filter_simps split: option.splits)

text \<open>
  \<open>GetAllStatus\<close> after any sequence of \<open>UpdateStatus\<close> calls returns, once for every session
  reported, the last status reported for it, and nothing else; a request without a status is
  refused and changes nothing.
\<close>

theorem status_tracking:
  assumes "enumerates (ms_sessions (update_status_all qs new_master)) order"
    and "ss = ar_sessions (get_all_status order (update_status_all qs new_master))"
  shows "distinct (map st_session_id ss)
    \<and> (\<forall>st. st \<in> set ss \<longleftrightarrow>
        map_of (rev (map (\<lambda>s. (st_session_id s, s)) (statuses qs))) (st_session_id st) = Some st)
    \<and> update_status \<lparr>uq_status = None\<rparr> m = (Inl ''rpc error: code = InvalidArgument desc = status must not be nil'', m)"
proof -
  let ?kvs = "map (\<lambda>s. (st_session_id s, s)) (statuses qs)"
  have m: "ms_sessions (update_status_all qs new_master) = map_of (rev ?kvs)"
    using sessions_kv.lookup_store_all[of ?kvs new_master]
    by (simp add: update_status_all_fold statuses_def new_master_def)
  have ids: "st_session_id s = i" if "(i, s) \<in> set order" for i s
  proof -
    have "map_of (rev ?kvs) i = Some s" using enumerates_set[OF assms(1)] that m by simp
    then have "(i, s) \<in> set ?kvs" by (auto dest!: map_of_SomeD)
    then show ?thesis by auto
  qed
  have ss: "ss = map snd order" using assms(2) by (simp add: get_all_status_def)
  then have "map st_session_id ss = map fst order" using ids by auto
  then have "distinct (map st_session_id ss)" using assms(1) by (simp add: enumerates_def)
  moreover have "st \<in> set ss \<longleftrightarrow> map_of (rev ?kvs) (st_session_id st) = Some st" for st
  proof
    assume "st \<in> set ss"
    then obtain i where i: "(i, st) \<in> set order" using ss by auto
    then have "map_of (rev ?kvs) i = Some st" using enumerates_set[OF assms(1)] m by simp
    with ids[OF i] show "map_of (rev ?kvs) (st_session_id st) = Some st" by simp
  next
    assume "map_of (rev ?kvs) (st_session_id st) = Some st"
    then have "(st_session_id st, st) \<in> set order" using enumerates_set[OF assms(1)] m by simp
    then show "st \<in> set ss" using ss by force
  qed
  ultimately show ?thesis by (simp add: update_status_def)
qed

definition sample_status :: "int \<Rightarrow> gostring \<Rightarrow> session_status" where
  "sample_status i s =
     \<lparr>st_session_id = i, st_pc_id = ''pc-1'', st_state = s, st_cookie_value = []\<rparr>"

theorem status_tracking_witness:
  "let qs = [\<lparr>uq_status = Some (sample_status 1 ''starting'')\<rparr>, \<lparr>uq_status = None\<rparr>,
             \<lparr>uq_status = Some (sample_status 2 ''starting'')\<rparr>,
             \<lparr>uq_status = Some (sample_status 1 ''running'')\<rparr>];
       order = [(2, sample_status 2 ''starting''), (1, sample_status 1 ''running'')];
       ss = ar_sessions (get_all_status order (update_status_all qs new_master))
   in ss = [sample_status 2 ''starting'', sample_status 1 ''running'']
      \<and> distinct (map st_session_id ss)"
proof -
  let ?qs = "[\<lparr>uq_status = Some (sample_status 1 ''starting'')\<rparr>, \<lparr>uq_status = None\<rparr>,
             \<lparr>uq_status = Some (sample_status 2 ''starting'')\<rparr>,
             \<lparr>uq_status = Some (sample_status 1 ''running'')\<rparr>]"
  let ?order = "[(2, sample_status 2 ''starting''), (1, sample_status 1 ''running'')]"
  have e: "enumerates (ms_sessions (update_status_all ?qs new_master)) ?order"
    by (auto simp: enumerates_def fun_eq_iff update_status_def session_put_def new_master_def
        sample_status_def)
  from status_tracking[OF e refl] show ?thesis
    by (simp add: Let_def get_all_status_def)
qed

end
