(* ===== verification/Cluster_Watch.thy ===== *)
theory Cluster_Watch
  imports Cluster_Controller
begin

section \<open>cluster/controller.go: the handlers interleaved\<close>

text \<open>
  The calls of any number of workers at the same time. Each rule is one stretch of code that no
  other goroutine can observe half done: the write loop of \<open>Store\<close> under \<open>j.mu\<close>, the atomic
  increment after it, a \<open>Snapshot\<close> under the read lock (the entries cannot change while it is held,
  so the snapshot is placed at its load of the version), one send of the loop over the
  subscribers under \<open>subMu\<close>, a registration, a receive, a \<open>stream.Send\<close>, the deferred removal. The
  rules reuse the pieces of the sequential handlers.

  \<open>wc_log\<close>, \<open>wc_stamped\<close>, \<open>wc_pushed\<close> and \<open>wc_dropped\<close> are history, read by no guard: the batches in the
  order the jar was written, the batches in the order they drew their version, the batches
  pushed to all subscribers, the streams that were skipped because their channel was full.
  \<open>exclusive\<close> says whether a worker opens a stream only when its previous one is gone.
\<close>

subsection \<open>Calls in progress and their steps\<close>

datatype call =
    BcStored nat
  | BcStamped nat "64 word"
  | BcReady nat cookies_response
  | BcPushing nat cookies_response "(gostring \<times> nat) list"
  | WatchReg gostring nat
  | WatchFirst gostring nat cookies_response
  | WatchLoop gostring nat
  | WatchForward gostring nat cookies_response
  | WatchExit gostring nat

record watch_config =
  wc_master :: master
  wc_sub_mu :: bool
  wc_calls :: "call multiset"
  wc_answers :: "cookies_response set"
  wc_log :: "pb_cookie list list"
  wc_stamped :: "nat list"
  wc_pushed :: "nat set"
  wc_dropped :: "nat set"

fun watches :: "gostring \<Rightarrow> call \<Rightarrow> bool" where
  "watches pc (WatchReg pc' st) = (pc' = pc)"
| "watches pc (WatchFirst pc' st r) = (pc' = pc)"
| "watches pc (WatchLoop pc' st) = (pc' = pc)"
| "watches pc (WatchForward pc' st r) = (pc' = pc)"
| "watches pc (WatchExit pc' st) = (pc' = pc)"
| "watches pc _ = False"

inductive watch_step :: "bool \<Rightarrow> watch_config \<Rightarrow> watch_config \<Rightarrow> bool" for exclusive :: bool where
  bc_store: "\<lbrakk>cs \<noteq> []; length clocks = length cs; m = wc_master c\<rbrakk> \<Longrightarrow>
     watch_step exclusive c (c\<lparr>wc_master := m\<lparr>ms_jar := jar_store_entries (zip cs clocks) (ms_jar m)\<rparr>,
       wc_calls := add_mset (BcStored (length (wc_log c))) (wc_calls c), wc_log := wc_log c @ [cs]\<rparr>)"
| bc_stamp: "\<lbrakk>wc_calls c = add_mset (BcStored i) M; m = wc_master c; jar_bump (ms_jar m) = (v, j)\<rbrakk> \<Longrightarrow>
     watch_step exclusive c (c\<lparr>wc_master := m\<lparr>ms_jar := j\<rparr>,
       wc_calls := add_mset (BcStamped i v) M, wc_stamped := wc_stamped c @ [i]\<rparr>)"
| bc_snapshot: "\<lbrakk>wc_calls c = add_mset (BcStamped i v) M; j = ms_jar (wc_master c);
     enumerates (cj_entries j) order; jar_snapshot order j = (cs, u)\<rbrakk> \<Longrightarrow>
     watch_step exclusive c
       (c\<lparr>wc_calls := add_mset (BcReady i \<lparr>gr_cookies = cs, gr_version = v\<rparr>) M\<rparr>)"
| bc_lock: "\<lbrakk>wc_calls c = add_mset (BcReady i r) M; \<not> wc_sub_mu c;
     enumerates (ms_subs (wc_master c)) subs\<rbrakk> \<Longrightarrow>
     watch_step exclusive c (c\<lparr>wc_calls := add_mset (BcPushing i r subs) M, wc_sub_mu := True\<rparr>)"
| bc_push: "\<lbrakk>wc_calls c = add_mset (BcPushing i r ((pc, st) # subs)) M; m = wc_master c\<rbrakk> \<Longrightarrow>
     watch_step exclusive c (c\<lparr>wc_calls := add_mset (BcPushing i r subs) M,
       wc_master := fan_out r [(pc, st)] m,
       wc_dropped := (if length (ms_chan m st) < watch_buffer then wc_dropped c
                      else insert st (wc_dropped c))\<rparr>)"
| bc_done: "\<lbrakk>wc_calls c = add_mset (BcPushing i r []) M\<rbrakk> \<Longrightarrow>
     watch_step exclusive c
       (c\<lparr>wc_calls := M, wc_sub_mu := False, wc_pushed := insert i (wc_pushed c)\<rparr>)"
| watch_open: "\<lbrakk>pc \<noteq> []; \<not> wc_sub_mu c; watch_register pc (wc_master c) = (st, m');
     exclusive \<longrightarrow> count_if (watches pc) (wc_calls c) = 0\<rbrakk> \<Longrightarrow>
     watch_step exclusive c
       (c\<lparr>wc_master := m', wc_calls := add_mset (WatchReg pc st) (wc_calls c)\<rparr>)"
| watch_snapshot: "\<lbrakk>wc_calls c = add_mset (WatchReg pc st) M; j = ms_jar (wc_master c);
     enumerates (cj_entries j) order\<rbrakk> \<Longrightarrow>
     watch_step exclusive c
       (c\<lparr>wc_calls := add_mset (WatchFirst pc st (snapshot_response order j)) M\<rparr>)"
| watch_first: "wc_calls c = add_mset (WatchFirst pc st r) M \<Longrightarrow>
     watch_step exclusive c
       (c\<lparr>wc_master := stream_send st r (wc_master c), wc_calls := add_mset (WatchLoop pc st) M\<rparr>)"
| watch_first_fails: "wc_calls c = add_mset (WatchFirst pc st r) M \<Longrightarrow>
     watch_step exclusive c (c\<lparr>wc_calls := add_mset (WatchExit pc st) M\<rparr>)"
| watch_update: "\<lbrakk>wc_calls c = add_mset (WatchLoop pc st) M; ms_chan (wc_master c) st = r # rest\<rbrakk> \<Longrightarrow>
     watch_step exclusive c (c\<lparr>wc_master := watch_receive st rest (wc_master c),
       wc_calls := add_mset (WatchForward pc st r) M\<rparr>)"
| watch_forward: "wc_calls c = add_mset (WatchForward pc st r) M \<Longrightarrow>
     watch_step exclusive c
       (c\<lparr>wc_master := stream_send st r (wc_master c), wc_calls := add_mset (WatchLoop pc st) M\<rparr>)"
| watch_forward_fails: "wc_calls c = add_mset (WatchForward pc st r) M \<Longrightarrow>
     watch_step exclusive c (c\<lparr>wc_calls := add_mset (WatchExit pc st) M\<rparr>)"
| watch_ctx_done: "wc_calls c = add_mset (WatchLoop pc st) M \<Longrightarrow>
     watch_step exclusive c (c\<lparr>wc_calls := add_mset (WatchExit pc st) M\<rparr>)"
| watch_cleanup: "\<lbrakk>wc_calls c = add_mset (WatchExit pc st) M; \<not> wc_sub_mu c\<rbrakk> \<Longrightarrow>
     watch_step exclusive c (c\<lparr>wc_master := watch_unregister pc (wc_master c), wc_calls := M\<rparr>)"
| get_cookies: "\<lbrakk>enumerates (cj_entries (ms_jar (wc_master c))) order;
     get_global_cookies order req (wc_master c) = Inr r\<rbrakk> \<Longrightarrow>
     watch_step exclusive c (c\<lparr>wc_answers := insert r (wc_answers c)\<rparr>)"
| set_status: "update_status req (wc_master c) = (res, m') \<Longrightarrow>
     watch_step exclusive c (c\<lparr>wc_master := m'\<rparr>)"

definition watch_new :: watch_config where
  "watch_new = \<lparr>wc_master = new_master, wc_sub_mu = False, wc_calls = {#}, wc_answers = {},
     wc_log = [], wc_stamped = [], wc_pushed = {}, wc_dropped = {}\<rparr>"

definition watch_initial :: "watch_config \<Rightarrow> bool" where
  "watch_initial c \<longleftrightarrow> c = watch_new"

subsection \<open>What a response reflects\<close>

definition jar_after :: "pb_cookie list list \<Rightarrow> nat \<Rightarrow> gostring \<rightharpoonup> pb_cookie" where
  "jar_after log k n = last_named n (concat (take k log))"

definition reflects :: "pb_cookie list list \<Rightarrow> nat \<Rightarrow> cookies_response \<Rightarrow> bool" where
  "reflects log k r \<longleftrightarrow> k \<le> length log \<and> set (gr_cookies r) = ran (jar_after log k)"

text \<open>A response is the jar after some batches, among them the first \<open>n\<close> that drew a version.\<close>

definition reflects_version :: "pb_cookie list list \<Rightarrow> nat list \<Rightarrow> cookies_response \<Rightarrow> bool" where
  "reflects_version log stamped r \<longleftrightarrow> (\<exists>k n. reflects log k r \<and> n \<le> length stamped
     \<and> gr_version r = word_of_nat n \<and> (\<forall>i \<in> set (take n stamped). i < k))"

fun call_responses :: "call \<Rightarrow> cookies_response set" where
  "call_responses (BcReady i r) = {r}"
| "call_responses (BcPushing i r subs) = {r}"
| "call_responses (WatchFirst pc st r) = {r}"
| "call_responses (WatchForward pc st r) = {r}"
| "call_responses _ = {}"

definition all_responses :: "watch_config \<Rightarrow> cookies_response set" where
  "all_responses c = wc_answers c \<union> (\<Union>p \<in> set_mset (wc_calls c). call_responses p)
     \<union> (\<Union>st. set (ms_chan (wc_master c) st) \<union> set (ms_sent (wc_master c) st))"

fun bc_ok :: "pb_cookie list list \<Rightarrow> nat list \<Rightarrow> call \<Rightarrow> bool" where
  "bc_ok log stamped (BcStored i) = (i < length log)"
| "bc_ok log stamped (BcStamped i v) = (i < length log \<and>
     (\<exists>n \<le> length stamped. v = word_of_nat n))"
| "bc_ok log stamped (BcReady i r) = (i < length log \<and> (\<exists>k > i. reflects log k r))"
| "bc_ok log stamped (BcPushing i r subs) = (i < length log \<and> (\<exists>k > i. reflects log k r))"
| "bc_ok log stamped _ = True"

definition jar_inv :: "watch_config \<Rightarrow> bool" where
  "jar_inv c \<longleftrightarrow> jar_cookie (ms_jar (wc_master c)) = jar_after (wc_log c) (length (wc_log c))
     \<and> cj_version (ms_jar (wc_master c)) = word_of_nat (length (wc_stamped c))
     \<and> (\<forall>i \<in> set (wc_stamped c). i < length (wc_log c))
     \<and> (\<forall>p \<in># wc_calls c. bc_ok (wc_log c) (wc_stamped c) p)
     \<and> (\<forall>r \<in> all_responses c. reflects_version (wc_log c) (wc_stamped c) r)"

lemma jar_after_snoc [simp]: "k \<le> length log \<Longrightarrow> jar_after (log @ [cs]) k = jar_after log k"
  by (simp add: jar_after_def fun_eq_iff)

lemma reflects_snoc: "reflects log k r \<Longrightarrow> reflects (log @ [cs]) k r"
  by (simp add: reflects_def)

lemma reflects_version_mono:
  "reflects_version log stamped r \<Longrightarrow> reflects_version (log @ [cs]) stamped r"
  "reflects_version log stamped r \<Longrightarrow> reflects_version log (stamped @ [i]) r"
proof -
  assume "reflects_version log stamped r"
  then obtain k n where *: "reflects log k r" "n \<le> length stamped" "gr_version r = word_of_nat n"
      "\<forall>i \<in> set (take n stamped). i < k"
    unfolding reflects_version_def by blast
  from * reflects_snoc show "reflects_version (log @ [cs]) stamped r"
    unfolding reflects_version_def by blast
  from * have "n \<le> length (stamped @ [i])" "\<forall>j \<in> set (take n (stamped @ [i])). j < k" by simp_all
  with *(1,3) show "reflects_version log (stamped @ [i]) r"
    unfolding reflects_version_def by blast
qed

lemma bc_ok_mono:
  assumes "bc_ok log stamped p"
  shows "bc_ok (log @ [cs]) stamped p" and "bc_ok log (stamped @ [i]) p"
  using assms by (cases p; auto intro: reflects_snoc le_SucI)+

lemma snapshot_reflects:
  assumes "jar_cookie j = jar_after log (length log)" "enumerates (cj_entries j) order"
    "jar_snapshot order j = (cs, u)"
  shows "reflects log (length log) \<lparr>gr_cookies = cs, gr_version = v\<rparr>"
  using snapshot_cookies(1)[OF assms(2,3)] assms(1) by (simp add: reflects_def)

lemma snapshot_reflects_version:
  assumes "jar_cookie j = jar_after log (length log)" "enumerates (cj_entries j) order"
    "jar_snapshot order j = (cs, u)" "\<forall>i \<in> set stamped. i < length log"
    "n \<le> length stamped" "v = word_of_nat n"
  shows "reflects_version log stamped \<lparr>gr_cookies = cs, gr_version = v\<rparr>"
proof -
  have "\<forall>i \<in> set (take n stamped). i < length log"
    using assms(4) by (meson in_set_takeD)
  then show ?thesis
    using snapshot_reflects[OF assms(1-3)] assms(5,6)
    unfolding reflects_version_def by (metis get_global_cookies_response.select_convs(2))
qed

text \<open>A step that leaves the jar and its history alone and introduces no response of its own.\<close>

lemma jar_inv_frame:
  assumes inv: "jar_inv c"
    and eq: "ms_jar (wc_master c') = ms_jar (wc_master c)" "wc_log c' = wc_log c"
      "wc_stamped c' = wc_stamped c"
    and resp: "\<And>r. r \<in> all_responses c' \<Longrightarrow>
      r \<in> all_responses c \<or> reflects_version (wc_log c) (wc_stamped c) r"
    and calls: "\<And>p. p \<in># wc_calls c' \<Longrightarrow> p \<in># wc_calls c \<or> bc_ok (wc_log c) (wc_stamped c) p"
  shows "jar_inv c'"
  unfolding jar_inv_def eq
  using inv resp calls unfolding jar_inv_def by blast

lemma fan_out_one_chan:
  "ms_chan (fan_out r [(pc, st)] m) st' =
     (if st' = st then try_send watch_buffer r (ms_chan m st) else ms_chan m st')"
  by simp

lemma jar_after_append:
  "jar_after (log @ [cs]) (Suc (length log)) n =
     (case last_named n cs of Some d \<Rightarrow> Some d | None \<Rightarrow> jar_after log (length log) n)"
  by (simp add: jar_after_def last_named_append split: option.split)

lemma jar_inv_initial: "watch_initial c \<Longrightarrow> jar_inv c"
  by (auto simp: watch_initial_def watch_new_def jar_inv_def all_responses_def new_master_def
      jar_after_def fun_eq_iff new_cookie_jar_def jar_cookie_def)

lemma all_responses_store:
  "wc_calls c' = add_mset (BcStored i) (wc_calls c) \<Longrightarrow> wc_answers c' = wc_answers c \<Longrightarrow>
   ms_chan (wc_master c') = ms_chan (wc_master c) \<Longrightarrow> ms_sent (wc_master c') = ms_sent (wc_master c)
   \<Longrightarrow> all_responses c' = all_responses c"
  by (simp add: all_responses_def)

lemma jar_inv_store:
  assumes "jar_inv c" "length clocks = length cs" "m = wc_master c"
  shows "jar_inv (c\<lparr>wc_master := m\<lparr>ms_jar := jar_store_entries (zip cs clocks) (ms_jar m)\<rparr>,
       wc_calls := add_mset (BcStored (length (wc_log c))) (wc_calls c), wc_log := wc_log c @ [cs]\<rparr>)"
proof -
  have "jar_cookie (jar_store_entries (zip cs clocks) (ms_jar m)) =
      jar_after (wc_log c @ [cs]) (Suc (length (wc_log c)))"
    using assms by (auto simp: fun_eq_iff jar_cookie_store_entries jar_inv_def jar_after_append
        split: option.split)
  with assms show ?thesis
    unfolding jar_inv_def
    by (auto simp: all_responses_def intro: reflects_version_mono bc_ok_mono less_SucI)
qed

lemma jar_inv_stamp:
  assumes inv: "jar_inv c" and c: "wc_calls c = add_mset (BcStored i) M" "m = wc_master c"
    and b: "jar_bump (ms_jar m) = (v, j)"
  shows "jar_inv (c\<lparr>wc_master := m\<lparr>ms_jar := j\<rparr>,
       wc_calls := add_mset (BcStamped i v) M, wc_stamped := wc_stamped c @ [i]\<rparr>)"
proof -
  have j: "jar_cookie j = jar_cookie (ms_jar m)" "cj_version j = v" "v = cj_version (ms_jar m) + 1"
    using b jar_cookie_bump[of "ms_jar m"] by (auto simp: jar_bump_def)
  have v: "v = word_of_nat (Suc (length (wc_stamped c)))"
    using inv j c(2) by (simp add: jar_inv_def)
  have "bc_ok (wc_log c) (wc_stamped c @ [i]) (BcStamped i v)"
    using inv c(1) v by (auto simp: jar_inv_def)
  moreover have "i < length (wc_log c)"
    using inv c(1) by (auto simp: jar_inv_def)
  moreover have "cj_version j = word_of_nat (length (wc_stamped c @ [i]))"
    using v j(2) by simp
  ultimately show ?thesis
    using inv c j(1) unfolding jar_inv_def
    by (auto simp: all_responses_def intro: reflects_version_mono bc_ok_mono
        simp del: bc_ok.simps)
qed

lemma jar_inv_step:
  assumes "watch_step ex c c'" "jar_inv c"
  shows "jar_inv c'"
  using assms
proof (induction rule: watch_step.induct)
  case (bc_store cs clocks m c)
  then show ?case by (intro jar_inv_store)
next
  case (bc_stamp c i M m v j)
  then show ?case by (intro jar_inv_stamp)
next
  case (bc_snapshot c i v M j order cs u)
  let ?r = "\<lparr>gr_cookies = cs, gr_version = v\<rparr>"
  from bc_snapshot have j: "jar_cookie j = jar_after (wc_log c) (length (wc_log c))"
    and i: "i < length (wc_log c)" and "\<exists>n \<le> length (wc_stamped c). v = word_of_nat n"
    and st: "\<forall>i \<in> set (wc_stamped c). i < length (wc_log c)"
    by (auto simp: jar_inv_def)
  then obtain n where "n \<le> length (wc_stamped c)" "v = word_of_nat n" by blast
  then have "reflects_version (wc_log c) (wc_stamped c) ?r"
    using snapshot_reflects_version[OF j bc_snapshot(3,4) st] by blast
  moreover have "bc_ok (wc_log c) (wc_stamped c) (BcReady i ?r)"
    using i snapshot_reflects[OF j bc_snapshot(3,4)] by auto
  ultimately show ?case
    by (intro jar_inv_frame[OF bc_snapshot(5)])
      (auto simp: all_responses_def bc_snapshot(1) simp del: bc_ok.simps)
next
  case (bc_lock c i r M subs)
  moreover from this have "bc_ok (wc_log c) (wc_stamped c) (BcPushing i r subs)"
    by (auto simp: jar_inv_def)
  ultimately show ?case
    by (intro jar_inv_frame[OF bc_lock(4)]) (auto simp: all_responses_def simp del: bc_ok.simps)
next
  case (bc_push c i r pc st subs M m)
  moreover from this have "bc_ok (wc_log c) (wc_stamped c) (BcPushing i r subs)"
    by (auto simp: jar_inv_def)
  ultimately show ?case
    by (intro jar_inv_frame[OF bc_push(3)])
      (auto simp: all_responses_def try_send_def split: if_splits simp del: bc_ok.simps)
next
  case (watch_snapshot c pc st M j order)
  obtain cs u where s: "jar_snapshot order j = (cs, u)" by (cases "jar_snapshot order j")
  have j: "jar_cookie j = jar_after (wc_log c) (length (wc_log c))"
    and st: "\<forall>i \<in> set (wc_stamped c). i < length (wc_log c)"
    and u: "u = word_of_nat (length (wc_stamped c))"
    using watch_snapshot s by (auto simp: jar_inv_def jar_snapshot_def)
  show ?case
    by (intro jar_inv_frame[OF watch_snapshot(4)])
      (use watch_snapshot s snapshot_reflects_version[OF j watch_snapshot(3) s st _ u] in
        \<open>auto simp: all_responses_def snapshot_response_def\<close>)
next
  case (watch_update c pc st M r rest)
  have "set (ms_chan (wc_master c) st) \<subseteq> all_responses c"
    by (auto simp: all_responses_def)
  then have "r \<in> all_responses c" "set rest \<subseteq> all_responses c"
    using watch_update(2) by auto
  then show ?case
    by (intro jar_inv_frame[OF watch_update(3)])
      (auto simp: watch_update(1) watch_receive_def all_responses_def split: if_splits)
next
  case (get_cookies c order req r)
  obtain cs u where s: "jar_snapshot order (ms_jar (wc_master c)) = (cs, u)"
    by (cases "jar_snapshot order (ms_jar (wc_master c))")
  have j: "jar_cookie (ms_jar (wc_master c)) = jar_after (wc_log c) (length (wc_log c))"
    and st: "\<forall>i \<in> set (wc_stamped c). i < length (wc_log c)"
    and u: "u = word_of_nat (length (wc_stamped c))"
    using get_cookies s by (auto simp: jar_inv_def jar_snapshot_def)
  show ?case
    by (intro jar_inv_frame[OF get_cookies(3)])
      (use get_cookies s snapshot_reflects_version[OF j get_cookies(1) s st _ u] in
        \<open>auto simp: all_responses_def snapshot_response_def get_global_cookies_def\<close>)
qed ((rule jar_inv_frame, assumption);
    auto simp: all_responses_def watch_register_def stream_send_def
    watch_receive_def watch_unregister_def update_status_def session_put_def
    split: if_splits option.splits)+

interpretation jar_machine: invariant_machine watch_initial "watch_step ex" jar_inv for ex
  by unfold_locales (fact jar_inv_initial, fact jar_inv_step)

subsection \<open>No update is lost on an exclusive stream\<close>

fun stream :: "call \<Rightarrow> (gostring \<times> nat) option" where
  "stream (WatchReg pc st) = Some (pc, st)"
| "stream (WatchFirst pc st r) = Some (pc, st)"
| "stream (WatchLoop pc st) = Some (pc, st)"
| "stream (WatchForward pc st r) = Some (pc, st)"
| "stream (WatchExit pc st) = Some (pc, st)"
| "stream _ = None"

fun started :: "call \<Rightarrow> bool" where
  "started (WatchFirst pc st r) = True"
| "started (WatchLoop pc st) = True"
| "started (WatchForward pc st r) = True"
| "started _ = False"

fun live :: "call \<Rightarrow> bool" where
  "live (WatchReg pc st) = True"
| "live q = started q"

fun pushing :: "call \<Rightarrow> bool" where
  "pushing (BcPushing i r subs) = True"
| "pushing _ = False"

text \<open>What the client of a stream has, or will have once its call has sent what it is holding.\<close>

definition holds :: "watch_config \<Rightarrow> call \<Rightarrow> nat \<Rightarrow> cookies_response set" where
  "holds c q st = set (ms_sent (wc_master c) st) \<union> set (ms_chan (wc_master c) st) \<union> call_responses q"

definition covered :: "pb_cookie list list \<Rightarrow> nat \<Rightarrow> cookies_response set \<Rightarrow> bool" where
  "covered log i R \<longleftrightarrow> (\<exists>r \<in> R. \<exists>k > i. reflects log k r)"

definition subs_ok :: "watch_config \<Rightarrow> bool" where
  "subs_ok c \<longleftrightarrow> (\<forall>q \<in># wc_calls c. \<forall>pc st. stream q = Some (pc, st) \<longrightarrow>
        ms_subs (wc_master c) pc = Some st)
     \<and> (\<forall>pc. count_if (watches pc) (wc_calls c) \<le> 1)
     \<and> (\<forall>pc st. ms_subs (wc_master c) pc = Some st \<longrightarrow> st < ms_next (wc_master c))
     \<and> subs_inj (wc_master c)"

definition push_ok :: "watch_config \<Rightarrow> bool" where
  "push_ok c \<longleftrightarrow> count_if pushing (wc_calls c) = (if wc_sub_mu c then 1 else 0)
     \<and> (\<forall>i r subs. BcPushing i r subs \<in># wc_calls c \<longrightarrow>
          (\<forall>q \<in># wc_calls c. \<forall>pc st. live q \<longrightarrow> stream q = Some (pc, st) \<longrightarrow>
             st \<notin> wc_dropped c \<longrightarrow> (pc, st) \<in> set subs \<or> r \<in> holds c q st))"

definition cover_ok :: "watch_config \<Rightarrow> bool" where
  "cover_ok c \<longleftrightarrow> (\<forall>q \<in># wc_calls c. \<forall>pc st. started q \<longrightarrow> stream q = Some (pc, st) \<longrightarrow>
     st \<notin> wc_dropped c \<longrightarrow> (\<forall>i \<in> wc_pushed c. covered (wc_log c) i (holds c q st)))
     \<and> (\<forall>i \<in> wc_pushed c. i < length (wc_log c))"

definition watch_inv :: "watch_config \<Rightarrow> bool" where
  "watch_inv c \<longleftrightarrow> jar_inv c \<and> subs_ok c \<and> push_ok c \<and> cover_ok c"

lemma watches_stream: "watches pc q \<longleftrightarrow> (\<exists>st. stream q = Some (pc, st))"
  by (cases q) auto

lemma started_live: "started q \<Longrightarrow> live q"
  by (cases q) auto

lemma stream_not_pushing: "stream q = Some x \<Longrightarrow> \<not> pushing q"
  by (cases q) auto

lemma stream_None_not_live: "stream q = None \<Longrightarrow> \<not> live q"
  by (cases q) auto

lemma covered_mono: "covered log i R \<Longrightarrow> R \<subseteq> S \<Longrightarrow> covered log i S"
  unfolding covered_def by blast

lemma covered_snoc: "covered log i R \<Longrightarrow> covered (log @ [cs]) i R"
  unfolding covered_def by (blast intro: reflects_snoc)

lemma subs_okD:
  "subs_ok c \<Longrightarrow> q \<in># wc_calls c \<Longrightarrow> stream q = Some (pc, st) \<Longrightarrow> ms_subs (wc_master c) pc = Some st"
  by (auto simp: subs_ok_def)

lemma push_okD:
  "push_ok c \<Longrightarrow> BcPushing i r subs \<in># wc_calls c \<Longrightarrow> q \<in># wc_calls c \<Longrightarrow> live q \<Longrightarrow>
   stream q = Some (pc, st) \<Longrightarrow> st \<notin> wc_dropped c \<Longrightarrow> (pc, st) \<in> set subs \<or> r \<in> holds c q st"
  unfolding push_ok_def by blast

lemma push_okI:
  assumes "count_if pushing (wc_calls c) = (if wc_sub_mu c then 1 else 0)"
    and "\<And>i r subs q pc st. BcPushing i r subs \<in># wc_calls c \<Longrightarrow> q \<in># wc_calls c \<Longrightarrow> live q \<Longrightarrow>
      stream q = Some (pc, st) \<Longrightarrow> st \<notin> wc_dropped c \<Longrightarrow> (pc, st) \<in> set subs \<or> r \<in> holds c q st"
  shows "push_ok c"
  using assms unfolding push_ok_def by blast

lemma cover_okD:
  "cover_ok c \<Longrightarrow> q \<in># wc_calls c \<Longrightarrow> started q \<Longrightarrow> stream q = Some (pc, st) \<Longrightarrow>
   st \<notin> wc_dropped c \<Longrightarrow> i \<in> wc_pushed c \<Longrightarrow> covered (wc_log c) i (holds c q st)"
  unfolding cover_ok_def by blast

text \<open>Two calls never share a stream.\<close>

lemma other_stream:
  assumes "subs_ok c" "wc_calls c = add_mset p M" "stream p = Some (pc, st)"
    "q \<in># M" "stream q = Some (pc', st')"
  shows "pc' \<noteq> pc" and "st' \<noteq> st"
proof -
  have w: "watches pc p" using assms(3) by (simp add: watches_stream)
  have "count_if (watches pc) (wc_calls c) \<le> 1" using assms(1) by (simp add: subs_ok_def)
  with assms(2) w have "count_if (watches pc) M = 0" by simp
  with assms(4,5) show *: "pc' \<noteq> pc" by (auto simp: count_if_zero watches_stream)
  have "ms_subs (wc_master c) pc = Some st" "ms_subs (wc_master c) pc' = Some st'"
    using assms by (auto simp: subs_ok_def)
  with * assms(1) show "st' \<noteq> st" by (auto simp: subs_ok_def subs_inj_def)
qed

text \<open>A step of a watch call on its own stream.\<close>

lemma watch_inv_stream:
  assumes inv: "watch_inv c" and j: "jar_inv c'"
    and calls: "wc_calls c = add_mset p M" "wc_calls c' = add_mset q M"
      "stream p = Some (pc, st)" "stream q = Some (pc, st)"
    and same: "wc_log c' = wc_log c" "wc_pushed c' = wc_pushed c" "wc_dropped c' = wc_dropped c"
      "wc_sub_mu c' = wc_sub_mu c" "ms_subs (wc_master c') = ms_subs (wc_master c)"
      "ms_next (wc_master c') = ms_next (wc_master c)"
    and others: "\<And>st'. st' \<noteq> st \<Longrightarrow> ms_chan (wc_master c') st' = ms_chan (wc_master c) st'"
      "\<And>st'. st' \<noteq> st \<Longrightarrow> ms_sent (wc_master c') st' = ms_sent (wc_master c) st'"
    and keep: "live q \<Longrightarrow> live p \<and> holds c p st \<subseteq> holds c' q st"
    and start: "\<And>i. started q \<Longrightarrow> i \<in> wc_pushed c \<Longrightarrow> st \<notin> wc_dropped c \<Longrightarrow>
      started p \<or> covered (wc_log c) i (holds c' q st)"
  shows "watch_inv c'"
proof -
  from inv have s: "subs_ok c" and pu: "push_ok c" and co: "cover_ok c" by (simp_all add: watch_inv_def)
  have h: "holds c' q' st' = holds c q' st'" "st' \<noteq> st" "pc' \<noteq> pc"
    if "q' \<in># M" "stream q' = Some (pc', st')" for q' pc' st'
    using other_stream[OF s calls(1,3) that] others by (auto simp: holds_def)
  have "subs_ok c'"
    using s calls unfolding subs_ok_def same subs_inj_def by (auto simp: watches_stream)
  moreover have "push_ok c'"
  proof -
    have "count_if pushing (wc_calls c') = count_if pushing (wc_calls c)"
      using calls stream_not_pushing by auto
    moreover have "(pc', st') \<in> set subs \<or> r \<in> holds c' q' st'"
      if a: "BcPushing i r subs \<in># wc_calls c'" "q' \<in># wc_calls c'" "live q'"
        "stream q' = Some (pc', st')" "st' \<notin> wc_dropped c'" for i r subs q' pc' st'
    proof -
      have b: "BcPushing i r subs \<in># wc_calls c" using a(1) calls by auto
      show ?thesis
      proof (cases "q' \<in># M")
        case True
        then have "q' \<in># wc_calls c" using calls by simp
        from push_okD[OF pu b this a(3,4)] a(5) h(1)[OF True a(4)] same show ?thesis by simp
      next
        case False
        then have "q' = q" using a(2) calls by auto
        with a calls(4) have q: "pc' = pc" "st' = st" "live p" using keep by auto
        have "p \<in># wc_calls c" using calls by simp
        from push_okD[OF pu b this q(3) calls(3)] a(3,5) keep q \<open>q' = q\<close> same show ?thesis by auto
      qed
    qed
    ultimately show ?thesis
      using pu by (intro push_okI) (simp_all add: push_ok_def same)
  qed
  moreover have "cover_ok c'"
  proof -
    have "covered (wc_log c) i (holds c' q' st')"
      if a: "q' \<in># wc_calls c'" "started q'" "stream q' = Some (pc', st')" "st' \<notin> wc_dropped c"
        "i \<in> wc_pushed c" for q' pc' st' i
    proof (cases "q' \<in># M")
      case True
      then have "q' \<in># wc_calls c" using calls by simp
      from cover_okD[OF co this a(2-5)] h(1)[OF True a(3)] show ?thesis by simp
    next
      case False
      then have q: "q' = q" "st' = st" using a calls by auto
      show ?thesis
      proof (cases "started p")
        case True
        with co a q calls have "covered (wc_log c) i (holds c p st)" by (auto simp: cover_ok_def)
        with keep a(2) q show ?thesis using started_live covered_mono by blast
      qed (use start a q in auto)
    qed
    then show ?thesis using co unfolding cover_ok_def same by blast
  qed
  ultimately show ?thesis using j by (simp add: watch_inv_def)
qed

text \<open>A step of a call that has no stream and does not push.\<close>

lemma watch_inv_plain:
  assumes inv: "watch_inv c" and j: "jar_inv c'"
    and calls: "wc_calls c = P + M" "wc_calls c' = Q + M"
      "\<And>q. q \<in># P + Q \<Longrightarrow> stream q = None \<and> \<not> pushing q"
    and log: "wc_log c' = wc_log c \<or> (\<exists>cs. wc_log c' = wc_log c @ [cs])"
    and same: "wc_pushed c' = wc_pushed c" "wc_dropped c' = wc_dropped c"
      "wc_sub_mu c' = wc_sub_mu c" "ms_subs (wc_master c') = ms_subs (wc_master c)"
      "ms_next (wc_master c') = ms_next (wc_master c)"
      "ms_chan (wc_master c') = ms_chan (wc_master c)"
      "ms_sent (wc_master c') = ms_sent (wc_master c)"
  shows "watch_inv c'"
proof -
  have zero: "count_if (watches pc) R = 0" "count_if pushing R = 0" if "R = P \<or> R = Q" for R pc
    using calls(3) that by (auto simp: count_if_zero watches_stream)
  have h: "holds c' q st = holds c q st" for q st by (simp add: holds_def same)
  have mem: "q \<in># wc_calls c" if "q \<in># wc_calls c'" "live q \<or> pushing q \<or> stream q \<noteq> None" for q
    using that calls stream_None_not_live by auto
  have "subs_ok c'"
    using inv calls zero mem unfolding watch_inv_def subs_ok_def same subs_inj_def
    by (fastforce simp del: union_iff)
  moreover have "push_ok c'"
  proof (rule push_okI)
    show "count_if pushing (wc_calls c') = (if wc_sub_mu c' then 1 else 0)"
      using inv calls zero by (simp add: watch_inv_def push_ok_def same)
    fix i r subs q pc st
    assume a: "BcPushing i r subs \<in># wc_calls c'" "q \<in># wc_calls c'" "live q"
      "stream q = Some (pc, st)" "st \<notin> wc_dropped c'"
    then have "BcPushing i r subs \<in># wc_calls c" "q \<in># wc_calls c" using mem by auto
    with a inv show "(pc, st) \<in> set subs \<or> r \<in> holds c' q st"
      using push_okD by (auto simp: watch_inv_def h same)
  qed
  moreover have "cover_ok c'"
  proof -
    have "covered (wc_log c') i (holds c q st)" if "covered (wc_log c) i (holds c q st)" for i q st
      using that log covered_snoc by auto
    moreover have "length (wc_log c) \<le> length (wc_log c')" using log by auto
    ultimately show ?thesis
      using inv mem started_live unfolding watch_inv_def cover_ok_def same h by (meson less_le_trans)
  qed
  ultimately show ?thesis using j by (simp add: watch_inv_def)
qed

lemma no_pushing: "push_ok c \<Longrightarrow> \<not> wc_sub_mu c \<Longrightarrow> q \<in># wc_calls c \<Longrightarrow> \<not> pushing q"
  by (auto simp: push_ok_def count_if_zero)

lemma one_pushing:
  assumes "push_ok c" "wc_calls c = add_mset p M" "pushing p"
  shows "wc_sub_mu c" and "count_if pushing M = 0"
  using assms by (auto simp: push_ok_def split: if_splits)

lemma watch_inv_lock:
  assumes inv: "watch_inv c" and c: "wc_calls c = add_mset (BcReady i r) M" "\<not> wc_sub_mu c"
    and e: "enumerates (ms_subs (wc_master c)) subs"
    and c': "c' = c\<lparr>wc_calls := add_mset (BcPushing i r subs) M, wc_sub_mu := True\<rparr>" "jar_inv c'"
  shows "watch_inv c'"
proof -
  from inv have s: "subs_ok c" and pu: "push_ok c" and co: "cover_ok c" by (simp_all add: watch_inv_def)
  have s': "subs_ok c'" using s c c'(1) by (auto simp: subs_ok_def)
  moreover have "push_ok c'"
  proof (rule push_okI)
    have "count_if pushing M = 0" using pu c by (auto simp: push_ok_def)
    then show "count_if pushing (wc_calls c') = (if wc_sub_mu c' then 1 else 0)"
      using c'(1) by simp
    fix i' r' subs' q pc st
    assume a: "BcPushing i' r' subs' \<in># wc_calls c'" "q \<in># wc_calls c'" "stream q = Some (pc, st)"
    with no_pushing[OF pu c(2)] c(1) c'(1) have "subs' = subs" by fastforce
    moreover have "ms_subs (wc_master c) pc = Some st"
      using subs_okD[OF s' a(2,3)] c'(1) by simp
    ultimately show "(pc, st) \<in> set subs' \<or> r' \<in> holds c' q st"
      using enumerates_set[OF e] by simp
  qed
  moreover have "cover_ok c'" using co c c'(1) by (auto simp: cover_ok_def holds_def)
  ultimately show ?thesis using c'(2) by (simp add: watch_inv_def)
qed

lemma watch_inv_push:
  assumes inv: "watch_inv c" and c: "wc_calls c = add_mset (BcPushing i r ((pc, st) # subs)) M"
    and c': "c' = c\<lparr>wc_calls := add_mset (BcPushing i r subs) M,
       wc_master := fan_out r [(pc, st)] (wc_master c),
       wc_dropped := (if length (ms_chan (wc_master c) st) < watch_buffer then wc_dropped c
                      else insert st (wc_dropped c))\<rparr>" "jar_inv c'"
  shows "watch_inv c'"
proof -
  from inv have s: "subs_ok c" and pu: "push_ok c" and co: "cover_ok c" by (simp_all add: watch_inv_def)
  have one: "wc_sub_mu c" "count_if pushing M = 0" using one_pushing[OF pu c] by simp_all
  have h: "holds c q st' \<subseteq> holds c' q st'" for q st'
    using try_send_keeps c'(1) by (fastforce simp: holds_def)
  have mem: "q \<in># wc_calls c" if "q \<in># wc_calls c'" "stream q = Some x" for q x
    using that c c'(1) by auto
  have "subs_ok c'" using s c c'(1) unfolding subs_ok_def subs_inj_def by auto
  moreover have "push_ok c'"
  proof (rule push_okI)
    show "count_if pushing (wc_calls c') = (if wc_sub_mu c' then 1 else 0)"
      using one c'(1) by simp
    fix i' r' subs' q pc' st'
    assume a: "BcPushing i' r' subs' \<in># wc_calls c'" "q \<in># wc_calls c'" "live q"
      "stream q = Some (pc', st')" "st' \<notin> wc_dropped c'"
    have eq: "subs' = subs" "r' = r" using a(1) one(2) c'(1) by (auto simp: count_if_zero)
    have "st' \<notin> wc_dropped c" using a(5) c'(1) by (auto split: if_splits)
    then consider "(pc', st') = (pc, st)" | "(pc', st') \<in> set subs" | "r \<in> holds c q st'"
      using push_okD[OF pu _ mem[OF a(2,4)] a(3,4)] c by fastforce
    then show "(pc', st') \<in> set subs' \<or> r' \<in> holds c' q st'"
    proof cases
      case 1
      with a(5) c'(1) have "r \<in> set (ms_chan (wc_master c') st')"
        by (auto simp: try_send_def split: if_splits)
      then show ?thesis by (simp add: holds_def eq)
    qed (use h eq in auto)
  qed
  moreover have "cover_ok c'"
  proof -
    have "covered (wc_log c) k (holds c' q st')"
      if "q \<in># wc_calls c'" "started q" "stream q = Some (pc', st')" "st' \<notin> wc_dropped c'"
        "k \<in> wc_pushed c" for q pc' st' k
    proof -
      have "st' \<notin> wc_dropped c" using that(4) c'(1) by (auto split: if_splits)
      from cover_okD[OF co mem[OF that(1,3)] that(2,3) this that(5)] h
      show ?thesis using covered_mono by blast
    qed
    with co c'(1) show ?thesis unfolding cover_ok_def by simp
  qed
  ultimately show ?thesis using c'(2) by (simp add: watch_inv_def)
qed

lemma watch_inv_done:
  assumes inv: "watch_inv c" and c: "wc_calls c = add_mset (BcPushing i r []) M"
    and c': "c' = c\<lparr>wc_calls := M, wc_sub_mu := False, wc_pushed := insert i (wc_pushed c)\<rparr>"
      "jar_inv c'"
  shows "watch_inv c'"
proof -
  from inv have s: "subs_ok c" and pu: "push_ok c" and co: "cover_ok c" and j: "jar_inv c"
    by (simp_all add: watch_inv_def)
  have one: "count_if pushing M = 0" using one_pushing[OF pu c] by simp
  have r: "i < length (wc_log c)" "\<exists>k > i. reflects (wc_log c) k r"
    using j c by (auto simp: jar_inv_def)
  have "subs_ok c'" using s c c'(1) by (auto simp: subs_ok_def)
  moreover have "push_ok c'"
    using one c'(1) by (intro push_okI) (auto simp: count_if_zero)
  moreover have "cover_ok c'"
  proof -
    have "covered (wc_log c) i' (holds c q st)"
      if a: "q \<in># M" "started q" "stream q = Some (pc, st)" "st \<notin> wc_dropped c"
        "i' = i \<or> i' \<in> wc_pushed c" for q pc st i'
    proof -
      have q: "q \<in># wc_calls c" "BcPushing i r [] \<in># wc_calls c" using a c by auto
      have "r \<in> holds c q st"
        using push_okD[OF pu q(2,1) started_live[OF a(2)] a(3,4)] by simp
      with r a cover_okD[OF co q(1) a(2-4)] show ?thesis by (auto simp: covered_def)
    qed
    with co r c'(1) show ?thesis unfolding cover_ok_def holds_def by auto
  qed
  ultimately show ?thesis using c'(2) by (simp add: watch_inv_def)
qed

lemma watch_inv_open:
  assumes inv: "watch_inv c" and g: "\<not> wc_sub_mu c" "count_if (watches pc) (wc_calls c) = 0"
    and m: "watch_register pc (wc_master c) = (st, m')"
    and c': "c' = c\<lparr>wc_master := m', wc_calls := add_mset (WatchReg pc st) (wc_calls c)\<rparr>"
      "jar_inv c'"
  shows "watch_inv c'"
proof -
  from inv have s: "subs_ok c" and pu: "push_ok c" and co: "cover_ok c" by (simp_all add: watch_inv_def)
  have st: "st = ms_next (wc_master c)" and subs: "ms_subs m' = (ms_subs (wc_master c))(pc \<mapsto> st)"
    and nx: "ms_next m' = Suc st"
    using m by (auto simp: watch_register_def)
  have old: "pc' \<noteq> pc" "st' < st" if "q \<in># wc_calls c" "stream q = Some (pc', st')" for q pc' st'
    using g(2) that subs_okD[OF s that] s st
    by (auto simp: count_if_zero watches_stream subs_ok_def)
  have h: "holds c' q st' = holds c q st'" if "q \<in># wc_calls c" "stream q = Some (pc', st')" for q pc' st'
    using old[OF that] m c'(1) by (auto simp: watch_register_def holds_def)
  have np: "\<not> pushing q" if "q \<in># wc_calls c'" for q
    using no_pushing[OF pu g(1)] that c'(1) by auto
  have "ms_subs (wc_master c) pc' \<noteq> Some st" for pc'
    using s st by (auto simp: subs_ok_def)
  then have "subs_inj m'" using s by (auto simp: subs_ok_def subs_inj_def subs split: if_splits)
  moreover have "count_if (watches pc') (add_mset (WatchReg pc st) (wc_calls c)) \<le> 1" for pc'
    using s g(2) by (cases "pc' = pc") (auto simp: subs_ok_def)
  moreover have "ms_subs m' pc' = Some st'"
    if "q \<in># add_mset (WatchReg pc st) (wc_calls c)" "stream q = Some (pc', st')" for q pc' st'
  proof (cases "q \<in># wc_calls c")
    case True
    with subs_okD[OF s True that(2)] old(1)[OF True that(2)] show ?thesis by (simp add: subs)
  qed (use that in \<open>auto simp: subs\<close>)
  moreover have "st' < ms_next m'" if "ms_subs m' pc' = Some st'" for pc' st'
    using that s by (auto simp: subs nx st subs_ok_def less_Suc_eq split: if_splits)
  ultimately have "subs_ok c'" unfolding subs_ok_def c'(1) by simp
  moreover have "push_ok c'"
    using pu g c'(1) np by (intro push_okI) (fastforce simp: push_ok_def)+
  moreover have "cover_ok c'"
    using co h c'(1) unfolding cover_ok_def by auto
  ultimately show ?thesis using c'(2) by (simp add: watch_inv_def)
qed

lemma watch_inv_cleanup:
  assumes inv: "watch_inv c" and c: "wc_calls c = add_mset (WatchExit pc st) M" "\<not> wc_sub_mu c"
    and c': "c' = c\<lparr>wc_master := watch_unregister pc (wc_master c), wc_calls := M\<rparr>" "jar_inv c'"
  shows "watch_inv c'"
proof -
  from inv have s: "subs_ok c" and pu: "push_ok c" and co: "cover_ok c" by (simp_all add: watch_inv_def)
  have old: "pc' \<noteq> pc" if "q \<in># M" "stream q = Some (pc', st')" for q pc' st'
    using other_stream(1)[OF s c(1) _ that] by simp
  have "count_if (watches pc') M \<le> 1" for pc'
  proof -
    have "count_if (watches pc') M \<le> count_if (watches pc') (wc_calls c)" using c(1) by simp
    also have "\<dots> \<le> 1" using s by (simp add: subs_ok_def)
    finally show ?thesis .
  qed
  then have "subs_ok c'"
    using s c(1) c'(1) old unfolding subs_ok_def subs_inj_def
    by (auto simp: watch_unregister_def)
  moreover have "push_ok c'"
    using pu c c'(1) no_pushing[OF pu c(2)] by (intro push_okI) (fastforce simp: push_ok_def)+
  moreover have "cover_ok c'"
    using co c c'(1) unfolding cover_ok_def holds_def by (auto simp: watch_unregister_def)
  ultimately show ?thesis using c'(2) by (simp add: watch_inv_def)
qed

lemma watch_inv_step:
  assumes "watch_step True c c'" "watch_inv c"
  shows "watch_inv c'"
proof -
  have j: "jar_inv c'" using assms jar_inv_step by (auto simp: watch_inv_def)
  note plain = watch_inv_plain[OF assms(2) j]
  note own = watch_inv_stream[OF assms(2) j]
  note frame = stream_send_def watch_receive_def holds_def
  from assms j show ?thesis
  proof (cases rule: watch_step.cases)
    case (bc_store cs clocks m)
    show ?thesis
      by (rule plain[where P = "{#}" and M = "wc_calls c"
            and Q = "{#BcStored (length (wc_log c))#}"]) (simp_all add: bc_store)
  next
    case (bc_stamp i M m v j')
    show ?thesis
      by (rule plain[where P = "{#BcStored i#}" and M = M and Q = "{#BcStamped i v#}"])
        (auto simp: bc_stamp)
  next
    case (bc_snapshot i v M j' order cs u)
    show ?thesis
      by (rule plain[where P = "{#BcStamped i v#}" and M = M
            and Q = "{#BcReady i \<lparr>gr_cookies = cs, gr_version = v\<rparr>#}"]) (auto simp: bc_snapshot)
  next
    case (bc_lock i r M subs)
    show ?thesis by (rule watch_inv_lock[OF assms(2) bc_lock(2-4,1) j])
  next
    case (bc_push i r pc st subs M m)
    show ?thesis by (rule watch_inv_push[OF assms(2) bc_push(2) bc_push(1)[unfolded bc_push(3)] j])
  next
    case (bc_done i r M)
    show ?thesis by (rule watch_inv_done[OF assms(2) bc_done(2,1) j])
  next
    case (watch_open pc st m')
    show ?thesis
      by (rule watch_inv_open[OF assms(2) watch_open(3) watch_open(5)[rule_format, OF TrueI]
            watch_open(4,1) j])
  next
    case (watch_snapshot pc st M j' order)
    obtain cs u where s: "jar_snapshot order j' = (cs, u)" by (cases "jar_snapshot order j'")
    have "covered (wc_log c) i {snapshot_response order j'}" if "i \<in> wc_pushed c" for i
      using watch_snapshot(2-) s assms(2) snapshot_reflects[OF _ _ s, of "wc_log c" u] that
      by (auto simp: covered_def snapshot_response_def watch_inv_def jar_inv_def cover_ok_def)
    then have cov: "covered (wc_log c) i (holds c' (WatchFirst pc st (snapshot_response order j')) st)"
      if "i \<in> wc_pushed c" for i
      using that covered_mono by (fastforce simp: holds_def)
    show ?thesis
      by (rule own[where p = "WatchReg pc st" and M = M and pc = pc and st = st
            and q = "WatchFirst pc st (snapshot_response order j')"])
        (use cov in \<open>auto simp: watch_snapshot holds_def\<close>)
  next
    case (watch_first pc st r M)
    show ?thesis
      by (rule own[where p = "WatchFirst pc st r" and M = M and q = "WatchLoop pc st"
            and pc = pc and st = st]) (auto simp: watch_first frame)
  next
    case (watch_first_fails pc st r M)
    show ?thesis
      by (rule own[where p = "WatchFirst pc st r" and M = M and q = "WatchExit pc st"
            and pc = pc and st = st]) (auto simp: watch_first_fails)
  next
    case (watch_update pc st M r rest)
    show ?thesis
      by (rule own[where p = "WatchLoop pc st" and M = M and q = "WatchForward pc st r"
            and pc = pc and st = st]) (auto simp: watch_update frame)
  next
    case (watch_forward pc st r M)
    show ?thesis
      by (rule own[where p = "WatchForward pc st r" and M = M and q = "WatchLoop pc st"
            and pc = pc and st = st]) (auto simp: watch_forward frame)
  next
    case (watch_forward_fails pc st r M)
    show ?thesis
      by (rule own[where p = "WatchForward pc st r" and M = M and q = "WatchExit pc st"
            and pc = pc and st = st]) (auto simp: watch_forward_fails)
  next
    case (watch_ctx_done pc st M)
    show ?thesis
      by (rule own[where p = "WatchLoop pc st" and M = M and q = "WatchExit pc st"
            and pc = pc and st = st]) (auto simp: watch_ctx_done)
  next
    case (watch_cleanup pc st M)
    show ?thesis by (rule watch_inv_cleanup[OF assms(2) watch_cleanup(2,3,1) j])
  next
    case (get_cookies order req r)
    show ?thesis
      by (rule plain[where P = "{#}" and M = "wc_calls c" and Q = "{#}"]) (simp_all add: get_cookies)
  next
    case (set_status req res m')
    then show ?thesis
      by (intro plain[where P = "{#}" and M = "wc_calls c" and Q = "{#}"])
        (auto simp: update_status_def session_put_def split: option.splits)
  qed
qed

lemma watch_inv_initial: "watch_initial c \<Longrightarrow> watch_inv c"
  using jar_inv_initial[of c]
  by (auto simp: watch_inv_def watch_initial_def watch_new_def subs_ok_def push_ok_def cover_ok_def
      subs_inj_def new_master_def)

interpretation watch_machine: invariant_machine watch_initial "watch_step True" watch_inv
  by unfold_locales (fact watch_inv_initial, fact watch_inv_step)

subsection \<open>Properties\<close>

text \<open>
  C10: Whatever the interleaving, every response a caller of \<open>GetGlobalCookies\<close> or a watcher gets
  is the whole jar as it was after some number of broadcasts, and the version it carries is one
  drawn only by broadcasts that it reflects: a client that sees version n has every cookie of the
  first n broadcasts that drew a version, or a later one of the same name.
\<close>

theorem responses_reflect_their_version:
  assumes "reach watch_initial (watch_step ex) c"
    and "r \<in> wc_answers c \<union> set (ms_sent (wc_master c) st) \<union> set (ms_chan (wc_master c) st)"
  shows "\<exists>k n. k \<le> length (wc_log c) \<and> n \<le> length (wc_stamped c) \<and> gr_version r = word_of_nat n
    \<and> (\<forall>i \<in> set (take n (wc_stamped c)). i < k)
    \<and> (\<forall>d. d \<in> set (gr_cookies r) \<longleftrightarrow> last_named (pc_name d) (concat (take k (wc_log c))) = Some d)"
proof -
  have "r \<in> all_responses c" using assms(2) by (auto simp: all_responses_def)
  with jar_machine.reach_inv[OF assms(1)] obtain k n where kn: "reflects (wc_log c) k r"
      "n \<le> length (wc_stamped c)" "gr_version r = word_of_nat n" "\<forall>i \<in> set (take n (wc_stamped c)). i < k"
    by (auto simp: jar_inv_def reflects_version_def)
  have "d \<in> set (gr_cookies r) \<longleftrightarrow> last_named (pc_name d) (concat (take k (wc_log c))) = Some d" for d
    using kn(1) last_named_name by (force simp: reflects_def jar_after_def ran_def)
  with kn show ?thesis unfolding reflects_def by blast
qed

lemma stream_holds_pushed:
  assumes "reach watch_initial (watch_step True) c"
    and "WatchLoop pc st \<in># wc_calls c" and "st \<notin> wc_dropped c" and "i \<in> wc_pushed c"
  shows "\<exists>r \<in> set (ms_sent (wc_master c) st @ ms_chan (wc_master c) st). \<exists>k > i. reflects (wc_log c) k r"
proof -
  have "cover_ok c" using watch_machine.reach_inv[OF assms(1)] by (simp add: watch_inv_def)
  from cover_okD[OF this assms(2) _ _ assms(3,4)]
  have "covered (wc_log c) i (holds c (WatchLoop pc st) st)" by simp
  then show ?thesis by (auto simp: covered_def holds_def)
qed

text \<open>
  No update is lost. While a worker opens a stream only after its previous one is gone, a
  stream that never overflowed its channel of 32 has, for every broadcast already pushed, a jar
  that reflects it: delivered to the client, or waiting in its channel.
\<close>

theorem watch_loses_no_update:
  assumes "reach watch_initial (watch_step True) c"
    and "WatchLoop pc st \<in># wc_calls c" and "st \<notin> wc_dropped c" and "i \<in> wc_pushed c"
  shows "\<exists>r \<in> set (ms_sent (wc_master c) st @ ms_chan (wc_master c) st).
    \<exists>k > i. k \<le> length (wc_log c)
      \<and> set (gr_cookies r) = ran (\<lambda>n. last_named n (concat (take k (wc_log c))))"
  using stream_holds_pushed[OF assms] by (auto simp: reflects_def jar_after_def[abs_def])

subsection \<open>Three interleavings\<close>

text \<open>
  Concrete runs, of workers ''pc-1'' (broadcasting) and ''pc-2'' (watching). \<open>watch_at\<close> writes a
  configuration with its fields in a row; the lemmas on it are instances of the rules.
\<close>

definition watch_at ::
  "(gostring \<rightharpoonup> cookie_entry) \<Rightarrow> 64 word \<Rightarrow> (gostring \<rightharpoonup> nat) \<Rightarrow> (nat \<Rightarrow> cookies_response list)
   \<Rightarrow> (nat \<Rightarrow> cookies_response list) \<Rightarrow> nat \<Rightarrow> bool \<Rightarrow> call multiset \<Rightarrow> cookies_response set
   \<Rightarrow> pb_cookie list list \<Rightarrow> nat list \<Rightarrow> nat set \<Rightarrow> watch_config" where
  "watch_at es v subs chan sent n mu calls ans log stamped pushed =
     \<lparr>wc_master = \<lparr>ms_jar = \<lparr>cj_entries = es, cj_version = v\<rparr>, ms_sessions = Map.empty,
        ms_subs = subs, ms_chan = chan, ms_sent = sent, ms_next = n\<rparr>,
      wc_sub_mu = mu, wc_calls = calls, wc_answers = ans, wc_log = log, wc_stamped = stamped,
      wc_pushed = pushed, wc_dropped = {}\<rparr>"

lemma at_initial:
  "reach watch_initial (watch_step ex)
     (watch_at Map.empty 0 Map.empty (\<lambda>_. []) (\<lambda>_. []) 0 False {#} {} [] [] {})"
  by (rule reach_initial)
    (simp add: watch_initial_def watch_new_def new_master_def new_cookie_jar_def watch_at_def)

lemma at_store:
  assumes "reach watch_initial (watch_step ex) (watch_at es v subs chan sent n mu P ans log sd pd)"
  shows "reach watch_initial (watch_step ex)
    (watch_at (es(pc_name d \<mapsto> \<lparr>ce_cookie = d, ce_stored_at = t\<rparr>)) v subs chan sent n mu
       (add_mset (BcStored (length log)) P) ans (log @ [[d]]) sd pd)"
  using reach_step[OF assms bc_store[of "[d]" "[t]", OF _ _ refl]]
  by (simp add: watch_at_def jar_put_def)

lemma at_stamp:
  assumes "reach watch_initial (watch_step ex)
    (watch_at es v subs chan sent n mu (add_mset (BcStored i) P) ans log sd pd)"
  shows "reach watch_initial (watch_step ex)
    (watch_at es (v + 1) subs chan sent n mu (add_mset (BcStamped i (v + 1)) P) ans log (sd @ [i]) pd)"
  using reach_step[OF assms bc_stamp[of _ i P, OF _ refl]] by (simp add: watch_at_def jar_bump_def)

lemma at_snapshot:
  assumes "reach watch_initial (watch_step ex)
    (watch_at es v subs chan sent n mu (add_mset (BcStamped i u) P) ans log sd pd)"
    and "enumerates es order"
  shows "reach watch_initial (watch_step ex) (watch_at es v subs chan sent n mu
    (add_mset (BcReady i \<lparr>gr_cookies = map (ce_cookie \<circ> snd) order, gr_version = u\<rparr>) P) ans log sd pd)"
  using reach_step[OF assms(1) bc_snapshot[of _ i u P _ order, OF _ refl]] assms(2)
  by (simp add: watch_at_def jar_snapshot_def split_def comp_def)

lemma at_push_none:
  assumes "reach watch_initial (watch_step ex)
    (watch_at es v Map.empty chan sent n False (add_mset (BcReady i r) P) ans log sd pd)"
  shows "reach watch_initial (watch_step ex)
    (watch_at es v Map.empty chan sent n False P ans log sd (insert i pd))"
proof -
  have "reach watch_initial (watch_step ex)
      (watch_at es v Map.empty chan sent n True (add_mset (BcPushing i r []) P) ans log sd pd)"
    using reach_step[OF assms bc_lock[of _ i r P "[]"]] by (simp add: watch_at_def)
  from reach_step[OF this bc_done[of _ i r P]] show ?thesis by (simp add: watch_at_def)
qed

lemma at_push_one:
  assumes "reach watch_initial (watch_step ex)
    (watch_at es v [pc \<mapsto> st] chan sent n False (add_mset (BcReady i r) P) ans log sd pd)"
    and "length (chan st) < watch_buffer"
  shows "reach watch_initial (watch_step ex)
    (watch_at es v [pc \<mapsto> st] (chan(st := chan st @ [r])) sent n False P ans log sd (insert i pd))"
proof -
  have "reach watch_initial (watch_step ex) (watch_at es v [pc \<mapsto> st] chan sent n True
      (add_mset (BcPushing i r [(pc, st)]) P) ans log sd pd)"
    using reach_step[OF assms(1) bc_lock[of _ i r P "[(pc, st)]"]]
    by (simp add: watch_at_def enumerates_def)
  from reach_step[OF this bc_push[of _ i r pc st "[]" P, OF _ refl]] assms(2)
  have "reach watch_initial (watch_step ex) (watch_at es v [pc \<mapsto> st] (chan(st := chan st @ [r]))
      sent n True (add_mset (BcPushing i r []) P) ans log sd pd)"
    by (simp add: watch_at_def try_send_def)
  from reach_step[OF this bc_done[of _ i r P]] show ?thesis by (simp add: watch_at_def)
qed

lemma at_watch:
  assumes "reach watch_initial (watch_step ex) (watch_at es v subs chan sent n False P ans log sd pd)"
    and "pc \<noteq> []" "ex \<longrightarrow> count_if (watches pc) P = 0" "enumerates es order"
    and "r = \<lparr>gr_cookies = map (ce_cookie \<circ> snd) order, gr_version = v\<rparr>"
  shows "reach watch_initial (watch_step ex) (watch_at es v (subs(pc \<mapsto> n)) (chan(n := []))
    (sent(n := [r])) (Suc n) False (add_mset (WatchLoop pc n) P) ans log sd pd)"
proof -
  have "reach watch_initial (watch_step ex) (watch_at es v (subs(pc \<mapsto> n)) (chan(n := []))
      (sent(n := [])) (Suc n) False (add_mset (WatchReg pc n) P) ans log sd pd)"
    using reach_step[OF assms(1) watch_open[of pc]] assms(2,3)
    by (simp add: watch_at_def watch_register_def)
  from reach_step[OF this watch_snapshot[of _ pc n P _ order, OF _ refl]] assms(4)
  have "reach watch_initial (watch_step ex) (watch_at es v (subs(pc \<mapsto> n)) (chan(n := []))
      (sent(n := [])) (Suc n) False (add_mset (WatchFirst pc n r) P) ans log sd pd)"
    by (simp add: watch_at_def snapshot_response_def jar_snapshot_def assms(5) split_def comp_def)
  from reach_step[OF this watch_first[of _ pc n r P]] show ?thesis
    by (simp add: watch_at_def stream_send_def)
qed

lemma at_update:
  assumes "reach watch_initial (watch_step ex) (watch_at es v subs chan sent n mu P ans log sd pd)"
    and "P = add_mset (WatchLoop pc st) Q" "chan st = r # rest"
  shows "reach watch_initial (watch_step ex)
    (watch_at es v subs (chan(st := rest)) (sent(st := sent st @ [r])) n mu P ans log sd pd)"
proof -
  have "reach watch_initial (watch_step ex)
      (watch_at es v subs (chan(st := rest)) sent n mu (add_mset (WatchForward pc st r) Q) ans log sd pd)"
    using reach_step[OF assms(1) watch_update[of _ pc st Q r rest]] assms(2,3)
    by (simp add: watch_at_def watch_receive_def)
  from reach_step[OF this watch_forward[of _ pc st r Q]] assms(2) show ?thesis
    by (simp add: watch_at_def stream_send_def)
qed

lemma at_leave:
  assumes "reach watch_initial (watch_step ex)
    (watch_at es v subs chan sent n mu (add_mset (WatchLoop pc st) P) ans log sd pd)"
  shows "reach watch_initial (watch_step ex)
    (watch_at es v subs chan sent n mu (add_mset (WatchExit pc st) P) ans log sd pd)"
  using reach_step[OF assms watch_ctx_done[of _ pc st P]] by (simp add: watch_at_def)

lemma at_cleanup:
  assumes "reach watch_initial (watch_step ex)
    (watch_at es v subs chan sent n False (add_mset (WatchExit pc st) P) ans log sd pd)"
  shows "reach watch_initial (watch_step ex)
    (watch_at es v (subs(pc := None)) chan sent n False P ans log sd pd)"
  using reach_step[OF assms watch_cleanup[of _ pc st P]]
  by (simp add: watch_at_def watch_unregister_def)

lemma at_get:
  assumes "reach watch_initial (watch_step ex) (watch_at es v subs chan sent n mu P ans log sd pd)"
    and "enumerates es order"
  shows "reach watch_initial (watch_step ex) (watch_at es v subs chan sent n mu P
    (insert \<lparr>gr_cookies = map (ce_cookie \<circ> snd) order, gr_version = v\<rparr> ans) log sd pd)"
  using reach_step[OF assms(1) get_cookies[of _ order]] assms(2)
  by (simp add: watch_at_def get_global_cookies_def snapshot_response_def jar_snapshot_def
      split_def comp_def)

text \<open>
  A worker that reconnects before the handler of its previous stream has returned loses its
  subscription: the old handler's deferred removal deletes the entry under the worker's name,
  which by then is the new stream's. The new stream stays open, no channel overflowed, the
  broadcast has been pushed, and its cookie has neither reached the client nor is it waiting.
\<close>

theorem reconnect_loses_updates:
  "\<exists>c d st. reach watch_initial (watch_step False) c \<and> WatchLoop ''pc-2'' st \<in># wc_calls c
     \<and> wc_dropped c = {} \<and> wc_log c = [[d]] \<and> wc_pushed c = {0}
     \<and> ms_subs (wc_master c) ''pc-2'' = None
     \<and> concat (map gr_cookies (ms_sent (wc_master c) st @ ms_chan (wc_master c) st)) = []"
proof -
  let ?I = "reach watch_initial (watch_step False)"
  let ?d = "sample_cookie ''a'' ''1'' 0" and ?r = "\<lparr>gr_cookies = [], gr_version = 0\<rparr>"
  let ?e = "\<lparr>ce_cookie = sample_cookie ''a'' ''1'' 0, ce_stored_at = At 5 0\<rparr>"
  let ?sent = "(\<lambda>_. [])(0 := [?r], 1 := [?r])"
  note at_watch[OF at_initial[of False], of "''pc-2''" "[]" ?r, simplified]
  note at_watch[OF at_leave[OF this], of "''pc-2''" "[]" ?r, simplified]
  then have "?I (watch_at Map.empty 0 [''pc-2'' \<mapsto> 1] (\<lambda>_. []) ?sent 2 False
      (add_mset (WatchExit ''pc-2'' 0) {#WatchLoop ''pc-2'' 1#}) {} [] [] {})"
    by (simp add: numeral_2_eq_2 add_mset_commute fun_upd_def cong: if_cong)
  note at_stamp[OF at_store[OF at_cleanup[OF this], of ?d "At 5 0"]]
  then have "?I (watch_at [''a'' \<mapsto> ?e] 1 Map.empty (\<lambda>_. []) ?sent 2 False
      (add_mset (BcStamped 0 1) {#WatchLoop ''pc-2'' 1#}) {} [[?d]] [0] {})"
    by (simp add: sample_cookie_def)
  note at_push_none[OF at_snapshot[OF this, of "[(''a'', ?e)]"]]
  then have "?I (watch_at [''a'' \<mapsto> ?e] 1 Map.empty (\<lambda>_. []) ?sent 2 False
      {#WatchLoop ''pc-2'' 1#} {} [[?d]] [0] {0})"
    by (simp add: enumerates_def)
  then show ?thesis
    by (intro exI[of _ ?d] exI[of _ 1] exI conjI) (assumption | simp add: watch_at_def)+
qed

text \<open>
  Pushes can arrive out of order. Two broadcasts of one cookie name overlap; the second to
  write the jar is pushed first, and the last jar the watcher is given holds the overwritten
  value, under the smaller version, while the jar of the master holds the new one.
\<close>

theorem last_push_may_be_stale:
  "\<exists>c r1 r2 old new. reach watch_initial (watch_step True) c \<and> wc_calls c = {#WatchLoop ''pc-2'' 0#}
     \<and> wc_pushed c = {0, 1} \<and> wc_dropped c = {} \<and> ms_chan (wc_master c) 0 = [r2, r1]
     \<and> gr_cookies r1 = [old] \<and> gr_version r1 = 1 \<and> gr_cookies r2 = [new] \<and> gr_version r2 = 2
     \<and> jar_cookie (ms_jar (wc_master c)) = [''a'' \<mapsto> new] \<and> pc_value old \<noteq> pc_value new"
proof -
  let ?I = "reach watch_initial (watch_step True)"
  let ?d = "\<lambda>v. sample_cookie ''a'' v 0" and ?r = "\<lparr>gr_cookies = [], gr_version = 0\<rparr>"
  let ?e = "\<lambda>v. \<lparr>ce_cookie = sample_cookie ''a'' v 0, ce_stored_at = At 5 0\<rparr>"
  let ?r1 = "\<lparr>gr_cookies = [sample_cookie ''a'' ''1'' 0], gr_version = 1\<rparr>"
  let ?r2 = "\<lparr>gr_cookies = [sample_cookie ''a'' ''2'' 0], gr_version = 2\<rparr>"
  let ?W = "{#WatchLoop ''pc-2'' 0#}"
  let ?sent = "(\<lambda>_. [])(0 := [?r])"
  note at_watch[OF at_initial[of True], of "''pc-2''" "[]" ?r, simplified]
  then have "?I (watch_at Map.empty 0 [''pc-2'' \<mapsto> 0] (\<lambda>_. []) ?sent 1 False ?W {} [] [] {})"
    by (simp add: fun_upd_def cong: if_cong)
  note at_stamp[OF at_store[OF this, of "?d ''1''" "At 5 0"]]
  then have "?I (watch_at [''a'' \<mapsto> ?e ''1''] 1 [''pc-2'' \<mapsto> 0] (\<lambda>_. []) ?sent 1 False
      (add_mset (BcStamped 0 1) ?W) {} [[?d ''1'']] [0] {})"
    by (simp add: sample_cookie_def)
  note at_snapshot[OF this, of "[(''a'', ?e ''1'')]"]
  then have "?I (watch_at [''a'' \<mapsto> ?e ''1''] 1 [''pc-2'' \<mapsto> 0] (\<lambda>_. []) ?sent 1 False
      (add_mset (BcReady 0 ?r1) ?W) {} [[?d ''1'']] [0] {})"
    by (simp add: enumerates_def)
  note at_stamp[OF at_store[OF this, of "?d ''2''" "At 5 0"]]
  then have "?I (watch_at [''a'' \<mapsto> ?e ''2''] 2 [''pc-2'' \<mapsto> 0] (\<lambda>_. []) ?sent 1 False
      (add_mset (BcStamped 1 2) (add_mset (BcReady 0 ?r1) ?W)) {} [[?d ''1''], [?d ''2'']] [0, 1] {})"
    by (simp add: sample_cookie_def)
  note at_push_one[OF at_snapshot[OF this, of "[(''a'', ?e ''2'')]"]]
  then have "?I (watch_at [''a'' \<mapsto> ?e ''2''] 2 [''pc-2'' \<mapsto> 0] ((\<lambda>_. [])(0 := [?r2])) ?sent 1 False
      (add_mset (BcReady 0 ?r1) ?W) {} [[?d ''1''], [?d ''2'']] [0, 1] {1})"
    by (simp add: enumerates_def watch_buffer_def)
  note at_push_one[OF this]
  then have "?I (watch_at [''a'' \<mapsto> ?e ''2''] 2 [''pc-2'' \<mapsto> 0] ((\<lambda>_. [])(0 := [?r2, ?r1])) ?sent 1
      False ?W {} [[?d ''1''], [?d ''2'']] [0, 1] {0, 1})"
    by (simp add: watch_buffer_def)
  then show ?thesis
    by (intro exI[of _ ?r1] exI[of _ ?r2] exI[of _ "?d ''1''"] exI[of _ "?d ''2''"] exI conjI)
      (assumption | simp add: watch_at_def jar_cookie_def sample_cookie_def fun_eq_iff)+
qed

text \<open>
  The version and the cookies of a \<open>Snapshot\<close> are not read atomically: the version is drawn
  after the lock of the entries is released, so two calls of \<open>GetGlobalCookies\<close> can answer with
  the same version and different cookies.
\<close>

theorem same_version_different_cookies:
  "\<exists>c r1 r2. reach watch_initial (watch_step True) c \<and> wc_answers c = {r1, r2}
     \<and> gr_version r1 = gr_version r2 \<and> gr_cookies r1 \<noteq> gr_cookies r2"
proof -
  let ?I = "reach watch_initial (watch_step True)"
  let ?d = "sample_cookie ''a'' ''1'' 0" and ?r = "\<lparr>gr_cookies = [], gr_version = 0\<rparr>"
  let ?e = "\<lparr>ce_cookie = sample_cookie ''a'' ''1'' 0, ce_stored_at = At 5 0\<rparr>"
  let ?r1 = "\<lparr>gr_cookies = [sample_cookie ''a'' ''1'' 0], gr_version = 0\<rparr>"
  note at_store[OF at_get[OF at_initial[of True], of "[]"], of ?d "At 5 0"]
  then have "?I (watch_at [''a'' \<mapsto> ?e] 0 Map.empty (\<lambda>_. []) (\<lambda>_. []) 0 False {#BcStored 0#}
      {?r} [[?d]] [] {})"
    by (simp add: sample_cookie_def)
  note at_get[OF this, of "[(''a'', ?e)]"]
  then have "?I (watch_at [''a'' \<mapsto> ?e] 0 Map.empty (\<lambda>_. []) (\<lambda>_. []) 0 False {#BcStored 0#}
      {?r1, ?r} [[?d]] [] {})"
    by (simp add: enumerates_def)
  then show ?thesis
    by (intro exI[of _ ?r1] exI[of _ ?r] exI conjI) (assumption | simp add: watch_at_def)+
qed

text \<open>Runs for the witnesses: one watcher, one broadcast pushed to it; then delivered as well.\<close>

lemma pushed_run_of:
  fixes d assumes "pc_name d = ''a''"
  defines "e \<equiv> \<lparr>ce_cookie = d, ce_stored_at = At 5 0\<rparr>"
  shows "reach watch_initial (watch_step True) (watch_at [''a'' \<mapsto> e] 1 [''pc-2'' \<mapsto> 0]
    ((\<lambda>_. [])(0 := [\<lparr>gr_cookies = [d], gr_version = 1\<rparr>]))
    ((\<lambda>_. [])(0 := [\<lparr>gr_cookies = [], gr_version = 0\<rparr>])) 1 False
    {#WatchLoop ''pc-2'' 0#} {} [[d]] [0] {0})"
proof -
  let ?I = "reach watch_initial (watch_step True)" and ?r = "\<lparr>gr_cookies = [], gr_version = 0\<rparr>"
  let ?sent = "(\<lambda>_. [])(0 := [?r])"
  note at_watch[OF at_initial[of True], of "''pc-2''" "[]" ?r, simplified]
  then have "?I (watch_at Map.empty 0 [''pc-2'' \<mapsto> 0] (\<lambda>_. []) ?sent 1 False
      {#WatchLoop ''pc-2'' 0#} {} [] [] {})"
    by (simp add: fun_upd_def cong: if_cong)
  note at_stamp[OF at_store[OF this, of d "At 5 0"]]
  then have "?I (watch_at [''a'' \<mapsto> e] 1 [''pc-2'' \<mapsto> 0] (\<lambda>_. []) ?sent 1 False
      (add_mset (BcStamped 0 1) {#WatchLoop ''pc-2'' 0#}) {} [[d]] [0] {})"
    by (simp add: assms e_def)
  note at_push_one[OF at_snapshot[OF this, of "[(''a'', e)]"]]
  then show ?thesis
    by (simp add: enumerates_def watch_buffer_def e_def)
qed

lemmas pushed_run = pushed_run_of[of "sample_cookie ''a'' ''1'' 0", unfolded sample_cookie_def pb_cookie.select_convs,
  OF refl, folded sample_cookie_def]

lemma delivered_run:
  assumes "pc_name d = ''a''"
  shows "reach watch_initial (watch_step True) (watch_at [''a'' \<mapsto> \<lparr>ce_cookie = d, ce_stored_at = At 5 0\<rparr>] 1
    [''pc-2'' \<mapsto> 0] (\<lambda>_. [])
    ((\<lambda>_. [])(0 := [\<lparr>gr_cookies = [], gr_version = 0\<rparr>, \<lparr>gr_cookies = [d], gr_version = 1\<rparr>])) 1 False
    {#WatchLoop ''pc-2'' 0#} {} [[d]] [0] {0})"
proof -
  let ?r = "\<lparr>gr_cookies = [d], gr_version = 1\<rparr>"
  note at_update[OF pushed_run_of[OF assms], of "''pc-2''" 0 "{#}" ?r "[]"]
  then show ?thesis by (simp add: fun_upd_def cong: if_cong)
qed

theorem responses_reflect_their_version_witness:
  "\<exists>c r. reach watch_initial (watch_step True) c \<and> r \<in> set (ms_chan (wc_master c) 0)
     \<and> gr_version r = 1 \<and> wc_log c = [[sample_cookie ''a'' ''1'' 0]]
     \<and> (\<exists>k n. k \<le> length (wc_log c) \<and> n \<le> length (wc_stamped c) \<and> gr_version r = word_of_nat n
        \<and> (\<forall>i \<in> set (take n (wc_stamped c)). i < k))"
proof -
  note responses_reflect_their_version[OF pushed_run,
      of "\<lparr>gr_cookies = [sample_cookie ''a'' ''1'' 0], gr_version = 1\<rparr>" 0]
  with pushed_run show ?thesis
    by (intro exI[of _ "\<lparr>gr_cookies = [sample_cookie ''a'' ''1'' 0], gr_version = 1\<rparr>"] exI conjI)
      (assumption | force simp: watch_at_def)+
qed

theorem watch_loses_no_update_witness:
  "\<exists>c. reach watch_initial (watch_step True) c \<and> wc_pushed c = {0}
     \<and> (\<exists>r \<in> set (ms_sent (wc_master c) 0 @ ms_chan (wc_master c) 0).
          \<exists>k > 0. k \<le> length (wc_log c)
            \<and> set (gr_cookies r) = ran (\<lambda>n. last_named n (concat (take k (wc_log c)))))"
  using pushed_run watch_loses_no_update[OF pushed_run, of "''pc-2''" 0 0]
  by (intro exI conjI) (assumption | simp add: watch_at_def)+

end
