(* ===== verification/Go_Strings.thy ===== *)
theory Go_Strings
  imports Prelude
begin

section \<open>The Go library's text functions\<close>

text \<open>
  What the program uses of \<open>strings\<close>, \<open>bufio\<close> and \<open>net/http\<close> on text. A Go string is a sequence of
  bytes, a list of the 256 characters of \<open>char\<close>; where a function works on Unicode, the encodings
  of the characters it looks for are spelled out in UTF-8.
\<close>

subsection \<open>strings.TrimSpace\<close>

text \<open>The UTF-8 encodings of the characters with the property White\_Space.\<close>

definition space_encodings :: "gostring list" where
  "space_encodings =
     [[CHR 0x09], [CHR 0x0A], [CHR 0x0B], [CHR 0x0C], [CHR 0x0D], [CHR 0x20],
      [CHR 0xC2, CHR 0x85], [CHR 0xC2, CHR 0xA0], [CHR 0xE1, CHR 0x9A, CHR 0x80],
      [CHR 0xE2, CHR 0x80, CHR 0x80], [CHR 0xE2, CHR 0x80, CHR 0x81],
      [CHR 0xE2, CHR 0x80, CHR 0x82], [CHR 0xE2, CHR 0x80, CHR 0x83],
      [CHR 0xE2, CHR 0x80, CHR 0x84], [CHR 0xE2, CHR 0x80, CHR 0x85],
      [CHR 0xE2, CHR 0x80, CHR 0x86], [CHR 0xE2, CHR 0x80, CHR 0x87],
      [CHR 0xE2, CHR 0x80, CHR 0x88], [CHR 0xE2, CHR 0x80, CHR 0x89],
      [CHR 0xE2, CHR 0x80, CHR 0x8A], [CHR 0xE2, CHR 0x80, CHR 0xA8],
      [CHR 0xE2, CHR 0x80, CHR 0xA9], [CHR 0xE2, CHR 0x80, CHR 0xAF],
      [CHR 0xE2, CHR 0x81, CHR 0x9F], [CHR 0xE3, CHR 0x80, CHR 0x80]]"

definition is_prefix :: "'a list \<Rightarrow> 'a list \<Rightarrow> bool" where
  "is_prefix p s \<longleftrightarrow> take (length p) s = p"

fun strip_one :: "'a list list \<Rightarrow> 'a list \<Rightarrow> 'a list option" where
  "strip_one [] s = None"
| "strip_one (e # es) s = (if is_prefix e s then Some (drop (length e) s) else strip_one es s)"

lemma strip_one_shorter:
  "strip_one es s = Some t \<Longrightarrow> \<forall>e \<in> set es. e \<noteq> [] \<Longrightarrow> length t < length s"
proof (induction es)
  case (Cons e es)
  then show ?case
    by (cases s; cases e) (auto simp: is_prefix_def split: if_splits)
qed simp

text \<open>The fuel is the length of the text, which each round shortens.\<close>

fun strip_loop :: "nat \<Rightarrow> 'a list list \<Rightarrow> 'a list \<Rightarrow> 'a list" where
  "strip_loop 0 es s = s"
| "strip_loop (Suc n) es s = (case strip_one es s of None \<Rightarrow> s | Some t \<Rightarrow> strip_loop n es t)"

definition trim_left :: "gostring \<Rightarrow> gostring" where
  "trim_left s = strip_loop (length s) space_encodings s"

definition trim_right :: "gostring \<Rightarrow> gostring" where
  "trim_right s = rev (strip_loop (length s) (map rev space_encodings) (rev s))"

definition trim_space :: "gostring \<Rightarrow> gostring" where
  "trim_space s = trim_right (trim_left s)"

lemma strip_loop_done:
  assumes "\<forall>e \<in> set es. e \<noteq> []" "length s \<le> n"
  shows "strip_one es (strip_loop n es s) = None"
  using assms
proof (induction n es s rule: strip_loop.induct)
  case (1 es s)
  then have "s = []" by simp
  moreover have "strip_one es [] = None"
    using 1(1) by (induction es) (auto simp: is_prefix_def)
  ultimately show ?case by simp
next
  case (2 n es s)
  then show ?case using strip_one_shorter by (fastforce split: option.split)
qed

lemma space_encodings_nonempty: "e \<in> set space_encodings \<Longrightarrow> e \<noteq> []"
  by (auto simp: space_encodings_def)

text \<open>Nothing is left to trim at either end.\<close>

lemma trim_left_done: "strip_one space_encodings (trim_left s) = None"
  unfolding trim_left_def by (rule strip_loop_done) (auto dest: space_encodings_nonempty)

lemma trim_right_done: "strip_one (map rev space_encodings) (rev (trim_right s)) = None"
  unfolding trim_right_def rev_rev_ident
  by (rule strip_loop_done) (auto dest: space_encodings_nonempty)

lemma strip_one_suffix: "strip_one es s = Some t \<Longrightarrow> \<exists>p. s = p @ t"
  by (induction es) (auto simp: is_prefix_def split: if_splits, metis append_take_drop_id)

lemma strip_loop_suffix: "\<exists>p. s = p @ strip_loop n es s"
proof (induction n es s rule: strip_loop.induct)
  case (2 n es s)
  show ?case
  proof (cases "strip_one es s")
    case (Some t)
    then obtain p where "s = p @ t" using strip_one_suffix by blast
    with 2 Some show ?thesis by (metis append.assoc option.simps(5) strip_loop.simps(2))
  qed simp
qed simp

lemma trim_space_infix: "\<exists>p q. s = p @ trim_space s @ q"
proof -
  obtain p where p: "s = p @ trim_left s"
    unfolding trim_left_def using strip_loop_suffix by blast
  obtain q where "rev (trim_left s) = q @ rev (trim_space s)"
    unfolding trim_space_def trim_right_def rev_rev_ident using strip_loop_suffix by blast
  then have "trim_left s = trim_space s @ rev q" by (metis rev_append rev_rev_ident)
  with p show ?thesis by metis
qed

lemma strip_one_none_prefix: "strip_one es (p @ q) = None \<Longrightarrow> strip_one es p = None"
  by (induction es) (auto simp: is_prefix_def split: if_splits)

lemma trim_space_done:
  "strip_one space_encodings (trim_space s) = None"
  "strip_one (map rev space_encodings) (rev (trim_space s)) = None"
proof -
  obtain q where "trim_left s = trim_space s @ q"
  proof -
    obtain p where "rev (trim_left s) = p @ rev (trim_space s)"
      unfolding trim_space_def trim_right_def rev_rev_ident using strip_loop_suffix by blast
    then show thesis using that[of "rev p"] by (metis rev_append rev_rev_ident)
  qed
  then show "strip_one space_encodings (trim_space s) = None"
    using trim_left_done[of s] strip_one_none_prefix by metis
  show "strip_one (map rev space_encodings) (rev (trim_space s)) = None"
    unfolding trim_space_def by (rule trim_right_done)
qed

lemma strip_one_plain: "\<forall>e \<in> set es. e \<noteq> [] \<and> (s \<noteq> [] \<longrightarrow> hd e \<noteq> hd s) \<Longrightarrow> strip_one es s = None"
proof (induction es)
  case (Cons e es)
  then have "\<not> is_prefix e s" by (cases e; cases s) (auto simp: is_prefix_def)
  with Cons show ?case by simp
qed simp

lemma strip_loop_stop: "strip_one es s = None \<Longrightarrow> strip_loop n es s = s"
  by (cases n) simp_all

text \<open>Text that neither begins nor ends like white space is left as it is.\<close>

lemma trim_space_plain:
  assumes "s \<noteq> []" "\<forall>e \<in> set space_encodings. hd e \<noteq> hd s" "\<forall>e \<in> set space_encodings. last e \<noteq> last s"
  shows "trim_space s = s"
proof -
  have "strip_one space_encodings s = None"
    by (rule strip_one_plain) (use assms(2) space_encodings_nonempty in auto)
  moreover have "strip_one (map rev space_encodings) (rev s) = None"
    by (rule strip_one_plain) (use assms(1,3) space_encodings_nonempty in \<open>auto simp: hd_rev\<close>)
  ultimately show ?thesis by (simp add: trim_space_def trim_left_def trim_right_def strip_loop_stop)
qed

subsection \<open>bufio.Scanner over lines\<close>

text \<open>
  \<open>ScanLines\<close> with the default limit: a token is a line without its end-of-line marker, a carriage
  return before it dropped; a line that fills the buffer of 65536 bytes before its end is found
  stops the scan with an error.
\<close>

definition newline :: char where
  "newline = CHR 0x0A"

definition max_token :: nat where
  "max_token = 65536"

definition drop_cr :: "gostring \<Rightarrow> gostring" where
  "drop_cr l = (if l \<noteq> [] \<and> last l = CHR 0x0D then butlast l else l)"

function scan_lines :: "gostring \<Rightarrow> gostring list \<times> goerror option" where
  "scan_lines s =
     (if s = [] then ([], None)
      else
        (let l = takeWhile (\<lambda>c. c \<noteq> newline) s; rest = tl (dropWhile (\<lambda>c. c \<noteq> newline) s) in
         if max_token \<le> length l then ([], Some ''bufio.Scanner: token too long'')
         else (let (ls, e) = scan_lines rest in (drop_cr l # ls, e))))"
  by auto
termination
proof (relation "measure length")
  fix s x xa :: gostring
  assume "s \<noteq> []" "xa = tl (dropWhile (\<lambda>c. c \<noteq> newline) s)"
  then show "(xa, s) \<in> measure length"
    using length_dropWhile_le[of "\<lambda>c. c \<noteq> newline" s] by (cases s) auto
qed simp

declare scan_lines.simps [simp del]

text \<open>The lines of a text written one per line.\<close>

lemma scan_lines_line:
  assumes "newline \<notin> set l" "length l < max_token"
  shows "scan_lines (l @ newline # s) =
    (drop_cr l # fst (scan_lines s), snd (scan_lines s))"
proof -
  have "takeWhile (\<lambda>c. c \<noteq> newline) (l @ newline # s) = l"
    "dropWhile (\<lambda>c. c \<noteq> newline) (l @ newline # s) = newline # s"
    using assms(1) by (auto simp: takeWhile_append dropWhile_append)
  with assms(2) show ?thesis
    by (subst scan_lines.simps) (simp add: Let_def split_def)
qed

lemma scan_lines_all:
  assumes "\<forall>l \<in> set ls. newline \<notin> set l \<and> length l < max_token"
  shows "scan_lines (concat (map (\<lambda>l. l @ [newline]) ls)) = (map drop_cr ls, None)"
  using assms by (induction ls) (simp_all add: scan_lines.simps[of "[]"] scan_lines_line)

text \<open>The same with a last line that has no line end; an empty one is no line.\<close>

lemma scan_lines_rest:
  assumes "\<forall>l \<in> set ls. newline \<notin> set l \<and> length l < max_token" "newline \<notin> set r" "length r < max_token"
  shows "scan_lines (concat (map (\<lambda>l. l @ [newline]) ls) @ r) =
    (map drop_cr ls @ (if r = [] then [] else [drop_cr r]), None)"
  using assms(1)
proof (induction ls)
  case Nil
  have tw: "takeWhile (\<lambda>c. c \<noteq> newline) r = r" using assms(2) by (auto simp: takeWhile_eq_all_conv)
  have dw: "dropWhile (\<lambda>c. c \<noteq> newline) r = []" using assms(2) by auto
  have "scan_lines r = (if r = [] then ([], None) else ([drop_cr r], None))"
    by (subst scan_lines.simps) (use assms(3) in \<open>simp add: tw dw scan_lines.simps[of "[]"]\<close>)
  then show ?case by simp
qed (simp add: scan_lines_line)

subsection \<open>Canonical header keys\<close>

text \<open>
  \<open>http.CanonicalHeaderKey\<close>: a key of token characters only gets its first letter and every letter
  after a hyphen in upper case and the others in lower case; any other key is left as it is.
\<close>

definition is_upper :: "char \<Rightarrow> bool" where
  "is_upper c \<longleftrightarrow> 65 \<le> (of_char c :: nat) \<and> (of_char c :: nat) \<le> 90"

definition is_lower :: "char \<Rightarrow> bool" where
  "is_lower c \<longleftrightarrow> 97 \<le> (of_char c :: nat) \<and> (of_char c :: nat) \<le> 122"

definition byte :: "nat \<Rightarrow> char" where
  "byte n = char_of n"

definition to_lower :: "char \<Rightarrow> char" where
  "to_lower c = (if is_upper c then byte (of_char c + 32) else c)"

definition to_upper :: "char \<Rightarrow> char" where
  "to_upper c = (if is_lower c then byte (of_char c - 32) else c)"

definition token_char :: "char \<Rightarrow> bool" where
  "token_char c \<longleftrightarrow> is_upper c \<or> is_lower c \<or> (48 \<le> (of_char c :: nat) \<and> (of_char c :: nat) \<le> 57)
     \<or> c \<in> set ''!#$%&*+-.^_`|~'' \<or> c = CHR 0x27"

fun canonical_loop :: "bool \<Rightarrow> gostring \<Rightarrow> gostring" where
  "canonical_loop up [] = []"
| "canonical_loop up (c # cs) =
     (let d = (if up then to_upper c else to_lower c) in d # canonical_loop (d = CHR ''-'') cs)"

definition canonical_key :: "gostring \<Rightarrow> gostring" where
  "canonical_key s = (if list_all token_char s then canonical_loop True s else s)"

text \<open>The verb \<open>%d\<close>.\<close>

fun decimal_digits :: "nat \<Rightarrow> gostring" where
  "decimal_digits n = (if n < 10 then [byte (48 + n)] else decimal_digits (n div 10) @ [byte (48 + n mod 10)])"

declare decimal_digits.simps [simp del]

definition decimal :: "int \<Rightarrow> gostring" where
  "decimal i = (if i < 0 then CHR ''-'' # decimal_digits (nat (- i)) else decimal_digits (nat i))"

text \<open>A hexadecimal digit, in lower case.\<close>

definition hex_char :: "nat \<Rightarrow> char" where
  "hex_char d = byte (if d < 10 then 48 + d else 87 + d)"

text \<open>A number in hexadecimal, of a fixed width.\<close>

definition hex_text :: "nat \<Rightarrow> nat \<Rightarrow> gostring" where
  "hex_text width n = map (\<lambda>i. hex_char (n div 16 ^ i mod 16)) (rev [0..<width])"

lemma hex_text_two: "hex_text 2 n = [hex_char (n div 16 mod 16), hex_char (n mod 16)]"
  by (simp add: hex_text_def upt_rec)

lemma control_bytes:
  "byte 7 = CHR 0x07" "byte 8 = CHR 0x08" "byte 9 = CHR 0x09" "byte 10 = CHR 0x0A" "byte 11 = CHR 0x0B"
  "byte 12 = CHR 0x0C" "byte 13 = CHR 0x0D"
  by code_simp+

end
