(* ===== verification/Cluster_Worker.thy ===== *)
theory Cluster_Worker
  imports Cluster_Messages Go_Strings
begin

section \<open>cluster/worker_client.go: the workers' client of the master\<close>

text \<open>
  \<open>WorkerClient\<close>. The generated gRPC stub and the network behind it are not part of the program:
  each call takes the remote procedure as an argument, a function from the request to an error or
  a response. What the client itself does is modelled in full: building the requests, converting
  cookies both ways, and the loop over a \<open>WatchCookies\<close> stream.
\<close>

subsection \<open>Cookie conversions\<close>

definition http_to_pb :: "http_cookie \<Rightarrow> pb_cookie" where
  "http_to_pb c =
     (let ex = (if \<not> time_is_zero (hc_expires c) then time_unix (hc_expires c) else 0) in
      \<lparr>pc_name = hc_name c, pc_value = hc_value c, pc_domain = hc_domain c, pc_path = hc_path c,
        pc_expires_unix = ex, pc_secure = hc_secure c, pc_http_only = hc_http_only c\<rparr>)"

fun pb_cookies_to_http :: "int \<Rightarrow> pb_cookie list \<Rightarrow> http_cookie list" where
  "pb_cookies_to_http now [] = []"
| "pb_cookies_to_http now (c # cs) =
     (if pc_expires_unix c > 0 \<and> pc_expires_unix c < now then pb_cookies_to_http now cs
      else
        (let hc = \<lparr>hc_name = pc_name c, hc_value = pc_value c, hc_domain = pc_domain c,
                    hc_path = pc_path c, hc_expires = ZeroTime, hc_max_age = 0,
                    hc_secure = pc_secure c, hc_http_only = pc_http_only c\<rparr>;
             hc1 = (if pc_expires_unix c > 0 then hc\<lparr>hc_expires := At (pc_expires_unix c) 0\<rparr>
                    else hc)
         in hc1 # pb_cookies_to_http now cs))"

subsection \<open>Calls\<close>

record worker_client =
  wk_pc_id :: gostring

type_synonym ('q, 'r) rpc = "'q \<Rightarrow> goerror + 'r"

text \<open>
  \<open>grpc.NewClient\<close> is an argument, and so is the option for plain text; a later option overrides an
  earlier one, so the caller's come last.
\<close>

definition new_worker_client ::
  "(gostring \<Rightarrow> 'o list \<Rightarrow> goerror option) \<Rightarrow> 'o \<Rightarrow> gostring \<Rightarrow> gostring \<Rightarrow> 'o list \<Rightarrow> goerror + worker_client" where
  "new_worker_client new_client insecure pc_id addr opts =
     (let defaults = [insecure] in
      case new_client addr (defaults @ opts) of
        Some e \<Rightarrow> Inl (''worker client: dial '' @ addr @ '': '' @ e)
      | None \<Rightarrow> Inr \<lparr>wk_pc_id = pc_id\<rparr>)"

definition wk_report_status ::
  "(update_status_request, update_status_response) rpc \<Rightarrow> worker_client \<Rightarrow> int \<Rightarrow> gostring
   \<Rightarrow> goerror option" where
  "wk_report_status rpc w session_id state =
     (case rpc \<lparr>uq_status = Some \<lparr>st_session_id = session_id, st_pc_id = wk_pc_id w,
                                  st_state = state, st_cookie_value = []\<rparr>\<rparr> of
        Inl e \<Rightarrow> Some (''worker client: report status session '' @ decimal session_id @ '': '' @ e)
      | Inr r \<Rightarrow> None)"

definition wk_broadcast_request :: "worker_client \<Rightarrow> int \<Rightarrow> http_cookie list \<Rightarrow> broadcast_cookie_request" where
  "wk_broadcast_request w session_id cookies =
     \<lparr>bq_pc_id = wk_pc_id w, bq_session_id = session_id, bq_cookies = map http_to_pb cookies\<rparr>"

definition wk_broadcast_cookie ::
  "(broadcast_cookie_request, broadcast_cookie_response) rpc \<Rightarrow> worker_client \<Rightarrow> int
   \<Rightarrow> http_cookie list \<Rightarrow> goerror option" where
  "wk_broadcast_cookie rpc w session_id cookies =
     (case rpc (wk_broadcast_request w session_id cookies) of
        Inl e \<Rightarrow> Some (''worker client: broadcast cookie: '' @ e)
      | Inr r \<Rightarrow> if \<not> br_accepted r then Some ''worker client: broadcast cookie: master rejected''
                 else None)"

definition wk_get_cookies ::
  "(get_global_cookies_request, 'v get_global_cookies_response) rpc \<Rightarrow> int \<Rightarrow> worker_client
   \<Rightarrow> goerror + http_cookie list" where
  "wk_get_cookies rpc now w =
     (case rpc \<lparr>gq_pc_id = wk_pc_id w\<rparr> of
        Inl e \<Rightarrow> Inl (''worker client: get cookies: '' @ e)
      | Inr r \<Rightarrow> Inr (pb_cookies_to_http now (gr_cookies r)))"

text \<open>
  The goroutine of \<open>WatchCookies\<close>: what \<open>onUpdate\<close> is called with, given what \<open>Recv\<close> returns one
  after the other (the clock is read at each conversion). It stops at the first error; on an
  endless stream it is still receiving when the list ends.
\<close>

fun wk_watch_loop :: "(int \<times> (goerror + 'v get_global_cookies_response)) list \<Rightarrow> http_cookie list list" where
  "wk_watch_loop [] = []"
| "wk_watch_loop ((now, Inl e) # rs) = []"
| "wk_watch_loop ((now, Inr r) # rs) = pb_cookies_to_http now (gr_cookies r) # wk_watch_loop rs"

text \<open>\<open>WatchCookies\<close>: the stream is opened, then the loop runs over what it delivers, a list here.\<close>

definition wk_watch_cookies ::
  "(watch_cookies_request \<Rightarrow> goerror + (int \<times> (goerror + 'v get_global_cookies_response)) list) \<Rightarrow> worker_client
   \<Rightarrow> goerror + http_cookie list list" where
  "wk_watch_cookies watch w =
     (case watch \<lparr>wq_pc_id = wk_pc_id w\<rparr> of
        Inl e \<Rightarrow> Inl (''worker client: open watch stream: '' @ e)
      | Inr received \<Rightarrow> Inr (wk_watch_loop received))"

subsection \<open>What survives the trip through the master\<close>

text \<open>
  What a cookie comes back as: the expiry in whole seconds when it is after the epoch, none
  otherwise; \<open>Max-Age\<close> has no field in the message.
\<close>

definition carried :: "http_cookie \<Rightarrow> http_cookie" where
  "carried c = c\<lparr>hc_max_age := 0,
     hc_expires := (if \<not> time_is_zero (hc_expires c) \<and> time_unix (hc_expires c) > 0
                    then At (time_unix (hc_expires c)) 0 else ZeroTime)\<rparr>"

text \<open>
  What the client takes for expired: an expiry after the epoch and before now. A cookie deleted by an
  expiry at or before the epoch, or by a negative \<open>Max-Age\<close>, is not among them.
\<close>

definition skipped_as_expired :: "int \<Rightarrow> http_cookie \<Rightarrow> bool" where
  "skipped_as_expired now c \<longleftrightarrow> \<not> time_is_zero (hc_expires c)
     \<and> time_unix (hc_expires c) > 0 \<and> time_unix (hc_expires c) < now"

lemma pb_http_single:
  "pb_cookies_to_http now (http_to_pb c # cs) =
     (if skipped_as_expired now c then [] else [carried c]) @ pb_cookies_to_http now cs"
  by (cases c) (auto simp: http_to_pb_def skipped_as_expired_def carried_def Let_def)

text \<open>
  Round trip. The cookies one worker uploads and another converts back are the uploaded ones
  in the same order, less exactly those whose expiry lies between the epoch and now, each with
  its name, value, domain, path and flags unchanged.
\<close>

theorem cookie_round_trip:
  "pb_cookies_to_http now (bq_cookies (wk_broadcast_request w sid cs)) =
     map carried (filter (\<lambda>c. \<not> skipped_as_expired now c) cs)"
  unfolding wk_broadcast_request_def
  by (induction cs) (simp_all add: pb_http_single del: pb_cookies_to_http.simps(2))

text \<open>
  A cookie a server deletes by an expiry at or before the epoch comes back without an expiry:
  the other workers keep it as a session cookie.
\<close>

theorem deleted_cookie_becomes_session_cookie:
  assumes "hc_expires c = At s n" and "s \<le> 0"
  shows "pb_cookies_to_http now (bq_cookies (wk_broadcast_request w sid [c])) =
     [c\<lparr>hc_expires := ZeroTime, hc_max_age := 0\<rparr>]"
  using assms by (cases c) (simp add: wk_broadcast_request_def http_to_pb_def Let_def)

definition sample_http :: "gostring \<Rightarrow> gotime \<Rightarrow> http_cookie" where
  "sample_http n t = \<lparr>hc_name = n, hc_value = ''v'', hc_domain = ''d'', hc_path = ''/'',
     hc_expires = t, hc_max_age = 0, hc_secure = True, hc_http_only = True\<rparr>"

theorem deleted_cookie_becomes_session_cookie_witness:
  "pb_cookies_to_http 1700000000
     (bq_cookies (wk_broadcast_request \<lparr>wk_pc_id = ''pc-1''\<rparr> 7 [sample_http ''sid'' (At 0 0)])) =
   [sample_http ''sid'' ZeroTime]"
proof -
  have "hc_expires (sample_http ''sid'' (At 0 0)) = At 0 0" by (simp add: sample_http_def)
  from deleted_cookie_becomes_session_cookie[OF this] show ?thesis
    by (simp add: sample_http_def)
qed

end
