(* ===== verification/Cluster_System.thy ===== *)
theory Cluster_System
  imports Cluster_Watch Cluster_Worker
begin

section \<open>The cluster: worker clients and the master together\<close>

text \<open>
  \<open>WorkerClient\<close> against \<open>MasterControllerServer\<close>. Every broadcast is one that a worker client made,
  and what the master answers or sends is what the generated stubs of the workers deliver: a
  stream of \<open>WatchCookies\<close> gives \<open>Recv\<close> the responses in the order \<open>stream.Send\<close> took them. The
  interleavings are those of \<open>Cluster_Watch\<close>; the theorems say what the HTTP clients of the workers
  are given.
\<close>

subsection \<open>Uploads\<close>

record cookie_upload =
  ul_worker :: worker_client
  ul_session :: int
  ul_cookies :: "http_cookie list"

definition upload_batch :: "cookie_upload \<Rightarrow> pb_cookie list" where
  "upload_batch u = bq_cookies (wk_broadcast_request (ul_worker u) (ul_session u) (ul_cookies u))"

definition uploaded :: "cookie_upload list \<Rightarrow> http_cookie list" where
  "uploaded us = concat (map ul_cookies us)"

fun last_uploaded :: "gostring \<Rightarrow> http_cookie list \<Rightarrow> http_cookie option" where
  "last_uploaded n [] = None"
| "last_uploaded n (c # cs) =
     (case last_uploaded n cs of Some d \<Rightarrow> Some d | None \<Rightarrow> if hc_name c = n then Some c else None)"

text \<open>What a worker should hold once \<open>ds\<close> were uploaded: the last cookie of each name, unless it has expired.\<close>

definition current_cookies :: "int \<Rightarrow> http_cookie list \<Rightarrow> http_cookie set" where
  "current_cookies now ds =
     set (map carried (filter (\<lambda>d. last_uploaded (hc_name d) ds = Some d \<and> \<not> skipped_as_expired now d) ds))"

text \<open>What \<open>Recv\<close> returns on a stream that has delivered \<open>rs\<close>, converted at the times \<open>nows\<close>.\<close>

definition delivered :: "int list \<Rightarrow> cookies_response list \<Rightarrow> (int \<times> (goerror + cookies_response)) list" where
  "delivered nows rs = zip nows (map Inr rs)"

subsection \<open>Conversions of a whole jar\<close>

lemma http_to_pb_name [simp]: "pc_name (http_to_pb c) = hc_name c"
  by (simp add: http_to_pb_def Let_def)

lemma upload_batch_eq: "upload_batch u = map http_to_pb (ul_cookies u)"
  by (simp add: upload_batch_def wk_broadcast_request_def)

lemma upload_log: "concat (take k (map upload_batch us)) = map http_to_pb (uploaded (take k us))"
  by (simp add: uploaded_def take_map map_concat comp_def upload_batch_eq[abs_def])

lemma last_named_uploaded: "last_named n (map http_to_pb ds) = map_option http_to_pb (last_uploaded n ds)"
  by (induction ds) (auto split: option.splits)

lemma last_uploaded_name: "last_uploaded n ds = Some d \<Longrightarrow> hc_name d = n \<and> d \<in> set ds"
  by (induction ds) (auto split: option.splits if_splits)

lemma pb_http_cons: "pb_cookies_to_http now (c # cs) = pb_cookies_to_http now [c] @ pb_cookies_to_http now cs"
  by (simp add: Let_def)

lemma pb_http_set: "set (pb_cookies_to_http now cs) = (\<Union>c \<in> set cs. set (pb_cookies_to_http now [c]))"
proof (induction cs)
  case (Cons c cs)
  show ?case unfolding pb_http_cons[of now c cs] set_append Cons.IH by simp
qed simp

lemma pb_http_names: "map hc_name (pb_cookies_to_http now cs) =
    map pc_name (filter (\<lambda>c. \<not> (pc_expires_unix c > 0 \<and> pc_expires_unix c < now)) cs)"
  by (induction cs) (auto simp: Let_def)

lemma jar_after_uploads: "jar_after (map upload_batch us) k n = map_option http_to_pb (last_uploaded n (uploaded (take k us)))"
  by (simp only: jar_after_def upload_log last_named_uploaded)

lemma converted_jar:
  assumes "set cs = ran (jar_after (map upload_batch us) k)"
  shows "set (pb_cookies_to_http now cs) = current_cookies now (uploaded (take k us))"
proof -
  let ?ds = "uploaded (take k us)"
  have one: "set (pb_cookies_to_http now [http_to_pb d]) = (if skipped_as_expired now d then {} else {carried d})" for d
    by (simp only: pb_http_single) simp
  have "set cs = http_to_pb ` {d. \<exists>n. last_uploaded n ?ds = Some d}"
    by (auto simp: assms ran_def jar_after_uploads)
  then have "set (pb_cookies_to_http now cs) =
      (\<Union>d \<in> {d. \<exists>n. last_uploaded n ?ds = Some d}. if skipped_as_expired now d then {} else {carried d})"
    by (simp only: pb_http_set[of now cs] image_image one UN_simps)
  also have "\<dots> = current_cookies now ?ds"
    using last_uploaded_name[of _ ?ds] by (force simp: current_cookies_def split: if_splits)
  finally show ?thesis .
qed

subsection \<open>The jar stays well formed\<close>

lemma master_jar_frame [simp]:
  "ms_jar (stream_send st r m) = ms_jar m" "ms_jar (watch_receive st rest m) = ms_jar m"
  "ms_jar (watch_unregister pc m) = ms_jar m"
  by (simp_all add: stream_send_def watch_receive_def watch_unregister_def)

lemma register_jar: "watch_register pc m = (st, m') \<Longrightarrow> ms_jar m' = ms_jar m"
  by (auto simp: watch_register_def)

lemma update_status_jar: "update_status req m = (res, m') \<Longrightarrow> ms_jar m' = ms_jar m"
  by (auto simp: update_status_def session_put_def split: option.splits)

definition master_ok :: "watch_config \<Rightarrow> bool" where
  "master_ok c \<longleftrightarrow> jar_ok (ms_jar (wc_master c))"

lemma master_ok_step: "watch_step ex c d \<Longrightarrow> master_ok c \<Longrightarrow> master_ok d"
proof (induction rule: watch_step.induct)
  case (bc_stamp c i M m v j)
  then show ?case using jar_ok_bump[of "ms_jar m"] by (simp add: master_ok_def)
qed (auto simp: master_ok_def jar_ok_store_entries register_jar update_status_jar)

interpretation jar_ok_machine: invariant_machine watch_initial "watch_step ex" master_ok for ex
proof unfold_locales
  show "watch_initial c \<Longrightarrow> master_ok c" for c
    by (simp add: master_ok_def watch_initial_def watch_new_def new_master_def jar_ok_new)
qed (fact master_ok_step)

subsection \<open>What the workers are given\<close>

text \<open>
  C8: Current answers. Whatever calls are in progress, \<open>GetCookies\<close> of any worker, answered by the
  master now, returns without an error the last cookie uploaded under each name, once, as the two
  conversions leave it (\<open>carried\<close>: no \<open>Max-Age\<close>, the expiry in whole seconds and only if it is after
  the epoch), less those whose expiry is after the epoch and before now. So a cookie that was deleted
  by an expiry at or before the epoch, or by a negative \<open>Max-Age\<close>, is among those returned.
\<close>

theorem get_cookies_is_current:
  assumes "reach watch_initial (watch_step ex) c" "wc_log c = map upload_batch us"
    and "enumerates (cj_entries (ms_jar (wc_master c))) order"
  shows "\<exists>hs. wk_get_cookies (\<lambda>q. get_global_cookies order q (wc_master c)) now w = Inr hs
    \<and> set hs = current_cookies now (uploaded us) \<and> distinct (map hc_name hs)"
proof -
  let ?j = "ms_jar (wc_master c)"
  let ?cs = "fst (jar_snapshot order ?j)"
  have "jar_cookie ?j = jar_after (map upload_batch us) (length us)"
    using jar_machine.reach_inv[OF assms(1)] assms(2) by (simp add: jar_inv_def)
  then have "set ?cs = ran (jar_after (map upload_batch us) (length us))"
    using snapshot_cookies(1)[OF assms(3)] by (metis prod.collapse)
  from converted_jar[OF this] have "set (pb_cookies_to_http now ?cs) = current_cookies now (uploaded us)" by simp
  moreover have "distinct (map pc_name ?cs)"
    using snapshot_distinct[OF assms(3)] jar_ok_machine.reach_inv[OF assms(1)] by (simp add: master_ok_def)
  then have "distinct (map hc_name (pb_cookies_to_http now ?cs))"
    unfolding pb_http_names by (simp add: distinct_map_filter)
  ultimately show ?thesis
    by (simp add: wk_get_cookies_def get_global_cookies_def snapshot_response_def split_def Let_def)
qed

text \<open>What \<open>onUpdate\<close> is called with, one call for each response delivered before the stream breaks.\<close>

lemma watch_loop_delivered:
  "length nows = length rs \<Longrightarrow> wk_watch_loop (delivered nows rs @ (t, Inl e) # rest) =
     map2 (\<lambda>now r. pb_cookies_to_http now (gr_cookies r)) nows rs"
  by (induction nows rs rule: list_induct2) (simp_all add: delivered_def)

text \<open>
  C7: Updates reach the workers. Every list of cookies a watching worker's \<open>onUpdate\<close> is called with is
  what some number of uploads leave, less the cookies expired when it is called; and if the worker
  opens a stream only after its previous one is gone, and the stream never overflowed and has
  delivered all it was sent, then each upload whose push has finished is among those that some
  call of \<open>onUpdate\<close> reflects.
\<close>

theorem updates_reach_workers:
  assumes "reach watch_initial (watch_step ex) c" "wc_log c = map upload_batch us"
    and "length nows = length (ms_sent (wc_master c) st)"
    and "wk_watch_cookies (\<lambda>q. Inr (delivered nows (ms_sent (wc_master c) st) @ (t, Inl e) # rest)) w = Inr updates"
  shows "length updates = length nows
    \<and> (\<forall>j < length updates. \<exists>k \<le> length us. set (updates ! j) = current_cookies (nows ! j) (uploaded (take k us)))
    \<and> (ex \<and> WatchLoop pc st \<in># wc_calls c \<and> st \<notin> wc_dropped c \<and> ms_chan (wc_master c) st = [] \<longrightarrow>
        (\<forall>i \<in> wc_pushed c. \<exists>j < length updates. \<exists>k \<le> length us. i < k
          \<and> set (updates ! j) = current_cookies (nows ! j) (uploaded (take k us))))"
proof -
  let ?sent = "ms_sent (wc_master c) st"
  have updates: "updates = map2 (\<lambda>now r. pb_cookies_to_http now (gr_cookies r)) nows ?sent"
    using assms(4) watch_loop_delivered[OF assms(3)] by (simp add: wk_watch_cookies_def)
  then have len: "length updates = length nows" using assms(3) by simp
  have shown: "set (updates ! j) = current_cookies (nows ! j) (uploaded (take k us)) \<and> k \<le> length us"
    if "j < length updates" "reflects (wc_log c) k (?sent ! j)" for j k
    using that assms(2,3) converted_jar[of "gr_cookies (?sent ! j)" us k] by (simp add: updates reflects_def)
  have each: "\<exists>k. reflects (wc_log c) k (?sent ! j)" if "j < length updates" for j
  proof -
    have "?sent ! j \<in> set ?sent" using that assms(3) len by simp
    then have "?sent ! j \<in> all_responses c" by (auto simp: all_responses_def)
    then show ?thesis using jar_machine.reach_inv[OF assms(1)] by (auto simp: jar_inv_def reflects_version_def)
  qed
  have pushed: "\<exists>j < length updates. \<exists>k > i. reflects (wc_log c) k (?sent ! j)"
    if "ex" "WatchLoop pc st \<in># wc_calls c" "st \<notin> wc_dropped c" "ms_chan (wc_master c) st = []" "i \<in> wc_pushed c" for i
  proof -
    have "reach watch_initial (watch_step True) c" using assms(1) that(1) by simp
    from stream_holds_pushed[OF this that(2,3,5)] that(4)
    obtain r k where "r \<in> set ?sent" "i < k" "reflects (wc_log c) k r" by auto
    then show ?thesis using assms(3) len by (metis in_set_conv_nth)
  qed
  show ?thesis using len shown each pushed by blast
qed

text \<open>A worker uploads one cookie, which another worker, watching, is sent.\<close>

definition sample_upload :: cookie_upload where
  "sample_upload = \<lparr>ul_worker = \<lparr>wk_pc_id = ''pc-1''\<rparr>, ul_session = 7, ul_cookies = [sample_http ''a'' ZeroTime]\<rparr>"

lemma sample_upload_facts:
  "upload_batch sample_upload = [http_to_pb (sample_http ''a'' ZeroTime)]"
  "pc_name (http_to_pb (sample_http ''a'' ZeroTime)) = ''a''"
  "current_cookies now (uploaded [sample_upload]) = {sample_http ''a'' ZeroTime}"
  by (simp_all add: upload_batch_eq sample_upload_def sample_http_def uploaded_def current_cookies_def skipped_as_expired_def carried_def)

lemma sample_cluster:
  obtains c where "reach watch_initial (watch_step True) c" "wc_log c = map upload_batch [sample_upload]"
    "enumerates (cj_entries (ms_jar (wc_master c))) [(''a'', \<lparr>ce_cookie = http_to_pb (sample_http ''a'' ZeroTime), ce_stored_at = At 5 0\<rparr>)]"
    "length (ms_sent (wc_master c) 0) = 2" "ms_chan (wc_master c) 0 = []"
    "WatchLoop ''pc-2'' 0 \<in># wc_calls c" "wc_dropped c = {}" "wc_pushed c = {0}"
  by (rule that[OF delivered_run[OF sample_upload_facts(2)]])
    (simp_all add: watch_at_def sample_upload_facts(1) enumerates_def)

theorem get_cookies_is_current_witness:
  "\<exists>c order hs. reach watch_initial (watch_step True) c \<and> wc_log c = [upload_batch sample_upload]
    \<and> wk_get_cookies (\<lambda>q. get_global_cookies order q (wc_master c)) 5 \<lparr>wk_pc_id = ''pc-3''\<rparr> = Inr hs
    \<and> set hs = {sample_http ''a'' ZeroTime} \<and> distinct (map hc_name hs)"
proof (rule sample_cluster)
  fix c assume c: "reach watch_initial (watch_step True) c" "wc_log c = map upload_batch [sample_upload]"
    "enumerates (cj_entries (ms_jar (wc_master c))) [(''a'', \<lparr>ce_cookie = http_to_pb (sample_http ''a'' ZeroTime), ce_stored_at = At 5 0\<rparr>)]"
  from c get_cookies_is_current[OF c, of 5 "\<lparr>wk_pc_id = ''pc-3''\<rparr>"] show ?thesis
    by (auto simp: sample_upload_facts(3))
qed

theorem updates_reach_workers_witness:
  "\<exists>c us j. reach watch_initial (watch_step True) c
    \<and> wk_watch_cookies (\<lambda>q. Inr (delivered [5, 6] (ms_sent (wc_master c) 0) @ [(7, Inl ''EOF'')])) \<lparr>wk_pc_id = ''pc-2''\<rparr> = Inr us
    \<and> j < length us \<and> set (us ! j) = {sample_http ''a'' ZeroTime}"
proof (rule sample_cluster)
  fix c assume c: "reach watch_initial (watch_step True) c" "wc_log c = map upload_batch [sample_upload]"
    "length (ms_sent (wc_master c) 0) = 2" "ms_chan (wc_master c) 0 = []"
    "WatchLoop ''pc-2'' 0 \<in># wc_calls c" "wc_dropped c = {}" "wc_pushed c = {0}"
  let ?received = "\<lambda>q. Inr (delivered [5, 6] (ms_sent (wc_master c) 0) @ [(7, Inl ''EOF'')])"
  obtain us where us: "wk_watch_cookies ?received \<lparr>wk_pc_id = ''pc-2''\<rparr> = Inr us" by (simp add: wk_watch_cookies_def)
  have "\<exists>j < length us. \<exists>k \<le> length [sample_upload]. 0 < k
      \<and> set (us ! j) = current_cookies ([5, 6] ! j) (uploaded (take k [sample_upload]))"
    using updates_reach_workers[OF c(1,2) _ us, of "''pc-2''"] c(3-7) by (simp, elim conjE, simp)
  then obtain j where "j < length us" "set (us ! j) = {sample_http ''a'' ZeroTime}"
    by (auto simp: sample_upload_facts(3) take_Cons')
  with c(1) us show ?thesis by blast
qed

end
