(* ===== verification/Cluster_Rpc.thy ===== *)
theory Cluster_Rpc
  imports Cluster_System
begin

section \<open>cluster/pb/controller_grpc.pb.go: the stubs of the MasterController service\<close>

text \<open>
  The client stubs a worker calls, the handlers and the service description the server registers,
  the getters, and the server of all-unimplemented methods. What \<open>interface{}\<close> values pass through the
  library are the messages of one datatype; a type assertion that fails is a panic (None). The connection
  (\<open>Invoke\<close>, \<open>NewStream\<close>), the decoder of a request and the interceptor are the library's or the caller's and are
  arguments. \<open>'c\<close> is a context, \<open>'o\<close> an option of a call, \<open>'s\<close> the state on the far side of the connection.
\<close>

subsection \<open>Messages as the library passes them\<close>

datatype get_all_status_request = GetAllStatusRequest

datatype rpc_message =
    CookieMsg pb_cookie
  | SessionStatusMsg session_status
  | BroadcastCookieRequestMsg broadcast_cookie_request
  | BroadcastCookieResponseMsg broadcast_cookie_response
  | UpdateStatusRequestMsg update_status_request
  | UpdateStatusResponseMsg update_status_response
  | GetGlobalCookiesRequestMsg get_global_cookies_request
  | GetGlobalCookiesResponseMsg cookies_response
  | WatchCookiesRequestMsg watch_cookies_request
  | GetAllStatusRequestMsg get_all_status_request
  | GetAllStatusResponseMsg get_all_status_response

text \<open>\<open>Reset\<close>: the empty message of the same type, which is also what \<open>new\<close> gives.\<close>

primrec message_reset :: "rpc_message \<Rightarrow> rpc_message" where
  "message_reset (CookieMsg c) =
     CookieMsg \<lparr>pc_name = [], pc_value = [], pc_domain = [], pc_path = [],
       pc_expires_unix = 0, pc_secure = False, pc_http_only = False\<rparr>"
| "message_reset (SessionStatusMsg st) =
     SessionStatusMsg \<lparr>st_session_id = 0, st_pc_id = [], st_state = [], st_cookie_value = []\<rparr>"
| "message_reset (BroadcastCookieRequestMsg q) =
     BroadcastCookieRequestMsg \<lparr>bq_pc_id = [], bq_session_id = 0, bq_cookies = []\<rparr>"
| "message_reset (BroadcastCookieResponseMsg r) = BroadcastCookieResponseMsg \<lparr>br_accepted = False\<rparr>"
| "message_reset (UpdateStatusRequestMsg q) = UpdateStatusRequestMsg \<lparr>uq_status = None\<rparr>"
| "message_reset (UpdateStatusResponseMsg r) = UpdateStatusResponseMsg \<lparr>ur_ok = False\<rparr>"
| "message_reset (GetGlobalCookiesRequestMsg q) = GetGlobalCookiesRequestMsg \<lparr>gq_pc_id = []\<rparr>"
| "message_reset (GetGlobalCookiesResponseMsg r) =
     GetGlobalCookiesResponseMsg \<lparr>gr_cookies = [], gr_version = 0\<rparr>"
| "message_reset (WatchCookiesRequestMsg q) = WatchCookiesRequestMsg \<lparr>wq_pc_id = []\<rparr>"
| "message_reset (GetAllStatusRequestMsg q) = GetAllStatusRequestMsg GetAllStatusRequest"
| "message_reset (GetAllStatusResponseMsg r) = GetAllStatusResponseMsg \<lparr>ar_sessions = []\<rparr>"

subsection \<open>Getters\<close>

text \<open>A getter of a nil message reads the zero value of its field.\<close>

definition pc_get_name :: "pb_cookie option \<Rightarrow> gostring" where
  "pc_get_name x = (case x of Some m \<Rightarrow> pc_name m | None \<Rightarrow> [])"

definition pc_get_value :: "pb_cookie option \<Rightarrow> gostring" where
  "pc_get_value x = (case x of Some m \<Rightarrow> pc_value m | None \<Rightarrow> [])"

definition pc_get_domain :: "pb_cookie option \<Rightarrow> gostring" where
  "pc_get_domain x = (case x of Some m \<Rightarrow> pc_domain m | None \<Rightarrow> [])"

definition pc_get_path :: "pb_cookie option \<Rightarrow> gostring" where
  "pc_get_path x = (case x of Some m \<Rightarrow> pc_path m | None \<Rightarrow> [])"

definition pc_get_expires_unix :: "pb_cookie option \<Rightarrow> int" where
  "pc_get_expires_unix x = (case x of Some m \<Rightarrow> pc_expires_unix m | None \<Rightarrow> 0)"

definition pc_get_secure :: "pb_cookie option \<Rightarrow> bool" where
  "pc_get_secure x = (case x of Some m \<Rightarrow> pc_secure m | None \<Rightarrow> False)"

definition pc_get_http_only :: "pb_cookie option \<Rightarrow> bool" where
  "pc_get_http_only x = (case x of Some m \<Rightarrow> pc_http_only m | None \<Rightarrow> False)"

definition st_get_session_id :: "session_status option \<Rightarrow> int" where
  "st_get_session_id x = (case x of Some m \<Rightarrow> st_session_id m | None \<Rightarrow> 0)"

definition st_get_pc_id :: "session_status option \<Rightarrow> gostring" where
  "st_get_pc_id x = (case x of Some m \<Rightarrow> st_pc_id m | None \<Rightarrow> [])"

definition st_get_state :: "session_status option \<Rightarrow> gostring" where
  "st_get_state x = (case x of Some m \<Rightarrow> st_state m | None \<Rightarrow> [])"

definition st_get_cookie_value :: "session_status option \<Rightarrow> gostring" where
  "st_get_cookie_value x = (case x of Some m \<Rightarrow> st_cookie_value m | None \<Rightarrow> [])"

definition bq_get_pc_id :: "broadcast_cookie_request option \<Rightarrow> gostring" where
  "bq_get_pc_id x = (case x of Some m \<Rightarrow> bq_pc_id m | None \<Rightarrow> [])"

definition bq_get_session_id :: "broadcast_cookie_request option \<Rightarrow> int" where
  "bq_get_session_id x = (case x of Some m \<Rightarrow> bq_session_id m | None \<Rightarrow> 0)"

definition bq_get_cookies :: "broadcast_cookie_request option \<Rightarrow> pb_cookie list" where
  "bq_get_cookies x = (case x of Some m \<Rightarrow> bq_cookies m | None \<Rightarrow> [])"

definition br_get_accepted :: "broadcast_cookie_response option \<Rightarrow> bool" where
  "br_get_accepted x = (case x of Some m \<Rightarrow> br_accepted m | None \<Rightarrow> False)"

definition uq_get_status :: "update_status_request option \<Rightarrow> session_status option" where
  "uq_get_status x = (case x of Some m \<Rightarrow> uq_status m | None \<Rightarrow> None)"

definition ur_get_ok :: "update_status_response option \<Rightarrow> bool" where
  "ur_get_ok x = (case x of Some m \<Rightarrow> ur_ok m | None \<Rightarrow> False)"

definition gq_get_pc_id :: "get_global_cookies_request option \<Rightarrow> gostring" where
  "gq_get_pc_id x = (case x of Some m \<Rightarrow> gq_pc_id m | None \<Rightarrow> [])"

definition gr_get_cookies :: "cookies_response option \<Rightarrow> pb_cookie list" where
  "gr_get_cookies x = (case x of Some m \<Rightarrow> gr_cookies m | None \<Rightarrow> [])"

definition gr_get_version :: "cookies_response option \<Rightarrow> 64 word" where
  "gr_get_version x = (case x of Some m \<Rightarrow> gr_version m | None \<Rightarrow> 0)"

definition wq_get_pc_id :: "watch_cookies_request option \<Rightarrow> gostring" where
  "wq_get_pc_id x = (case x of Some m \<Rightarrow> wq_pc_id m | None \<Rightarrow> [])"

definition ar_get_sessions :: "get_all_status_response option \<Rightarrow> session_status list" where
  "ar_get_sessions x = (case x of Some m \<Rightarrow> ar_sessions m | None \<Rightarrow> [])"

text \<open>A nil message reads as one that was reset.\<close>

lemma nil_reads_as_reset:
  "message_reset (CookieMsg c) = CookieMsg z \<Longrightarrow> pc_get_name None = pc_name z \<and> pc_get_value None = pc_value z
     \<and> pc_get_domain None = pc_domain z \<and> pc_get_path None = pc_path z \<and> pc_get_expires_unix None = pc_expires_unix z
     \<and> pc_get_secure None = pc_secure z \<and> pc_get_http_only None = pc_http_only z"
  "message_reset (SessionStatusMsg st) = SessionStatusMsg y \<Longrightarrow> st_get_session_id None = st_session_id y
     \<and> st_get_pc_id None = st_pc_id y \<and> st_get_state None = st_state y \<and> st_get_cookie_value None = st_cookie_value y"
  "message_reset (BroadcastCookieRequestMsg q) = BroadcastCookieRequestMsg b \<Longrightarrow> bq_get_pc_id None = bq_pc_id b
     \<and> bq_get_session_id None = bq_session_id b \<and> bq_get_cookies None = bq_cookies b"
  "message_reset (GetGlobalCookiesResponseMsg r) = GetGlobalCookiesResponseMsg g \<Longrightarrow> gr_get_cookies None = gr_cookies g
     \<and> gr_get_version None = gr_version g"
  by (auto simp: pc_get_name_def pc_get_value_def pc_get_domain_def pc_get_path_def pc_get_expires_unix_def pc_get_secure_def
      pc_get_http_only_def st_get_session_id_def st_get_pc_id_def st_get_state_def st_get_cookie_value_def bq_get_pc_id_def
      bq_get_session_id_def bq_get_cookies_def gr_get_cookies_def gr_get_version_def)

subsection \<open>Client stubs\<close>

definition broadcast_cookie_full_name :: gostring where
  "broadcast_cookie_full_name = ''/pb.MasterController/BroadcastCookie''"

definition update_status_full_name :: gostring where
  "update_status_full_name = ''/pb.MasterController/UpdateStatus''"

definition get_global_cookies_full_name :: gostring where
  "get_global_cookies_full_name = ''/pb.MasterController/GetGlobalCookies''"

definition watch_cookies_full_name :: gostring where
  "watch_cookies_full_name = ''/pb.MasterController/WatchCookies''"

definition get_all_status_full_name :: gostring where
  "get_all_status_full_name = ''/pb.MasterController/GetAllStatus''"

text \<open>
  \<open>Invoke\<close> is given the method, the request and an empty response, and gives an error or the response
  it has filled. A stream is a handle \<open>'h\<close> with its sends.
\<close>

type_synonym ('c, 'o, 's) invoke =
  "'c \<Rightarrow> gostring \<Rightarrow> rpc_message \<Rightarrow> rpc_message \<Rightarrow> 'o list \<Rightarrow> 's \<Rightarrow> (goerror + rpc_message) \<times> 's"

record ('c, 'o, 's, 'h) client_conn =
  cn_invoke :: "('c, 'o, 's) invoke"
  cn_new_stream :: "'c \<Rightarrow> gostring \<Rightarrow> gostring \<Rightarrow> 'o list \<Rightarrow> 's \<Rightarrow> (goerror + 'h) \<times> 's"
  cn_send_msg :: "'h \<Rightarrow> rpc_message \<Rightarrow> 's \<Rightarrow> goerror option \<times> 's"
  cn_close_send :: "'h \<Rightarrow> 's \<Rightarrow> goerror option \<times> 's"
  cn_static_method :: 'o

text \<open>What a typed pointer points to after a message was written through it; its type never changes.\<close>

fun as_broadcast_response :: "rpc_message \<Rightarrow> broadcast_cookie_response" where
  "as_broadcast_response (BroadcastCookieResponseMsg r) = r"
| "as_broadcast_response _ = \<lparr>br_accepted = False\<rparr>"

fun as_update_response :: "rpc_message \<Rightarrow> update_status_response" where
  "as_update_response (UpdateStatusResponseMsg r) = r"
| "as_update_response _ = \<lparr>ur_ok = False\<rparr>"

fun as_cookies_response :: "rpc_message \<Rightarrow> cookies_response" where
  "as_cookies_response (GetGlobalCookiesResponseMsg r) = r"
| "as_cookies_response _ = \<lparr>gr_cookies = [], gr_version = 0\<rparr>"

fun as_all_status_response :: "rpc_message \<Rightarrow> get_all_status_response" where
  "as_all_status_response (GetAllStatusResponseMsg r) = r"
| "as_all_status_response _ = \<lparr>ar_sessions = []\<rparr>"

definition client_broadcast_cookie ::
  "('c, 'o, 's, 'h) client_conn \<Rightarrow> 'c \<Rightarrow> broadcast_cookie_request \<Rightarrow> 'o list \<Rightarrow> 's
   \<Rightarrow> (goerror + broadcast_cookie_response) \<times> 's" where
  "client_broadcast_cookie cc ctx q opts s =
     (let c_opts = [cn_static_method cc] @ opts;
          out = BroadcastCookieResponseMsg \<lparr>br_accepted = False\<rparr>
      in case cn_invoke cc ctx broadcast_cookie_full_name (BroadcastCookieRequestMsg q) out c_opts s of
           (Inl e, s1) \<Rightarrow> (Inl e, s1)
         | (Inr out1, s1) \<Rightarrow> (Inr (as_broadcast_response out1), s1))"

definition client_update_status ::
  "('c, 'o, 's, 'h) client_conn \<Rightarrow> 'c \<Rightarrow> update_status_request \<Rightarrow> 'o list \<Rightarrow> 's
   \<Rightarrow> (goerror + update_status_response) \<times> 's" where
  "client_update_status cc ctx q opts s =
     (let c_opts = [cn_static_method cc] @ opts;
          out = UpdateStatusResponseMsg \<lparr>ur_ok = False\<rparr>
      in case cn_invoke cc ctx update_status_full_name (UpdateStatusRequestMsg q) out c_opts s of
           (Inl e, s1) \<Rightarrow> (Inl e, s1)
         | (Inr out1, s1) \<Rightarrow> (Inr (as_update_response out1), s1))"

definition client_get_global_cookies ::
  "('c, 'o, 's, 'h) client_conn \<Rightarrow> 'c \<Rightarrow> get_global_cookies_request \<Rightarrow> 'o list \<Rightarrow> 's
   \<Rightarrow> (goerror + cookies_response) \<times> 's" where
  "client_get_global_cookies cc ctx q opts s =
     (let c_opts = [cn_static_method cc] @ opts;
          out = GetGlobalCookiesResponseMsg \<lparr>gr_cookies = [], gr_version = 0\<rparr>
      in case cn_invoke cc ctx get_global_cookies_full_name (GetGlobalCookiesRequestMsg q) out c_opts s of
           (Inl e, s1) \<Rightarrow> (Inl e, s1)
         | (Inr out1, s1) \<Rightarrow> (Inr (as_cookies_response out1), s1))"

definition client_get_all_status ::
  "('c, 'o, 's, 'h) client_conn \<Rightarrow> 'c \<Rightarrow> get_all_status_request \<Rightarrow> 'o list \<Rightarrow> 's
   \<Rightarrow> (goerror + get_all_status_response) \<times> 's" where
  "client_get_all_status cc ctx q opts s =
     (let c_opts = [cn_static_method cc] @ opts;
          out = GetAllStatusResponseMsg \<lparr>ar_sessions = []\<rparr>
      in case cn_invoke cc ctx get_all_status_full_name (GetAllStatusRequestMsg q) out c_opts s of
           (Inl e, s1) \<Rightarrow> (Inl e, s1)
         | (Inr out1, s1) \<Rightarrow> (Inr (as_all_status_response out1), s1))"

text \<open>\<open>NewStream\<close> is given the description of the stream, here its name.\<close>

definition client_watch_cookies ::
  "('c, 'o, 's, 'h) client_conn \<Rightarrow> 'c \<Rightarrow> watch_cookies_request \<Rightarrow> 'o list \<Rightarrow> 's \<Rightarrow> (goerror + 'h) \<times> 's" where
  "client_watch_cookies cc ctx q opts s =
     (let c_opts = [cn_static_method cc] @ opts
      in case cn_new_stream cc ctx ''WatchCookies'' watch_cookies_full_name c_opts s of
           (Inl e, s1) \<Rightarrow> (Inl e, s1)
         | (Inr x, s1) \<Rightarrow>
             (case cn_send_msg cc x (WatchCookiesRequestMsg q) s1 of
                (Some e, s2) \<Rightarrow> (Inl e, s2)
              | (None, s2) \<Rightarrow>
                  (case cn_close_send cc x s2 of (Some e, s3) \<Rightarrow> (Inl e, s3) | (None, s3) \<Rightarrow> (Inr x, s3))))"

subsection \<open>The server's side\<close>

text \<open>
  \<open>MasterControllerServer\<close>, the interface. \<open>WatchCookies\<close> runs for as long as its stream; its result here is an
  immediate error, or what goes on running, as \<open>'w\<close>.
\<close>

record ('c, 's, 'w) controller_server =
  sv_broadcast_cookie :: "'c \<Rightarrow> broadcast_cookie_request \<Rightarrow> 's \<Rightarrow> (goerror + broadcast_cookie_response) \<times> 's"
  sv_update_status :: "'c \<Rightarrow> update_status_request \<Rightarrow> 's \<Rightarrow> (goerror + update_status_response) \<times> 's"
  sv_get_global_cookies :: "'c \<Rightarrow> get_global_cookies_request \<Rightarrow> 's \<Rightarrow> (goerror + cookies_response) \<times> 's"
  sv_watch_cookies :: "watch_cookies_request \<Rightarrow> 's \<Rightarrow> goerror + 'w"
  sv_get_all_status :: "'c \<Rightarrow> get_all_status_request \<Rightarrow> 's \<Rightarrow> (goerror + get_all_status_response) \<times> 's"

definition unimplemented_server :: "('c, 's, 'w) controller_server" where
  "unimplemented_server = \<lparr>
     sv_broadcast_cookie = (\<lambda>ctx q s. (Inl ''rpc error: code = Unimplemented desc = method BroadcastCookie not implemented'', s)),
     sv_update_status = (\<lambda>ctx q s. (Inl ''rpc error: code = Unimplemented desc = method UpdateStatus not implemented'', s)),
     sv_get_global_cookies = (\<lambda>ctx q s. (Inl ''rpc error: code = Unimplemented desc = method GetGlobalCookies not implemented'', s)),
     sv_watch_cookies = (\<lambda>q s. Inl ''rpc error: code = Unimplemented desc = method WatchCookies not implemented''),
     sv_get_all_status = (\<lambda>ctx q s. (Inl ''rpc error: code = Unimplemented desc = method GetAllStatus not implemented'', s))\<rparr>"

text \<open>
  A unary handler: the decoder fills an empty request; without an interceptor the method is called
  on it, otherwise the interceptor is, with the full name and a function that calls the method. None is a panic.
\<close>

type_synonym 's served = "((goerror + rpc_message) \<times> 's) option"

record 'v unary_info =
  ui_server :: 'v
  ui_full_method :: gostring

type_synonym ('c, 's, 'w) interceptor =
  "'c \<Rightarrow> rpc_message \<Rightarrow> ('c, 's, 'w) controller_server unary_info
   \<Rightarrow> ('c \<Rightarrow> rpc_message \<Rightarrow> 's \<Rightarrow> 's served) \<Rightarrow> 's \<Rightarrow> 's served"

type_synonym ('c, 's, 'w) method_handler =
  "('c, 's, 'w) controller_server \<Rightarrow> 'c \<Rightarrow> (rpc_message \<Rightarrow> goerror + rpc_message)
   \<Rightarrow> ('c, 's, 'w) interceptor option \<Rightarrow> 's \<Rightarrow> 's served"

definition wrap_result :: "('r \<Rightarrow> rpc_message) \<Rightarrow> (goerror + 'r) \<times> 's \<Rightarrow> 's served" where
  "wrap_result msg rs = Some (map_sum id msg (fst rs), snd rs)"

fun call_broadcast_cookie :: "('c, 's, 'w) controller_server \<Rightarrow> 'c \<Rightarrow> rpc_message \<Rightarrow> 's \<Rightarrow> 's served" where
  "call_broadcast_cookie srv ctx (BroadcastCookieRequestMsg q) s =
     wrap_result BroadcastCookieResponseMsg (sv_broadcast_cookie srv ctx q s)"
| "call_broadcast_cookie srv ctx _ s = None"

fun call_update_status :: "('c, 's, 'w) controller_server \<Rightarrow> 'c \<Rightarrow> rpc_message \<Rightarrow> 's \<Rightarrow> 's served" where
  "call_update_status srv ctx (UpdateStatusRequestMsg q) s =
     wrap_result UpdateStatusResponseMsg (sv_update_status srv ctx q s)"
| "call_update_status srv ctx _ s = None"

fun call_get_global_cookies :: "('c, 's, 'w) controller_server \<Rightarrow> 'c \<Rightarrow> rpc_message \<Rightarrow> 's \<Rightarrow> 's served" where
  "call_get_global_cookies srv ctx (GetGlobalCookiesRequestMsg q) s =
     wrap_result GetGlobalCookiesResponseMsg (sv_get_global_cookies srv ctx q s)"
| "call_get_global_cookies srv ctx _ s = None"

fun call_get_all_status :: "('c, 's, 'w) controller_server \<Rightarrow> 'c \<Rightarrow> rpc_message \<Rightarrow> 's \<Rightarrow> 's served" where
  "call_get_all_status srv ctx (GetAllStatusRequestMsg q) s =
     wrap_result GetAllStatusResponseMsg (sv_get_all_status srv ctx q s)"
| "call_get_all_status srv ctx _ s = None"

definition broadcast_cookie_handler :: "('c, 's, 'w) method_handler" where
  "broadcast_cookie_handler srv ctx dec interceptor s =
     (case dec (BroadcastCookieRequestMsg \<lparr>bq_pc_id = [], bq_session_id = 0, bq_cookies = []\<rparr>) of
        Inl e \<Rightarrow> Some (Inl e, s)
      | Inr m \<Rightarrow>
          (case interceptor of
             None \<Rightarrow> call_broadcast_cookie srv ctx m s
           | Some ic \<Rightarrow> ic ctx m \<lparr>ui_server = srv, ui_full_method = broadcast_cookie_full_name\<rparr>
               (call_broadcast_cookie srv) s))"

definition update_status_handler :: "('c, 's, 'w) method_handler" where
  "update_status_handler srv ctx dec interceptor s =
     (case dec (UpdateStatusRequestMsg \<lparr>uq_status = None\<rparr>) of
        Inl e \<Rightarrow> Some (Inl e, s)
      | Inr m \<Rightarrow>
          (case interceptor of
             None \<Rightarrow> call_update_status srv ctx m s
           | Some ic \<Rightarrow> ic ctx m \<lparr>ui_server = srv, ui_full_method = update_status_full_name\<rparr>
               (call_update_status srv) s))"

definition get_global_cookies_handler :: "('c, 's, 'w) method_handler" where
  "get_global_cookies_handler srv ctx dec interceptor s =
     (case dec (GetGlobalCookiesRequestMsg \<lparr>gq_pc_id = []\<rparr>) of
        Inl e \<Rightarrow> Some (Inl e, s)
      | Inr m \<Rightarrow>
          (case interceptor of
             None \<Rightarrow> call_get_global_cookies srv ctx m s
           | Some ic \<Rightarrow> ic ctx m \<lparr>ui_server = srv, ui_full_method = get_global_cookies_full_name\<rparr>
               (call_get_global_cookies srv) s))"

definition get_all_status_handler :: "('c, 's, 'w) method_handler" where
  "get_all_status_handler srv ctx dec interceptor s =
     (case dec (GetAllStatusRequestMsg GetAllStatusRequest) of
        Inl e \<Rightarrow> Some (Inl e, s)
      | Inr m \<Rightarrow>
          (case interceptor of
             None \<Rightarrow> call_get_all_status srv ctx m s
           | Some ic \<Rightarrow> ic ctx m \<lparr>ui_server = srv, ui_full_method = get_all_status_full_name\<rparr>
               (call_get_all_status srv) s))"

text \<open>The handler of the stream: \<open>recv\<close> is what \<open>RecvMsg\<close> does to an empty request.\<close>

definition watch_cookies_handler ::
  "('c, 's, 'w) controller_server \<Rightarrow> (rpc_message \<Rightarrow> goerror + rpc_message) \<Rightarrow> 's \<Rightarrow> goerror + 'w" where
  "watch_cookies_handler srv recv s =
     (case recv (WatchCookiesRequestMsg \<lparr>wq_pc_id = []\<rparr>) of
        Inl e \<Rightarrow> Inl e
      | Inr m \<Rightarrow> sv_watch_cookies srv
          (case m of WatchCookiesRequestMsg q \<Rightarrow> q | _ \<Rightarrow> \<lparr>wq_pc_id = []\<rparr>) s)"

record ('c, 's, 'w) service_desc =
  sd_service_name :: gostring
  sd_methods :: "(gostring \<times> ('c, 's, 'w) method_handler) list"
  sd_streams :: "(gostring \<times> (('c, 's, 'w) controller_server \<Rightarrow> (rpc_message \<Rightarrow> goerror + rpc_message) \<Rightarrow> 's \<Rightarrow> goerror + 'w)) list"
  sd_metadata :: gostring

definition master_controller_desc :: "('c, 's, 'w) service_desc" where
  "master_controller_desc = \<lparr>sd_service_name = ''pb.MasterController'',
     sd_methods = [(''BroadcastCookie'', broadcast_cookie_handler), (''UpdateStatus'', update_status_handler),
       (''GetGlobalCookies'', get_global_cookies_handler), (''GetAllStatus'', get_all_status_handler)],
     sd_streams = [(''WatchCookies'', watch_cookies_handler)],
     sd_metadata = ''controller.proto''\<rparr>"


subsection \<open>The master behind the description\<close>

text \<open>
  Orders the runtime picks while the master's handlers run: the clock readings of \<open>Store\<close> and the
  iterations of its maps.
\<close>

record run_orders =
  ro_clocks :: "broadcast_cookie_request \<Rightarrow> gotime list"
  ro_jar :: "cookie_jar \<Rightarrow> (gostring \<times> cookie_entry) list"
  ro_subs :: "master \<Rightarrow> (gostring \<times> nat) list"
  ro_sessions :: "master \<Rightarrow> (int \<times> session_status) list"

text \<open>
  \<open>MasterControllerServer\<close> embeds the unimplemented server and overrides all its methods. \<open>WatchCookies\<close>
  goes on as the stream it registered, with \<open>Cluster_Watch\<close>.
\<close>

definition master_server :: "run_orders \<Rightarrow> ('c, master, nat \<times> master) controller_server" where
  "master_server ro = unimplemented_server\<lparr>
     sv_broadcast_cookie := (\<lambda>ctx q m.
       broadcast_cookie (ro_clocks ro q) (ro_jar ro (snd (jar_store (zip (bq_cookies q) (ro_clocks ro q)) (ms_jar m))))
         (ro_subs ro m) q m),
     sv_update_status := (\<lambda>ctx q m. update_status q m),
     sv_get_global_cookies := (\<lambda>ctx q m. (get_global_cookies (ro_jar ro (ms_jar m)) q m, m)),
     sv_watch_cookies := (\<lambda>q m. if wq_pc_id q = [] then Inl ''rpc error: code = InvalidArgument desc = pc_id must not be empty''
                               else Inr (watch_register (wq_pc_id q) m)),
     sv_get_all_status := (\<lambda>ctx q m. (Inr (get_all_status (ro_sessions ro m) m), m))\<rparr>"

text \<open>
  What registering a description means: a call of \<open>/service/method\<close> runs the method's handler on the server, with
  a decoder of the request as it was sent. A path that is not registered runs nothing (None).
\<close>

definition method_path :: "('c, 's, 'w) service_desc \<Rightarrow> gostring \<Rightarrow> gostring" where
  "method_path desc name = ''/'' @ sd_service_name desc @ ''/'' @ name"

definition served_by ::
  "('c, 's, 'w) service_desc \<Rightarrow> ('c, 's, 'w) controller_server \<Rightarrow> (rpc_message \<Rightarrow> rpc_message \<Rightarrow> goerror + rpc_message)
   \<Rightarrow> ('c, 's, 'w) interceptor option \<Rightarrow> 'c \<Rightarrow> gostring \<Rightarrow> rpc_message \<Rightarrow> 's \<Rightarrow> 's served" where
  "served_by desc srv decode interceptor ctx path m s =
     (case map_of (map (\<lambda>(name, h). (method_path desc name, h)) (sd_methods desc)) path of
        None \<Rightarrow> None
      | Some h \<Rightarrow> h srv ctx (decode m) interceptor s)"

text \<open>
  \<open>RegisterMasterControllerServer\<close>: a server that embeds the unimplemented one by a nil pointer panics
  here; otherwise the description and the server are handed to the registrar, here the list of its services.
\<close>

definition register_master_controller_server ::
  "bool \<Rightarrow> ('c, 's, 'w) controller_server \<Rightarrow> (('c, 's, 'w) service_desc \<times> ('c, 's, 'w) controller_server) list
   \<Rightarrow> (('c, 's, 'w) service_desc \<times> ('c, 's, 'w) controller_server) list option" where
  "register_master_controller_server embeds_nil srv services =
     (if embeds_nil then None else Some (services @ [(master_controller_desc, srv)]))"

subsection \<open>A connection within one process\<close>

text \<open>An interceptor is transparent if it does nothing but call the method.\<close>

definition transparent :: "('c, 's, 'w) interceptor option \<Rightarrow> bool" where
  "transparent interceptor \<longleftrightarrow> (\<forall>ic ctx m info h s. interceptor = Some ic \<longrightarrow> ic ctx m info h s = h ctx m s)"

text \<open>A connection within one process: the handler is called, and an unknown method is refused.\<close>

definition loopback_invoke ::
  "('c \<Rightarrow> gostring \<Rightarrow> rpc_message \<Rightarrow> 's \<Rightarrow> 's served) \<Rightarrow> ('c, 'o, 's) invoke" where
  "loopback_invoke served ctx path m out opts s =
     (case served ctx path m s of
        None \<Rightarrow> (Inl ''rpc error: code = Unimplemented desc = unknown method'', s)
      | Some (res, s1) \<Rightarrow> (res, s1))"

subsection \<open>From a stub to the method\<close>

lemma served_paths:
  "served_by master_controller_desc srv decode ic ctx broadcast_cookie_full_name m s
     = broadcast_cookie_handler srv ctx (decode m) ic s"
  "served_by master_controller_desc srv decode ic ctx update_status_full_name m s
     = update_status_handler srv ctx (decode m) ic s"
  "served_by master_controller_desc srv decode ic ctx get_global_cookies_full_name m s
     = get_global_cookies_handler srv ctx (decode m) ic s"
  "served_by master_controller_desc srv decode ic ctx get_all_status_full_name m s
     = get_all_status_handler srv ctx (decode m) ic s"
  by (simp_all add: served_by_def method_path_def master_controller_desc_def broadcast_cookie_full_name_def
      update_status_full_name_def get_global_cookies_full_name_def get_all_status_full_name_def)

lemma transparent_case:
  "transparent ic \<Longrightarrow> (case ic of None \<Rightarrow> h ctx m s | Some i \<Rightarrow> i ctx m info h s) = h ctx m s"
  by (cases ic) (simp_all add: transparent_def)

text \<open>
  The stubs over a connection within one process, with a decoder that accepts every request, are
  the methods of the server: the same responses, the same errors, the same state, whatever server is registered.
\<close>

theorem stubs_reach_methods:
  assumes "cn_invoke cc = loopback_invoke (served_by master_controller_desc srv decode ic)"
    and "\<And>m. decode m (message_reset m) = Inr m" and "transparent ic"
  shows "client_broadcast_cookie cc ctx q opts s = sv_broadcast_cookie srv ctx q s
    \<and> client_update_status cc ctx q' opts s = sv_update_status srv ctx q' s
    \<and> client_get_global_cookies cc ctx g opts s = sv_get_global_cookies srv ctx g s
    \<and> client_get_all_status cc ctx a opts s = sv_get_all_status srv ctx a s"
proof -
  note unpack = loopback_invoke_def served_paths transparent_case[OF assms(3)] wrap_result_def
  have d: "decode (BroadcastCookieRequestMsg q) (BroadcastCookieRequestMsg \<lparr>bq_pc_id = [], bq_session_id = 0, bq_cookies = []\<rparr>) = Inr (BroadcastCookieRequestMsg q)"
    "decode (UpdateStatusRequestMsg q') (UpdateStatusRequestMsg \<lparr>uq_status = None\<rparr>) = Inr (UpdateStatusRequestMsg q')"
    "decode (GetGlobalCookiesRequestMsg g) (GetGlobalCookiesRequestMsg \<lparr>gq_pc_id = []\<rparr>) = Inr (GetGlobalCookiesRequestMsg g)"
    "decode (GetAllStatusRequestMsg a) (GetAllStatusRequestMsg GetAllStatusRequest) = Inr (GetAllStatusRequestMsg a)"
    using assms(2)[of "BroadcastCookieRequestMsg q"] assms(2)[of "UpdateStatusRequestMsg q'"]
      assms(2)[of "GetGlobalCookiesRequestMsg g"] assms(2)[of "GetAllStatusRequestMsg a"] by simp_all
  have "client_broadcast_cookie cc ctx q opts s = sv_broadcast_cookie srv ctx q s"
    by (cases "sv_broadcast_cookie srv ctx q s"; cases "fst (sv_broadcast_cookie srv ctx q s)")
      (simp_all add: client_broadcast_cookie_def assms(1) unpack broadcast_cookie_handler_def d)
  moreover have "client_update_status cc ctx q' opts s = sv_update_status srv ctx q' s"
    by (cases "sv_update_status srv ctx q' s"; cases "fst (sv_update_status srv ctx q' s)")
      (simp_all add: client_update_status_def assms(1) unpack update_status_handler_def d)
  moreover have "client_get_global_cookies cc ctx g opts s = sv_get_global_cookies srv ctx g s"
    by (cases "sv_get_global_cookies srv ctx g s"; cases "fst (sv_get_global_cookies srv ctx g s)")
      (simp_all add: client_get_global_cookies_def assms(1) unpack get_global_cookies_handler_def d)
  moreover have "client_get_all_status cc ctx a opts s = sv_get_all_status srv ctx a s"
    by (cases "sv_get_all_status srv ctx a s"; cases "fst (sv_get_all_status srv ctx a s)")
      (simp_all add: client_get_all_status_def assms(1) unpack get_all_status_handler_def d)
  ultimately show ?thesis by blast
qed


text \<open>Two records are one message: the decoder of a test, which knows every type.\<close>

theorem stubs_reach_methods_witness:
  "let srv = (unimplemented_server :: (unit, nat, unit) controller_server)\<lparr>sv_update_status := (\<lambda>ctx q n. (Inr \<lparr>ur_ok = True\<rparr>, n + 1))\<rparr>;
       cc = \<lparr>cn_invoke = loopback_invoke (served_by master_controller_desc srv (\<lambda>m empty. Inr m) None),
              cn_new_stream = (\<lambda>ctx name path opts s. (Inr (), s)), cn_send_msg = (\<lambda>h m s. (None, s)),
              cn_close_send = (\<lambda>h s. (None, s)), cn_static_method = ()\<rparr>
   in client_update_status cc () \<lparr>uq_status = None\<rparr> [] 4 = (Inr \<lparr>ur_ok = True\<rparr>, 5)
     \<and> client_get_all_status cc () GetAllStatusRequest [] 4 = (Inl ''rpc error: code = Unimplemented desc = method GetAllStatus not implemented'', 4)"
proof -
  let ?srv = "(unimplemented_server :: (unit, nat, unit) controller_server)\<lparr>sv_update_status := (\<lambda>ctx q n. (Inr \<lparr>ur_ok = True\<rparr>, n + 1))\<rparr>"
  let ?cc = "\<lparr>cn_invoke = loopback_invoke (served_by master_controller_desc ?srv (\<lambda>m empty. Inr m) None),
              cn_new_stream = (\<lambda>ctx name path opts s. (Inr (), s)), cn_send_msg = (\<lambda>h m s. (None, s)),
              cn_close_send = (\<lambda>h s. (None, s)), cn_static_method = ()\<rparr> :: (unit, unit, nat, unit) client_conn"
  have "cn_invoke ?cc = loopback_invoke (served_by master_controller_desc ?srv (\<lambda>m empty. Inr m) None)" by simp
  from stubs_reach_methods[OF this refl, where ctx = "()" and opts = "[]" and s = 4
      and q' = "\<lparr>uq_status = None\<rparr>" and a = GetAllStatusRequest]
  show ?thesis by (simp add: transparent_def unimplemented_server_def Let_def)
qed

text \<open>
  Opening a stream takes three calls of the connection, and the first that fails is the error of the
  stub; on the server the request that arrives subscribes its worker, unless it has no name.
\<close>

theorem watch_stub_spec:
  assumes "cn_new_stream cc ctx ''WatchCookies'' ''/pb.MasterController/WatchCookies'' (cn_static_method cc # opts) s = (ro, s1)"
    and "\<And>x. cn_send_msg cc x (WatchCookiesRequestMsg q) s1 = (se x, s2)" and "\<And>x. cn_close_send cc x s2 = (ce x, s3)"
    and "decode (WatchCookiesRequestMsg q) (WatchCookiesRequestMsg \<lparr>wq_pc_id = []\<rparr>) = Inr (WatchCookiesRequestMsg q)"
  shows "fst (client_watch_cookies cc ctx q opts s) =
      (case ro of Inl e \<Rightarrow> Inl e
       | Inr x \<Rightarrow> (case (se x, ce x) of (Some e, _) \<Rightarrow> Inl e | (None, Some e) \<Rightarrow> Inl e | (None, None) \<Rightarrow> Inr x))
    \<and> watch_cookies_handler (master_server orders) (decode (WatchCookiesRequestMsg q)) m =
      (if wq_pc_id q = [] then Inl ''rpc error: code = InvalidArgument desc = pc_id must not be empty''
       else Inr (watch_register (wq_pc_id q) m))"
  using assms by (auto simp: client_watch_cookies_def watch_cookies_full_name_def watch_cookies_handler_def
      master_server_def split: sum.split option.split)

subsection \<open>The worker client over the stubs\<close>

text \<open>\<open>WorkerClient\<close>'s calls with the generated stubs as their remote procedures; none passes options.\<close>

definition worker_report_status ::
  "('c, 'o, 's, 'h) client_conn \<Rightarrow> 'c \<Rightarrow> worker_client \<Rightarrow> int \<Rightarrow> gostring \<Rightarrow> 's \<Rightarrow> goerror option \<times> 's" where
  "worker_report_status cc ctx w session_id state s =
     (let stub = (\<lambda>q. client_update_status cc ctx q [] s);
          st = \<lparr>st_session_id = session_id, st_pc_id = wk_pc_id w, st_state = state, st_cookie_value = []\<rparr>
      in (wk_report_status (\<lambda>q. fst (stub q)) w session_id state, snd (stub \<lparr>uq_status = Some st\<rparr>)))"

definition worker_broadcast_cookie ::
  "('c, 'o, 's, 'h) client_conn \<Rightarrow> 'c \<Rightarrow> worker_client \<Rightarrow> int \<Rightarrow> http_cookie list \<Rightarrow> 's \<Rightarrow> goerror option \<times> 's" where
  "worker_broadcast_cookie cc ctx w session_id cookies s =
     (let stub = (\<lambda>q. client_broadcast_cookie cc ctx q [] s)
      in (wk_broadcast_cookie (\<lambda>q. fst (stub q)) w session_id cookies, snd (stub (wk_broadcast_request w session_id cookies))))"

definition worker_get_cookies ::
  "('c, 'o, 's, 'h) client_conn \<Rightarrow> 'c \<Rightarrow> int \<Rightarrow> worker_client \<Rightarrow> 's \<Rightarrow> (goerror + http_cookie list) \<times> 's" where
  "worker_get_cookies cc ctx now w s =
     (let stub = (\<lambda>q. client_get_global_cookies cc ctx q [] s)
      in (wk_get_cookies (\<lambda>q. fst (stub q)) now w, snd (stub \<lparr>gq_pc_id = wk_pc_id w\<rparr>)))"

lemma master_server_simps:
  "sv_update_status (master_server ro) ctx q m = update_status q m"
  "sv_get_global_cookies (master_server ro) ctx g m = (get_global_cookies (ro_jar ro (ms_jar m)) g m, m)"
  "sv_broadcast_cookie (master_server ro) ctx b m =
     broadcast_cookie (ro_clocks ro b) (ro_jar ro (snd (jar_store (zip (bq_cookies b) (ro_clocks ro b)) (ms_jar m)))) (ro_subs ro m) b m"
  by (simp_all add: master_server_def)

text \<open>What one upload does to the jar.\<close>

definition upload_stored :: "http_cookie list \<Rightarrow> master \<Rightarrow> master \<Rightarrow> bool" where
  "upload_stored cs m1 m2 \<longleftrightarrow> cs \<noteq> [] \<and> cj_version (ms_jar m2) = cj_version (ms_jar m1) + 1
     \<and> (\<forall>n. jar_cookie (ms_jar m2) n =
          (case last_uploaded n cs of Some c \<Rightarrow> Some (http_to_pb c) | None \<Rightarrow> jar_cookie (ms_jar m1) n))"

lemma broadcast_stores:
  assumes "broadcast_cookie clocks order subs (wk_broadcast_request w sid cs) m1 = (Inr r, m2)" "length clocks = length cs"
  shows "upload_stored cs m1 m2"
proof -
  let ?q = "wk_broadcast_request w sid cs"
  have q: "bq_cookies ?q = map http_to_pb cs" by (simp add: wk_broadcast_request_def)
  have z: "map fst (zip (map http_to_pb cs) clocks) = map http_to_pb cs" using assms(2) by simp
  have ne: "cs \<noteq> []" using assms(1) q by (auto simp: broadcast_cookie_def)
  have j: "ms_jar m2 = snd (jar_store (zip (map http_to_pb cs) clocks) (ms_jar m1))"
    using assms(1) ne q by (auto simp: broadcast_cookie_def Let_def split_def)
  have "jar_cookie (ms_jar m2) n = (case last_uploaded n cs of Some c \<Rightarrow> Some (http_to_pb c) | None \<Rightarrow> jar_cookie (ms_jar m1) n)" for n
    by (simp add: j jar_store_def jar_cookie_store_entries z last_named_uploaded split: option.split)
  moreover have "cj_version (ms_jar m2) = cj_version (ms_jar m1) + 1" by (simp add: j jar_store_def)
  ultimately show ?thesis using ne by (simp add: upload_stored_def)
qed


text \<open>
  C9: A worker's calls reach the master. Through the client's stub, a connection within one process,
  the path of the method, the registered description, its handler and the master's method, with a
  decoder that gives the message that was sent and interceptors that only call on:
  \<open>BroadcastCookie\<close> puts under each name the last of the worker's cookies of that name, in its wire form, leaves
  the other names and the statuses alone and raises the version by one, or, without cookies, is refused with
  the text of the status and changes nothing; \<open>ReportStatus\<close> records exactly that status under the worker's
  name and returns nil; \<open>GetCookies\<close> returns what the jar holds, converted, and changes nothing. A network
  that loses calls, and calls of others in the middle of a handler, are not part of it.
\<close>

theorem worker_calls_reach_master:
  assumes "cn_invoke cc = loopback_invoke (served_by master_controller_desc (master_server ro) decode ic)"
    and "\<And>m. decode m (message_reset m) = Inr m" and "transparent ic"
    and "length (ro_clocks ro (wk_broadcast_request w sid cs)) = length cs"
  shows "(case worker_broadcast_cookie cc ctx w sid cs m of (e, m') \<Rightarrow>
        if cs = [] then e = Some ''worker client: broadcast cookie: rpc error: code = InvalidArgument desc = cookies must not be empty'' \<and> m' = m
        else e = None \<and> upload_stored cs m m' \<and> ms_sessions m' = ms_sessions m)
    \<and> worker_report_status cc ctx w sid state m =
        (None, m\<lparr>ms_sessions := (ms_sessions m)(sid \<mapsto> \<lparr>st_session_id = sid, st_pc_id = wk_pc_id w,
           st_state = state, st_cookie_value = []\<rparr>)\<rparr>)
    \<and> worker_get_cookies cc ctx now w m =
        (Inr (pb_cookies_to_http now (fst (jar_snapshot (ro_jar ro (ms_jar m)) (ms_jar m)))), m)"
proof (intro conjI)
  note reach = stubs_reach_methods[OF assms(1-3)]
  note stubs = reach[THEN conjunct1] reach[THEN conjunct2, THEN conjunct1] reach[THEN conjunct2, THEN conjunct2, THEN conjunct1]
  let ?b = "wk_broadcast_request w sid cs"
  obtain res m' where b: "sv_broadcast_cookie (master_server ro) ctx ?b m = (res, m')" by fastforce
  have call: "worker_broadcast_cookie cc ctx w sid cs m = (wk_broadcast_cookie (\<lambda>q. fst (sv_broadcast_cookie (master_server ro) ctx q m)) w sid cs, m')"
    by (simp add: worker_broadcast_cookie_def stubs(1) b)
  show "case worker_broadcast_cookie cc ctx w sid cs m of (e, m') \<Rightarrow>
        if cs = [] then e = Some ''worker client: broadcast cookie: rpc error: code = InvalidArgument desc = cookies must not be empty'' \<and> m' = m
        else e = None \<and> upload_stored cs m m' \<and> ms_sessions m' = ms_sessions m"
  proof (cases "cs = []")
    case True
    then show ?thesis using b[symmetric] unfolding call
      by (simp add: wk_broadcast_cookie_def wk_broadcast_request_def master_server_simps broadcast_cookie_def)
  next
    case False
    have r: "res = Inr \<lparr>br_accepted = True\<rparr>" "ms_sessions m' = ms_sessions m"
      using b False by (auto simp: master_server_simps broadcast_cookie_def wk_broadcast_request_def Let_def split_def)
    have "upload_stored cs m m'" using b r(1) assms(4) by (auto simp: master_server_simps dest: broadcast_stores)
    with False r b show ?thesis unfolding call by (simp add: wk_broadcast_cookie_def)
  qed
  show "worker_report_status cc ctx w sid state m =
        (None, m\<lparr>ms_sessions := (ms_sessions m)(sid \<mapsto> \<lparr>st_session_id = sid, st_pc_id = wk_pc_id w,
           st_state = state, st_cookie_value = []\<rparr>)\<rparr>)"
    by (simp add: worker_report_status_def wk_report_status_def stubs(2) master_server_simps update_status_def session_put_def Let_def)
  show "worker_get_cookies cc ctx now w m =
        (Inr (pb_cookies_to_http now (fst (jar_snapshot (ro_jar ro (ms_jar m)) (ms_jar m)))), m)"
    by (simp add: worker_get_cookies_def wk_get_cookies_def stubs(3) master_server_simps get_global_cookies_def
        snapshot_response_def split_def Let_def)
qed

text \<open>A worker uploads a cookie to a master in the same process.\<close>

definition sample_orders :: run_orders where
  "sample_orders = \<lparr>ro_clocks = (\<lambda>q. map (\<lambda>c. At 5 0) (bq_cookies q)), ro_jar = (\<lambda>j. []), ro_subs = (\<lambda>m. []), ro_sessions = (\<lambda>m. [])\<rparr>"

definition sample_conn :: "(unit, unit, master, unit) client_conn" where
  "sample_conn = \<lparr>cn_invoke = loopback_invoke (served_by master_controller_desc (master_server sample_orders) (\<lambda>m empty. Inr m) None),
     cn_new_stream = (\<lambda>ctx name path opts s. (Inr (), s)), cn_send_msg = (\<lambda>h m s. (None, s)),
     cn_close_send = (\<lambda>h s. (None, s)), cn_static_method = ()\<rparr>"

theorem worker_calls_reach_master_witness:
  "\<exists>m. worker_broadcast_cookie sample_conn () \<lparr>wk_pc_id = ''pc-1''\<rparr> 7 [sample_http ''a'' ZeroTime] new_master = (None, m)
    \<and> upload_stored [sample_http ''a'' ZeroTime] new_master m"
proof -
  let ?w = "\<lparr>wk_pc_id = ''pc-1''\<rparr>" and ?cs = "[sample_http ''a'' ZeroTime]"
  have n: "length (ro_clocks sample_orders (wk_broadcast_request ?w 7 ?cs)) = length ?cs"
    by (simp add: sample_orders_def wk_broadcast_request_def)
  have c: "cn_invoke sample_conn = loopback_invoke (served_by master_controller_desc (master_server sample_orders) (\<lambda>m empty. Inr m) None)"
    by (simp add: sample_conn_def)
  have t: "transparent None" by (simp add: transparent_def)
  from worker_calls_reach_master[OF c refl t n, where ctx = "()" and m = new_master]
  show ?thesis by (cases "worker_broadcast_cookie sample_conn () ?w 7 ?cs new_master") auto
qed

end
