(* ===== verification/Worker_Pool.thy ===== *)
theory Worker_Pool
  imports Prelude
begin

section \<open>worker/pool.go: the bounded worker pool\<close>

text \<open>
  \<open>WorkerPool\<close>. The job queue is a buffered channel: the list of the jobs not yet received and a
  closed flag. The operations of the channel as the pool uses them are functions that say what a
  goroutine in that place does (proceeds, blocks, panics, leaves the loop). The goroutines, the
  workers and the callers of \<open>Submit\<close> and \<open>Stop\<close>, are a step relation over the bag of calls in
  progress. A job is any value; what it computes is not the pool's concern.
\<close>

subsection \<open>The pool and its channel\<close>

record 'j worker_pool =
  wp_worker_count :: int
  wp_queue :: "'j list"
  wp_closed :: bool
  wp_wg :: int

definition new_worker_pool :: "int \<Rightarrow> 'j worker_pool" where
  "new_worker_pool n =
     (let n1 = (if n \<le> 0 then 1 else n)
      in \<lparr>wp_worker_count = n1, wp_queue = [], wp_closed = False, wp_wg = 0\<rparr>)"

definition pool_capacity :: "'j worker_pool \<Rightarrow> int" where
  "pool_capacity p = wp_worker_count p * 4"

text \<open>\<open>Submit\<close>: a send on the job queue.\<close>

datatype 'j send_outcome = Sent "'j worker_pool" | SendBlocks | SendPanics

definition submit :: "'j \<Rightarrow> 'j worker_pool \<Rightarrow> 'j send_outcome" where
  "submit j p =
     (if wp_closed p then SendPanics
      else if int (length (wp_queue p)) < pool_capacity p then Sent (p\<lparr>wp_queue := wp_queue p @ [j]\<rparr>)
      else SendBlocks)"

text \<open>The head of a worker's loop: a receive that ends the loop once the channel is drained.\<close>

datatype 'j receive_outcome = Received 'j "'j worker_pool" | LoopEnds | ReceiveBlocks

definition next_job :: "'j worker_pool \<Rightarrow> 'j receive_outcome" where
  "next_job p =
     (case wp_queue p of
        j # js \<Rightarrow> Received j (p\<lparr>wp_queue := js\<rparr>)
      | [] \<Rightarrow> if wp_closed p then LoopEnds else ReceiveBlocks)"

text \<open>\<open>Start\<close>: one \<open>wg.Add(1)\<close> and one goroutine per round of its loop.\<close>

datatype 'j pool_call = Submitting 'j | Worker | Running 'j | Waiting | StopReturned | Panicked

fun start_loop :: "nat \<Rightarrow> 'j worker_pool \<Rightarrow> 'j pool_call multiset \<Rightarrow> 'j worker_pool \<times> 'j pool_call multiset" where
  "start_loop 0 p M = (p, M)"
| "start_loop (Suc n) p M = start_loop n (p\<lparr>wp_wg := wp_wg p + 1\<rparr>) (add_mset Worker M)"

definition pool_start :: "'j worker_pool \<Rightarrow> 'j worker_pool \<times> 'j pool_call multiset" where
  "pool_start p = start_loop (nat (wp_worker_count p)) p {#}"

definition wg_done :: "'j worker_pool \<Rightarrow> 'j worker_pool" where
  "wg_done p = p\<lparr>wp_wg := wp_wg p - 1\<rparr>"

text \<open>\<open>close\<close> of the job queue; closing it twice panics.\<close>

definition close_queue :: "'j worker_pool \<Rightarrow> 'j worker_pool option" where
  "close_queue p = (if wp_closed p then None else Some (p\<lparr>wp_closed := True\<rparr>))"

subsection \<open>The goroutines of a pool\<close>

text \<open>
  The history: the jobs accepted by the queue in order, those a worker has taken in order, those
  that have returned.
\<close>

record 'j pool_config =
  pl_pool :: "'j worker_pool"
  pl_calls :: "'j pool_call multiset"
  pl_sent :: "'j list"
  pl_taken :: "'j list"
  pl_finished :: "'j multiset"

inductive pool_step :: "'j pool_config \<Rightarrow> 'j pool_config \<Rightarrow> bool" where
  call_submit: "pool_step c (c\<lparr>pl_calls := add_mset (Submitting j) (pl_calls c)\<rparr>)"
| submit_sends: "\<lbrakk>pl_calls c = add_mset (Submitting j) M; submit j (pl_pool c) = Sent p\<rbrakk> \<Longrightarrow>
     pool_step c (c\<lparr>pl_pool := p, pl_calls := M, pl_sent := pl_sent c @ [j]\<rparr>)"
| submit_panics: "\<lbrakk>pl_calls c = add_mset (Submitting j) M; submit j (pl_pool c) = SendPanics\<rbrakk> \<Longrightarrow>
     pool_step c (c\<lparr>pl_calls := add_mset Panicked M\<rparr>)"
| worker_takes: "\<lbrakk>pl_calls c = add_mset Worker M; next_job (pl_pool c) = Received j p\<rbrakk> \<Longrightarrow>
     pool_step c (c\<lparr>pl_pool := p, pl_calls := add_mset (Running j) M, pl_taken := pl_taken c @ [j]\<rparr>)"
| job_returns: "pl_calls c = add_mset (Running j) M \<Longrightarrow>
     pool_step c (c\<lparr>pl_calls := add_mset Worker M, pl_finished := add_mset j (pl_finished c)\<rparr>)"
| worker_exits: "\<lbrakk>pl_calls c = add_mset Worker M; next_job (pl_pool c) = LoopEnds\<rbrakk> \<Longrightarrow>
     pool_step c (c\<lparr>pl_pool := wg_done (pl_pool c), pl_calls := M\<rparr>)"
| call_stop: "close_queue (pl_pool c) = Some p \<Longrightarrow>
     pool_step c (c\<lparr>pl_pool := p, pl_calls := add_mset Waiting (pl_calls c)\<rparr>)"
| second_stop: "close_queue (pl_pool c) = None \<Longrightarrow>
     pool_step c (c\<lparr>pl_calls := add_mset Panicked (pl_calls c)\<rparr>)"
| stop_returns: "\<lbrakk>pl_calls c = add_mset Waiting M; wp_wg (pl_pool c) = 0\<rbrakk> \<Longrightarrow>
     pool_step c (c\<lparr>pl_calls := add_mset StopReturned M\<rparr>)"

definition pool_new :: "int \<Rightarrow> 'j pool_config" where
  "pool_new n = (let (p, M) = pool_start (new_worker_pool n) in
     \<lparr>pl_pool = p, pl_calls = M, pl_sent = [], pl_taken = [], pl_finished = {#}\<rparr>)"

definition pool_initial :: "'j pool_config \<Rightarrow> bool" where
  "pool_initial c \<longleftrightarrow> (\<exists>n. c = pool_new n)"

subsection \<open>The invariant\<close>

fun is_worker :: "'j pool_call \<Rightarrow> bool" where
  "is_worker Worker = True"
| "is_worker (Running j) = True"
| "is_worker _ = False"

fun is_running :: "'j pool_call \<Rightarrow> bool" where
  "is_running (Running j) = True"
| "is_running _ = False"

fun job_of :: "'j pool_call \<Rightarrow> 'j multiset" where
  "job_of (Running j) = {#j#}"
| "job_of _ = {#}"

definition running_jobs :: "'j pool_call multiset \<Rightarrow> 'j multiset" where
  "running_jobs M = (\<Sum>c \<in># M. job_of c)"

lemma running_jobs_simps [simp, bag_simps]:
  "running_jobs {#} = {#}"
  "running_jobs (add_mset c M) = job_of c + running_jobs M"
  by (simp_all add: running_jobs_def)

lemma running_jobs_size: "size (running_jobs M) = count_if is_running M"
proof (induction M)
  case (add c M)
  then show ?case by (cases c) auto
qed simp

definition pool_inv :: "'j pool_config \<Rightarrow> bool" where
  "pool_inv c \<longleftrightarrow>
     pl_sent c = pl_taken c @ wp_queue (pl_pool c)
     \<and> mset (pl_taken c) = pl_finished c + running_jobs (pl_calls c)
     \<and> int (length (wp_queue (pl_pool c))) \<le> pool_capacity (pl_pool c)
     \<and> 1 \<le> wp_worker_count (pl_pool c)
     \<and> wp_wg (pl_pool c) = int (count_if is_worker (pl_calls c))
     \<and> wp_wg (pl_pool c) \<le> wp_worker_count (pl_pool c)
     \<and> (wp_wg (pl_pool c) < wp_worker_count (pl_pool c) \<longrightarrow>
          wp_closed (pl_pool c) \<and> wp_queue (pl_pool c) = [])
     \<and> (StopReturned \<in># pl_calls c \<longrightarrow> wp_wg (pl_pool c) = 0)
     \<and> (Waiting \<in># pl_calls c \<longrightarrow> wp_closed (pl_pool c))"

lemma start_loop_result:
  "start_loop n p M = (p\<lparr>wp_wg := wp_wg p + int n\<rparr>, replicate_mset n Worker + M)"
  by (induction n p M rule: start_loop.induct) (simp_all add: add_ac)

lemma count_if_replicate: "count_if P (replicate_mset n x) = (if P x then n else 0)"
  by (induction n) auto

lemma running_jobs_replicate: "running_jobs (replicate_mset n Worker) = {#}"
  by (induction n) auto

lemma pool_new_simps:
  "pl_pool (pool_new n) = \<lparr>wp_worker_count = max 1 n, wp_queue = [], wp_closed = False, wp_wg = max 1 n\<rparr>"
  "pl_calls (pool_new n) = replicate_mset (nat (max 1 n)) Worker"
  "pl_sent (pool_new n) = []" "pl_taken (pool_new n) = []" "pl_finished (pool_new n) = {#}"
  by (auto simp: pool_new_def pool_start_def start_loop_result new_worker_pool_def Let_def max_def)

lemma pool_inv_initial: "pool_initial c \<Longrightarrow> pool_inv c"
  by (auto simp: pool_initial_def pool_inv_def pool_new_simps count_if_replicate
      running_jobs_replicate pool_capacity_def in_replicate_mset)

lemma pool_inv_step:
  assumes "pool_step c c'" "pool_inv c"
  shows "pool_inv c'"
  using assms
proof (induction rule: pool_step.induct)
  case (submit_sends c j M p)
  then show ?case
    by (auto simp: pool_inv_def submit_def pool_capacity_def split: if_splits)
next
  case (worker_takes c M j p)
  then show ?case
    by (auto simp: pool_inv_def next_job_def pool_capacity_def split: list.splits if_splits)
next
  case (worker_exits c M)
  then show ?case
    by (auto simp: pool_inv_def next_job_def pool_capacity_def wg_done_def
        split: list.splits if_splits)
qed (auto simp: pool_inv_def close_queue_def pool_capacity_def split: if_splits)

interpretation pool_machine: invariant_machine pool_initial pool_step pool_inv
  by unfold_locales (fact pool_inv_initial, fact pool_inv_step)

lemma count_if_le: "(\<And>x. P x \<Longrightarrow> Q x) \<Longrightarrow> count_if P M \<le> count_if Q M"
  by (rule count_if_mono) auto

lemma running_bound:
  assumes "pool_inv c"
  shows "int (count_if is_running (pl_calls c)) \<le> wp_worker_count (pl_pool c)"
proof -
  have "is_running x \<Longrightarrow> is_worker x" for x :: "'a pool_call" by (cases x) auto
  then have "count_if is_running (pl_calls c) \<le> count_if is_worker (pl_calls c)"
    by (rule count_if_le)
  with assms show ?thesis by (simp add: pool_inv_def)
qed

subsection \<open>Properties\<close>

lemma pool_runs_each_job_facts:
  assumes "reach pool_initial pool_step c"
  shows "pl_sent c = pl_taken c @ wp_queue (pl_pool c)"
    and "mset (pl_taken c) = pl_finished c + running_jobs (pl_calls c)"
    and "StopReturned \<in># pl_calls c \<Longrightarrow> wp_queue (pl_pool c) = [] \<and> running_jobs (pl_calls c) = {#}
         \<and> pl_finished c = mset (pl_sent c)"
proof -
  have inv: "pool_inv c" by (rule pool_machine.reach_inv[OF assms])
  then show "pl_sent c = pl_taken c @ wp_queue (pl_pool c)"
    "mset (pl_taken c) = pl_finished c + running_jobs (pl_calls c)" by (simp_all add: pool_inv_def)
  assume "StopReturned \<in># pl_calls c"
  with inv have "wp_wg (pl_pool c) = 0" "1 \<le> wp_worker_count (pl_pool c)"
    by (auto simp: pool_inv_def)
  then have "wp_queue (pl_pool c) = []" "count_if is_worker (pl_calls c) = 0"
    using inv by (auto simp: pool_inv_def)
  moreover from this(2) have "count_if is_running (pl_calls c) = 0"
    using count_if_le[of is_running is_worker "pl_calls c"] is_worker.simps(2) is_running.elims(2)
    by (metis le_zero_eq)
  then have "running_jobs (pl_calls c) = {#}" by (simp flip: running_jobs_size)
  ultimately show "wp_queue (pl_pool c) = [] \<and> running_jobs (pl_calls c) = {#}
      \<and> pl_finished c = mset (pl_sent c)"
    using inv by (simp add: pool_inv_def)
qed

text \<open>
  C12: Every job the queue accepted is run exactly once. In every reachable state, with any number
  of goroutines submitting and stopping, the jobs the workers have taken are the first of those
  accepted, in that order, the rest are queued, each job taken has returned or is running; and
  once \<open>Stop\<close> has returned, the jobs that have returned are exactly those accepted, with none
  running or queued.
\<close>

theorem pool_runs_each_job_once:
  assumes "reach pool_initial pool_step c"
  shows "pl_sent c = pl_taken c @ wp_queue (pl_pool c)
    \<and> mset (pl_taken c) = pl_finished c + running_jobs (pl_calls c)
    \<and> (StopReturned \<in># pl_calls c \<longrightarrow> wp_queue (pl_pool c) = [] \<and> running_jobs (pl_calls c) = {#}
         \<and> pl_finished c = mset (pl_sent c))"
  using pool_runs_each_job_facts[OF assms] by blast

text \<open>
  The pool is bounded: never more jobs run at once than there are workers, never more wait
  than four per worker, and a request for no or a negative number of workers gives one.
\<close>

theorem pool_bounded:
  assumes "reach (\<lambda>c. c = pool_new n) pool_step c"
  shows "int (count_if is_running (pl_calls c)) \<le> max 1 n
    \<and> int (length (wp_queue (pl_pool c))) \<le> 4 * max 1 n"
proof -
  have "reach pool_initial pool_step c \<and> wp_worker_count (pl_pool c) = max 1 n"
    using assms
  proof (induction rule: reach.induct)
    case (reach_initial c)
    then show ?case by (auto intro!: reach.reach_initial simp: pool_initial_def pool_new_simps)
  next
    case (reach_step c c')
    from reach_step(2) have "wp_worker_count (pl_pool c') = wp_worker_count (pl_pool c)"
      by (cases rule: pool_step.cases)
        (auto simp: submit_def next_job_def wg_done_def close_queue_def split: if_splits list.splits)
    with reach_step show ?case by (auto intro: reach.reach_step)
  qed
  then show ?thesis
    using pool_machine.reach_inv running_bound[of c] by (fastforce simp: pool_inv_def pool_capacity_def)
qed

text \<open>The steps the runtime takes by itself: those that start no new call.\<close>

definition pool_quiet :: "'j pool_config \<Rightarrow> 'j pool_config \<Rightarrow> bool" where
  "pool_quiet c c' \<longleftrightarrow> pool_step c c' \<and> size (pl_calls c') \<le> size (pl_calls c)"

fun call_weight :: "'j pool_call \<Rightarrow> nat" where
  "call_weight (Submitting j) = 4"
| "call_weight Worker = 1"
| "call_weight (Running j) = 3"
| "call_weight Waiting = 1"
| "call_weight _ = 0"

definition pool_measure :: "'j pool_config \<Rightarrow> nat" where
  "pool_measure c = 3 * length (wp_queue (pl_pool c)) + (\<Sum>p \<in># pl_calls c. call_weight p)"

lemma pool_quiet_decreases:
  assumes "pool_quiet c c'"
  shows "pool_measure c' < pool_measure c"
proof -
  from assms have "pool_step c c'" "size (pl_calls c') \<le> size (pl_calls c)"
    by (simp_all add: pool_quiet_def)
  then show ?thesis
    by (cases rule: pool_step.cases)
      (auto simp: pool_measure_def submit_def next_job_def wg_done_def split: if_splits list.splits)
qed

lemma pool_quiet_exists:
  assumes "pool_inv c" "Waiting \<in># pl_calls c"
  shows "\<exists>c'. pool_quiet c c'"
proof -
  from assms have closed: "wp_closed (pl_pool c)" by (simp add: pool_inv_def)
  consider (none) "wp_wg (pl_pool c) = 0" | (idle) "Worker \<in># pl_calls c"
    | (busy) j where "Running j \<in># pl_calls c"
  proof -
    have "(\<exists>q \<in># pl_calls c. is_worker q) \<or> wp_wg (pl_pool c) = 0"
      using assms(1) count_if_pos[of is_worker "pl_calls c"] by (auto simp: pool_inv_def)
    then show ?thesis using none idle busy by (metis is_worker.elims(2))
  qed
  then show ?thesis
  proof cases
    case none
    from assms(2) obtain M where "pl_calls c = add_mset Waiting M" by (metis multi_member_split)
    from stop_returns[OF this none] this show ?thesis by (auto simp: pool_quiet_def)
  next
    case idle
    then obtain M where M: "pl_calls c = add_mset Worker M" by (metis multi_member_split)
    show ?thesis
    proof (cases "wp_queue (pl_pool c)")
      case Nil
      then have "next_job (pl_pool c) = LoopEnds" using closed by (simp add: next_job_def)
      from worker_exits[OF M this] M show ?thesis by (auto simp: pool_quiet_def)
    next
      case (Cons j js)
      then have "next_job (pl_pool c) = Received j ((pl_pool c)\<lparr>wp_queue := js\<rparr>)"
        by (simp add: next_job_def)
      from worker_takes[OF M this] M show ?thesis by (force simp: pool_quiet_def)
    qed
  next
    case busy
    then obtain M where M: "pl_calls c = add_mset (Running j) M" by (metis multi_member_split)
    from job_returns[OF M] M show ?thesis by (force simp: pool_quiet_def)
  qed
qed

lemma pool_quiet_inv: "(pool_quiet ^^ k) c c' \<Longrightarrow> pool_inv c \<Longrightarrow> pool_inv c'"
  by (induction k arbitrary: c') (auto simp: pool_quiet_def intro: pool_inv_step)

lemma pool_quiet_bound: "(pool_quiet ^^ k) c c' \<Longrightarrow> k + pool_measure c' \<le> pool_measure c"
  by (induction k arbitrary: c') (fastforce dest: pool_quiet_decreases)+

text \<open>
  C13: \<open>Stop\<close> returns if the jobs do. Once it waits, a step of some worker (or its own return) is
  enabled as long as it still waits, whatever has happened since, and no schedule has more than
  a fixed number of such steps.
\<close>

theorem pool_stop_returns:
  assumes "reach pool_initial pool_step c" and "(pool_quiet ^^ k) c c'"
  shows "k \<le> pool_measure c \<and> (Waiting \<in># pl_calls c' \<longrightarrow> (\<exists>c''. pool_quiet c' c''))"
  using pool_quiet_bound[OF assms(2)] pool_quiet_exists
    pool_quiet_inv[OF assms(2) pool_machine.reach_inv[OF assms(1)]] by auto

text \<open>A run for the witnesses: one worker, one job, one \<open>Stop\<close>.\<close>

definition one_job :: "nat pool_config" where
  "one_job = \<lparr>pl_pool = \<lparr>wp_worker_count = 1, wp_queue = [], wp_closed = True, wp_wg = 0\<rparr>,
     pl_calls = {#StopReturned#}, pl_sent = [7], pl_taken = [7], pl_finished = {#7#}\<rparr>"

lemma one_job_steps:
  defines "at \<equiv> (\<lambda>q cl wg calls sent taken fin. \<lparr>pl_pool = \<lparr>wp_worker_count = 1, wp_queue = q,
     wp_closed = cl, wp_wg = wg\<rparr>, pl_calls = calls, pl_sent = sent, pl_taken = taken,
     pl_finished = fin\<rparr> :: nat pool_config)"
  shows "reach (\<lambda>c. c = pool_new 0) pool_step (at [7] True 1 {#Waiting, Worker#} [7] [] {#})"
    and "(pool_quiet ^^ 4) (at [7] True 1 {#Waiting, Worker#} [7] [] {#}) one_job"
proof -
  let ?I = "reach (\<lambda>c. c = pool_new 0) pool_step"
  have "pool_new 0 = at [] False 1 {#Worker#} [] [] {#}"
    by (rule pool_config.equality) (simp_all add: pool_new_simps at_def)
  then have "?I (at [] False 1 {#Worker#} [] [] {#})" by (metis reach_initial)
  from reach_step[OF this call_submit[of _ 7]]
  have "?I (at [] False 1 {#Submitting 7, Worker#} [] [] {#})" by (simp add: at_def)
  from reach_step[OF this submit_sends[of _ 7 "{#Worker#}"]]
  have "?I (at [7] False 1 {#Worker#} [7] [] {#})" by (simp add: at_def submit_def pool_capacity_def)
  from reach_step[OF this call_stop]
  show "?I (at [7] True 1 {#Waiting, Worker#} [7] [] {#})" by (simp add: at_def close_queue_def)
  have 1: "pool_quiet (at [7] True 1 {#Waiting, Worker#} [7] [] {#})
      (at [] True 1 {#Waiting, Running 7#} [7] [7] {#})"
    using worker_takes[of "at [7] True 1 {#Waiting, Worker#} [7] [] {#}" "{#Waiting#}" 7]
    by (simp add: pool_quiet_def at_def next_job_def add_mset_commute)
  have 2: "pool_quiet (at [] True 1 {#Waiting, Running 7#} [7] [7] {#})
      (at [] True 1 {#Waiting, Worker#} [7] [7] {#7#})"
    using job_returns[of "at [] True 1 {#Waiting, Running 7#} [7] [7] {#}" 7 "{#Waiting#}"]
    by (simp add: pool_quiet_def at_def add_mset_commute)
  have 3: "pool_quiet (at [] True 1 {#Waiting, Worker#} [7] [7] {#7#})
      (at [] True 0 {#Waiting#} [7] [7] {#7#})"
    using worker_exits[of "at [] True 1 {#Waiting, Worker#} [7] [7] {#7#}" "{#Waiting#}"]
    by (simp add: pool_quiet_def at_def add_mset_commute next_job_def wg_done_def)
  have 4: "pool_quiet (at [] True 0 {#Waiting#} [7] [7] {#7#}) one_job"
    using stop_returns[of "at [] True 0 {#Waiting#} [7] [7] {#7#}" "{#}"]
    by (simp add: pool_quiet_def at_def one_job_def)
  show "(pool_quiet ^^ 4) (at [7] True 1 {#Waiting, Worker#} [7] [] {#}) one_job"
    using 1 2 3 4 by (auto simp: numeral_eq_Suc intro!: relcomppI)
qed

lemma one_job_reach: "reach (\<lambda>c. c = pool_new 0) pool_step one_job"
proof -
  have "pool_step\<^sup>*\<^sup>* c c'" if "(pool_quiet ^^ k) c c'" for k and c c' :: "nat pool_config"
  proof -
    have "pool_quiet \<le> (pool_step :: nat pool_config \<Rightarrow> _)" by (auto simp: pool_quiet_def)
    from rtranclp_mono[OF this] relpowp_imp_rtranclp[OF that] show ?thesis by blast
  qed
  from reach_trans[OF this[OF one_job_steps(2)] one_job_steps(1)] show ?thesis .
qed

lemma pool_reach_initial:
  "reach (\<lambda>c. c = pool_new n) pool_step c \<Longrightarrow> reach pool_initial pool_step c"
  by (induction rule: reach.induct) (auto simp: pool_initial_def intro: reach.intros)

theorem pool_runs_each_job_once_witness:
  "StopReturned \<in># pl_calls one_job \<and> pl_finished one_job = mset [7]"
  using pool_runs_each_job_once[OF pool_reach_initial[OF one_job_reach]] by (simp add: one_job_def)

theorem pool_bounded_witness:
  "int (count_if is_running (pl_calls one_job)) \<le> 1 \<and> wp_worker_count (pl_pool one_job) = 1"
  using pool_bounded[OF one_job_reach] by (simp add: one_job_def)

theorem pool_stop_returns_witness:
  "\<exists>c. reach pool_initial pool_step c \<and> Waiting \<in># pl_calls c \<and> (pool_quiet ^^ 4) c one_job
     \<and> 4 \<le> pool_measure c"
  using one_job_steps pool_stop_returns[OF pool_reach_initial[OF one_job_steps(1)] one_job_steps(2)]
    pool_reach_initial[OF one_job_steps(1)] by (intro exI conjI) (assumption | simp)+

end
