(* ===== verification/Proxy.thy ===== *)
theory Proxy
  imports Go_Strings
begin

section \<open>proxy/proxy.go: loading and rotating proxies\<close>

text \<open>
  \<open>ProxyManager\<close>. A file is what opening and reading it gives: an error, or its bytes and the error
  that ended the reading, if any; the errors are those of the system, which package \<open>os\<close> returns with
  the operation and the path. Every method runs under the mutex, so the calls of concurrent
  goroutines are some sequence of calls; indexing out of range, a panic, is None. \<open>quote\<close> is the
  verb \<open>%q\<close>.
\<close>

record proxy_manager =
  pm_proxies :: "gostring list"
  pm_index :: nat

definition new_proxy_manager :: proxy_manager where
  "new_proxy_manager = \<lparr>pm_proxies = [], pm_index = 0\<rparr>"

type_synonym text_file = "goerror + gostring \<times> goerror option"

fun keep_proxies :: "gostring list \<Rightarrow> gostring list" where
  "keep_proxies [] = []"
| "keep_proxies (t # ts) =
     (let line = trim_space t in
      if line = [] \<or> is_prefix ''#'' line then keep_proxies ts else line # keep_proxies ts)"

definition path_error :: "gostring \<Rightarrow> gostring \<Rightarrow> goerror \<Rightarrow> goerror" where
  "path_error op path e = op @ '' '' @ path @ '': '' @ e"

definition load_proxies ::
  "(gostring \<Rightarrow> gostring) \<Rightarrow> gostring \<Rightarrow> text_file \<Rightarrow> proxy_manager \<Rightarrow> goerror option \<times> proxy_manager" where
  "load_proxies quote filename input pm =
     (case input of
        Inl e \<Rightarrow> (Some (''proxy: open '' @ quote filename @ '': '' @ path_error ''open'' filename e), pm)
      | Inr (data, read_err) \<Rightarrow>
          (let (toks, scan_err) = scan_lines data;
               loaded = keep_proxies toks;
               err = (case scan_err of Some e \<Rightarrow> Some e | None \<Rightarrow> map_option (path_error ''read'' filename) read_err)
           in case err of
                Some e \<Rightarrow> (Some (''proxy: read '' @ quote filename @ '': '' @ e), pm)
              | None \<Rightarrow> (None, pm\<lparr>pm_proxies := loaded, pm_index := 0\<rparr>)))"

definition get_next_proxy :: "proxy_manager \<Rightarrow> (gostring \<times> proxy_manager) option" where
  "get_next_proxy pm =
     (if length (pm_proxies pm) = 0 then Some ([], pm)
      else if pm_index pm < length (pm_proxies pm)
      then Some (pm_proxies pm ! pm_index pm,
                 pm\<lparr>pm_index := (pm_index pm + 1) mod length (pm_proxies pm)\<rparr>)
      else None)"

definition proxy_count :: "proxy_manager \<Rightarrow> nat" where
  "proxy_count pm = length (pm_proxies pm)"

subsection \<open>The rotation\<close>

definition proxy_ok :: "proxy_manager \<Rightarrow> bool" where
  "proxy_ok pm \<longleftrightarrow> pm_proxies pm = [] \<or> pm_index pm < length (pm_proxies pm)"

fun draw :: "nat \<Rightarrow> proxy_manager \<Rightarrow> (gostring list \<times> proxy_manager) option" where
  "draw 0 pm = Some ([], pm)"
| "draw (Suc n) pm =
     (case get_next_proxy pm of
        None \<Rightarrow> None
      | Some (p, pm1) \<Rightarrow> (case draw n pm1 of None \<Rightarrow> None | Some (ps, pm2) \<Rightarrow> Some (p # ps, pm2)))"

lemma proxy_ok_new: "proxy_ok new_proxy_manager"
  by (simp add: proxy_ok_def new_proxy_manager_def)

lemma get_next_proxy_ok:
  assumes "proxy_ok pm"
  obtains p pm' where "get_next_proxy pm = Some (p, pm')" "proxy_ok pm'"
    "pm_proxies pm' = pm_proxies pm"
    "pm_proxies pm \<noteq> [] \<Longrightarrow> p = pm_proxies pm ! pm_index pm
       \<and> pm_index pm' = (pm_index pm + 1) mod length (pm_proxies pm)"
    "pm_proxies pm = [] \<Longrightarrow> p = [] \<and> pm' = pm"
proof (cases "pm_proxies pm = []")
  case True
  with assms show ?thesis by (intro that[of "[]" pm]) (auto simp: get_next_proxy_def)
next
  case False
  with assms show ?thesis
    by (intro that[of "pm_proxies pm ! pm_index pm"
          "pm\<lparr>pm_index := (pm_index pm + 1) mod length (pm_proxies pm)\<rparr>"])
      (auto simp: get_next_proxy_def proxy_ok_def)
qed

lemma load_proxies_ok: "proxy_ok pm \<Longrightarrow> proxy_ok (snd (load_proxies quote filename f pm))"
  by (auto simp: load_proxies_def proxy_ok_def Let_def split: sum.split prod.split option.split)

lemma draw_ok:
  assumes "proxy_ok pm"
  shows "\<exists>ps pm'. draw n pm = Some (ps, pm') \<and> proxy_ok pm' \<and> pm_proxies pm' = pm_proxies pm
    \<and> ps = (if pm_proxies pm = [] then replicate n []
            else map (\<lambda>k. pm_proxies pm ! ((pm_index pm + k) mod length (pm_proxies pm))) [0..<n])
    \<and> (pm_proxies pm \<noteq> [] \<longrightarrow> pm_index pm' = (pm_index pm + n) mod length (pm_proxies pm))"
  using assms
proof (induction n arbitrary: pm)
  case 0
  then show ?case by (auto simp: proxy_ok_def)
next
  case (Suc n)
  obtain p pm1 where 1: "get_next_proxy pm = Some (p, pm1)" "proxy_ok pm1"
    "pm_proxies pm1 = pm_proxies pm"
    "pm_proxies pm \<noteq> [] \<Longrightarrow> p = pm_proxies pm ! pm_index pm
       \<and> pm_index pm1 = (pm_index pm + 1) mod length (pm_proxies pm)"
    "pm_proxies pm = [] \<Longrightarrow> p = [] \<and> pm1 = pm"
    using get_next_proxy_ok[OF Suc.prems] by metis
  from Suc.IH[OF 1(2)] obtain ps pm2 where 2: "draw n pm1 = Some (ps, pm2)" "proxy_ok pm2"
    "pm_proxies pm2 = pm_proxies pm1"
    "ps = (if pm_proxies pm1 = [] then replicate n []
        else map (\<lambda>k. pm_proxies pm1 ! ((pm_index pm1 + k) mod length (pm_proxies pm1))) [0..<n])"
    "pm_proxies pm1 \<noteq> [] \<Longrightarrow> pm_index pm2 = (pm_index pm1 + n) mod length (pm_proxies pm1)"
    by blast
  show ?case
  proof (cases "pm_proxies pm = []")
    case True
    with 1 2 show ?thesis by simp
  next
    case False
    then have "pm_index pm < length (pm_proxies pm)" using Suc.prems by (simp add: proxy_ok_def)
    then have "p # ps =
        map (\<lambda>k. pm_proxies pm ! ((pm_index pm + k) mod length (pm_proxies pm))) [0..<Suc n]"
      using 1 2 False by (simp add: map_upt_Suc mod_simps del: upt_Suc)
    with 1 2 False show ?thesis by (simp add: mod_simps)
  qed
qed

text \<open>How often a position comes up in so many rounds of a rotation.\<close>

lemma rotation_count:
  assumes "0 < (m::nat)" "i < m"
  shows "count_list (map (\<lambda>k. k mod m) [0..<n]) i = n div m + (if i < n mod m then 1 else 0)"
proof (induction n)
  case (Suc n)
  then show ?case
    using assms by (auto simp: div_Suc mod_Suc)
qed simp

lemma count_list_map_inj:
  "inj_on f (insert x (set xs)) \<Longrightarrow> count_list (map f xs) (f x) = count_list xs x"
  by (induction xs) (auto simp: inj_on_def)

lemma keep_proxies_filter:
  "keep_proxies ts = filter (\<lambda>t. t \<noteq> [] \<and> \<not> is_prefix ''#'' t) (map trim_space ts)"
  by (induction ts) (simp_all add: Let_def)

text \<open>A file by its lines and a last line without a line end, empty if there is none.\<close>

definition file_of_lines :: "gostring list \<Rightarrow> gostring \<Rightarrow> text_file" where
  "file_of_lines ls r = Inr (concat (map (\<lambda>l. l @ [newline]) ls) @ r, None)"

definition proxies_of_lines :: "gostring list \<Rightarrow> gostring list" where
  "proxies_of_lines ls = filter (\<lambda>t. t \<noteq> [] \<and> \<not> is_prefix ''#'' t) (map (\<lambda>l. trim_space (drop_cr l)) ls)"

lemma load_proxies_lines:
  assumes "\<forall>l \<in> set (ls @ [r]). newline \<notin> set l \<and> length l < max_token"
  shows "load_proxies quote filename (file_of_lines ls r) pm0 =
    (None, pm0\<lparr>pm_proxies := proxies_of_lines (ls @ [r]), pm_index := 0\<rparr>)"
proof -
  have "trim_space (drop_cr []) = []" by code_simp
  then have "keep_proxies (map drop_cr ls @ (if r = [] then [] else [drop_cr r])) = proxies_of_lines (ls @ [r])"
    by (simp add: keep_proxies_filter proxies_of_lines_def comp_def)
  with assms show ?thesis by (simp add: load_proxies_def file_of_lines_def scan_lines_rest Let_def)
qed

text \<open>
  C36: From the file to the calls. A file whose lines are shorter than 65536 bytes is loaded, whatever was
  loaded before, as its lines in their order, without white space at both ends, less those that are then
  empty or begin with a hash sign. Concurrent callers of \<open>GetNextProxy\<close> then get, call by call, these
  proxies in this order, over and over, or without any the empty string; no call panics; and when the
  proxies are distinct, after any number of calls any two of them have been handed out equally often, up to one.
\<close>

theorem proxy_round_robin:
  assumes "\<forall>l \<in> set (ls @ [r]). newline \<notin> set l \<and> length l < 65536"
    and "load_proxies quote filename (file_of_lines ls r) pm0 = (err, pm)"
  shows "err = None \<and> (\<exists>ps pm'. draw n pm = Some (ps, pm')
    \<and> (let P = filter (\<lambda>t. t \<noteq> [] \<and> \<not> is_prefix ''#'' t) (map (\<lambda>l. trim_space (drop_cr l)) (ls @ [r])) in
        ps = (if P = [] then replicate n [] else map (\<lambda>k. P ! (k mod length P)) [0..<n])
        \<and> (distinct P \<longrightarrow> (\<forall>p \<in> set P. count_list ps p \<in> {n div length P, n div length P + 1}))))"
proof -
  let ?P = "proxies_of_lines (ls @ [r])" let ?m = "length ?P"
  have pm: "err = None" "pm = pm0\<lparr>pm_proxies := ?P, pm_index := 0\<rparr>"
    using load_proxies_lines[of ls r quote filename pm0] assms by (simp_all add: max_token_def)
  then have "proxy_ok pm" by (simp add: proxy_ok_def)
  from draw_ok[OF this, of n] obtain ps pm' where d: "draw n pm = Some (ps, pm')"
    "ps = (if ?P = [] then replicate n [] else map (\<lambda>k. ?P ! (k mod ?m)) [0..<n])"
    using pm(2) by auto
  have "count_list ps p \<in> {n div ?m, n div ?m + 1}" if dist: "distinct ?P" and p: "p \<in> set ?P" for p
  proof -
    from p obtain i where i: "i < ?m" "p = ?P ! i" by (metis in_set_conv_nth)
    then have ne: "?P \<noteq> []" by auto
    have "ps = map ((!) ?P) (map (\<lambda>k. k mod ?m) [0..<n])" using ne by (simp add: d(2))
    moreover have "inj_on ((!) ?P) (insert i (set (map (\<lambda>k. k mod ?m) [0..<n])))"
      using dist i(1) ne by (intro inj_on_nth) auto
    ultimately have "count_list ps p = count_list (map (\<lambda>k. k mod ?m) [0..<n]) i"
      using count_list_map_inj i(2) by metis
    with rotation_count[of ?m i n] i(1) ne show ?thesis by (auto split: if_splits)
  qed
  with pm(1) d show ?thesis by (auto simp: Let_def proxies_of_lines_def)
qed

text \<open>A file with a comment, an empty line, white space, and a last line without a line end.\<close>

theorem proxy_round_robin_witness:
  "\<exists>pm'. draw 3 (snd (load_proxies id ''p'' (file_of_lines [''# list'', ''  h1:80 '', []] ''h2:80'') new_proxy_manager)) =
     Some ([''h1:80'', ''h2:80'', ''h1:80''], pm')"
proof -
  let ?ls = "[''# list'', ''  h1:80 '', []]"
  have short: "\<forall>l \<in> set (?ls @ [''h2:80'']). newline \<notin> set l \<and> length l < 65536" by (simp add: newline_def)
  have "trim_space ''# list'' = ''# list''" "trim_space ''  h1:80 '' = ''h1:80''"
    "trim_space [] = []" "trim_space ''h2:80'' = ''h2:80''"
    by (simp_all add: trim_space_def trim_left_def trim_right_def space_encodings_def is_prefix_def)
  then have p: "filter (\<lambda>t. t \<noteq> [] \<and> \<not> is_prefix ''#'' t) (map (\<lambda>l. trim_space (drop_cr l)) (?ls @ [''h2:80''])) = [''h1:80'', ''h2:80'']"
    by (simp add: drop_cr_def is_prefix_def)
  show ?thesis
    using proxy_round_robin[OF short prod.collapse[symmetric], of id "''p''" new_proxy_manager 3]
    unfolding Let_def p by (auto simp: upt_rec)
qed

end
