(* ===== verification/Http_Headers.thy ===== *)
theory Http_Headers
  imports Go_Strings
begin

section \<open>client/ordered_header.go and the header handling of client/h2_transport.go\<close>

text \<open>
  \<open>OrderedHeader\<close> (a list of entries with their spelling), \<open>http.Header\<close> (a map from spellings to
  lists of values, with the operations of \<open>net/http\<close> the program calls) and \<open>RoundTrip\<close> of the
  Chrome transport. Both header types are stores whose keys count up to \<open>http.CanonicalHeaderKey\<close>;
  the locale states that contract once.
\<close>

subsection \<open>Stores keyed up to a canonical form\<close>

locale canonical_store =
  fixes canon :: "'k \<Rightarrow> 'c" and lookup :: "'s \<Rightarrow> 'k \<Rightarrow> 'v option" and store :: "'k \<Rightarrow> 'v \<Rightarrow> 's \<Rightarrow> 's"
  assumes lookup_store: "lookup (store k v s) k' = (if canon k' = canon k then Some v else lookup s k')"
begin

lemma lookup_store_all:
  "lookup (fold (\<lambda>(k, v). store k v) kvs s) k =
     (case find (\<lambda>(k', v). canon k' = canon k) (rev kvs) of
        Some (k', v) \<Rightarrow> Some v | None \<Rightarrow> lookup s k)"
proof (induction kvs rule: rev_induct)
  case (snoc kv kvs)
  then show ?case by (cases kv) (auto simp: lookup_store split: option.splits)
qed simp

text \<open>When no two keys share a canonical form, the order of the writes does not matter.\<close>

lemma lookup_store_distinct:
  assumes "distinct (map (canon \<circ> fst) kvs)" "(k, v) \<in> set kvs" "canon k' = canon k"
  shows "lookup (fold (\<lambda>(k, v). store k v) kvs s) k' = Some v"
proof -
  from assms have "find (\<lambda>(k'', v). canon k'' = canon k') (rev kvs) = Some (k, v)"
  proof (induction kvs rule: rev_induct)
    case (snoc x xs)
    then show ?case by (cases x) (force simp: image_iff)
  qed simp
  then show ?thesis by (simp add: lookup_store_all)
qed

lemma lookup_store_none:
  assumes "\<forall>(k', v) \<in> set kvs. canon k' \<noteq> canon k"
  shows "lookup (fold (\<lambda>(k, v). store k v) kvs s) k = lookup s k"
proof -
  have "find (\<lambda>(k', v). canon k' = canon k) (rev kvs) = None"
    using assms by (auto simp: find_None_iff)
  then show ?thesis by (simp add: lookup_store_all)
qed

end

subsection \<open>http.Header\<close>

type_synonym http_header = "gostring \<rightharpoonup> gostring list"

definition header_set :: "gostring \<Rightarrow> gostring \<Rightarrow> http_header \<Rightarrow> http_header" where
  "header_set k v h = h(canonical_key k \<mapsto> [v])"

definition header_first :: "http_header \<Rightarrow> gostring \<Rightarrow> gostring option" where
  "header_first h k = (case h (canonical_key k) of Some (v # vs) \<Rightarrow> Some v | _ \<Rightarrow> None)"

definition header_get :: "http_header \<Rightarrow> gostring \<Rightarrow> gostring" where
  "header_get h k = (case header_first h k of Some v \<Rightarrow> v | None \<Rightarrow> [])"

interpretation http_header: canonical_store canonical_key header_first header_set
  by unfold_locales (simp add: header_first_def header_set_def)

subsection \<open>OrderedHeader\<close>

record header_entry =
  he_key :: gostring
  he_value :: gostring

record ordered_header =
  oh_entries :: "header_entry list"

definition oh_new :: ordered_header where
  "oh_new = \<lparr>oh_entries = []\<rparr>"

definition oh_add :: "gostring \<Rightarrow> gostring \<Rightarrow> ordered_header \<Rightarrow> ordered_header" where
  "oh_add k v h = h\<lparr>oh_entries := oh_entries h @ [\<lparr>he_key = k, he_value = v\<rparr>]\<rparr>"

text \<open>The loop of \<open>Set\<close>, with its flag, and what is left to append after it.\<close>

fun oh_set_loop :: "gostring \<Rightarrow> gostring \<Rightarrow> bool \<Rightarrow> header_entry list \<Rightarrow> header_entry list \<times> bool" where
  "oh_set_loop k v replaced [] = ([], replaced)"
| "oh_set_loop k v replaced (e # es) =
     (if canonical_key (he_key e) = canonical_key k then
        (if \<not> replaced then
           (let (out, r) = oh_set_loop k v True es in (\<lparr>he_key = k, he_value = v\<rparr> # out, r))
         else oh_set_loop k v replaced es)
      else (let (out, r) = oh_set_loop k v replaced es in (e # out, r)))"

definition oh_set :: "gostring \<Rightarrow> gostring \<Rightarrow> ordered_header \<Rightarrow> ordered_header" where
  "oh_set k v h =
     (let (out, replaced) = oh_set_loop k v False (oh_entries h)
      in h\<lparr>oh_entries := (if \<not> replaced then out @ [\<lparr>he_key = k, he_value = v\<rparr>] else out)\<rparr>)"

fun oh_del_loop :: "gostring \<Rightarrow> header_entry list \<Rightarrow> header_entry list" where
  "oh_del_loop k [] = []"
| "oh_del_loop k (e # es) =
     (if canonical_key (he_key e) \<noteq> canonical_key k then e # oh_del_loop k es else oh_del_loop k es)"

definition oh_del :: "gostring \<Rightarrow> ordered_header \<Rightarrow> ordered_header" where
  "oh_del k h = h\<lparr>oh_entries := oh_del_loop k (oh_entries h)\<rparr>"

fun oh_get_loop :: "gostring \<Rightarrow> header_entry list \<Rightarrow> gostring" where
  "oh_get_loop k [] = []"
| "oh_get_loop k (e # es) =
     (if canonical_key (he_key e) = canonical_key k then he_value e else oh_get_loop k es)"

definition oh_get :: "gostring \<Rightarrow> ordered_header \<Rightarrow> gostring" where
  "oh_get k h = oh_get_loop k (oh_entries h)"

definition oh_len :: "ordered_header \<Rightarrow> nat" where
  "oh_len h = length (oh_entries h)"

definition oh_clone :: "ordered_header \<Rightarrow> ordered_header" where
  "oh_clone h = \<lparr>oh_entries = oh_entries h\<rparr>"

text \<open>The loop of \<open>ApplyToRequest\<close> and \<open>ToHTTPHeader\<close>: appending to a fresh map, keys as spelled.\<close>

definition values_at :: "http_header \<Rightarrow> gostring \<Rightarrow> gostring list" where
  "values_at h k = (case h k of None \<Rightarrow> [] | Some vs \<Rightarrow> vs)"

fun oh_fill :: "header_entry list \<Rightarrow> http_header \<Rightarrow> http_header" where
  "oh_fill [] out = out"
| "oh_fill (e # es) out = oh_fill es (out(he_key e \<mapsto> values_at out (he_key e) @ [he_value e]))"

definition apply_to_request :: "ordered_header \<Rightarrow> http_header \<Rightarrow> http_header" where
  "apply_to_request h req = oh_fill (oh_entries h) Map.empty"

definition to_http_header :: "ordered_header \<Rightarrow> http_header" where
  "to_http_header h = oh_fill (oh_entries h) Map.empty"

definition chrome_ordered_headers :: ordered_header where
  "chrome_ordered_headers =
     (let h = oh_new;
          h = oh_add ''sec-ch-ua''
            ''\"Not_A Brand\";v=\"8\", \"Chromium\";v=\"120\", \"Google Chrome\";v=\"120\"'' h;
          h = oh_add ''sec-ch-ua-mobile''
            ''?0'' h;
          h = oh_add ''sec-ch-ua-platform''
            ''\"Windows\"'' h;
          h = oh_add ''Upgrade-Insecure-Requests''
            ''1'' h;
          h = oh_add ''User-Agent''
            ''Mozilla/5.0 (Windows NT 10.0; Win64; x64) AppleWebKit/537.36 (KHTML, like Gecko) Chrome/120.0.0.0 Safari/537.36'' h;
          h = oh_add ''Accept''
            ''text/html,application/xhtml+xml,application/xml;q=0.9,image/avif,image/webp,image/apng,*/*;q=0.8,application/signed-exchange;v=b3;q=0.7'' h;
          h = oh_add ''sec-fetch-site''
            ''none'' h;
          h = oh_add ''sec-fetch-mode''
            ''navigate'' h;
          h = oh_add ''sec-fetch-user''
            ''?1'' h;
          h = oh_add ''sec-fetch-dest''
            ''document'' h;
          h = oh_add ''accept-encoding''
            ''gzip, deflate, br'' h;
          h = oh_add ''accept-language''
            ''en-US,en;q=0.9'' h
      in h)"

subsection \<open>RoundTrip of the Chrome transport\<close>

text \<open>
  The request's headers, seen in the order the loop over the caller's map visits them; the
  transport behind it is an argument.
\<close>

fun overlay_values :: "gostring \<Rightarrow> gostring list \<Rightarrow> http_header \<Rightarrow> http_header" where
  "overlay_values k [] h = h"
| "overlay_values k (v # vs) h = overlay_values k vs (h(k \<mapsto> values_at h k @ [v]))"

fun overlay :: "(gostring \<times> gostring list) list \<Rightarrow> http_header \<Rightarrow> http_header" where
  "overlay [] h = h"
| "overlay ((k, vs) # kvs) h = overlay kvs (overlay_values k vs h)"

definition chrome_round_trip ::
  "(http_header \<Rightarrow> 'r) \<Rightarrow> (gostring \<times> gostring list) list \<Rightarrow> http_header \<Rightarrow> 'r" where
  "chrome_round_trip h2 order req =
     (let callers = order; base = apply_to_request chrome_ordered_headers req
      in h2 (overlay callers base))"

subsection \<open>Lemmas\<close>

abbreviation same_key :: "gostring \<Rightarrow> header_entry \<Rightarrow> bool" where
  "same_key k e \<equiv> canonical_key (he_key e) = canonical_key k"

abbreviation other_key :: "gostring \<Rightarrow> header_entry \<Rightarrow> bool" where
  "other_key k e \<equiv> canonical_key (he_key e) \<noteq> canonical_key k"

lemma oh_set_loop_done: "oh_set_loop k v True es = (filter (other_key k) es, True)"
  by (induction es) auto

lemma oh_set_loop_first:
  "oh_set_loop k v False es =
     (if \<exists>e \<in> set es. same_key k e
      then (takeWhile (other_key k) es @ \<lparr>he_key = k, he_value = v\<rparr> # filter (other_key k) (dropWhile (other_key k) es), True)
      else (es, False))"
  by (induction es) (auto simp: oh_set_loop_done)

lemma oh_set_entries:
  "oh_entries (oh_set k v h) =
     takeWhile (other_key k) (oh_entries h) @ \<lparr>he_key = k, he_value = v\<rparr>
       # filter (other_key k) (dropWhile (other_key k) (oh_entries h))"
proof (cases "\<exists>e \<in> set (oh_entries h). same_key k e")
  case False
  then have "takeWhile (other_key k) (oh_entries h) = oh_entries h"
    "dropWhile (other_key k) (oh_entries h) = []"
    by (auto simp: takeWhile_eq_all_conv)
  then have "takeWhile (other_key k) (oh_entries h) @ \<lparr>he_key = k, he_value = v\<rparr>
      # filter (other_key k) (dropWhile (other_key k) (oh_entries h)) =
      oh_entries h @ [\<lparr>he_key = k, he_value = v\<rparr>]" by (simp only: filter.simps)
  with False show ?thesis by (simp add: oh_set_def oh_set_loop_first)
qed (simp add: oh_set_def oh_set_loop_first)

lemma oh_del_loop_filter: "oh_del_loop k es = filter (other_key k) es"
  by (induction es) auto

lemma oh_get_loop_find:
  "oh_get_loop k es = (case find (same_key k) es of None \<Rightarrow> [] | Some e \<Rightarrow> he_value e)"
  by (induction es) auto

definition oh_first :: "ordered_header \<Rightarrow> gostring \<Rightarrow> gostring option" where
  "oh_first h k = map_option he_value (find (same_key k) (oh_entries h))"

lemma oh_get_first: "oh_get k h = (case oh_first h k of None \<Rightarrow> [] | Some v \<Rightarrow> v)"
  by (simp add: oh_get_def oh_get_loop_find oh_first_def split: option.split)

lemma find_append: "find P (xs @ ys) = (case find P xs of Some x \<Rightarrow> Some x | None \<Rightarrow> find P ys)"
  by (induction xs) auto

lemma find_filter_other:
  "canonical_key k' \<noteq> canonical_key k \<Longrightarrow> find (same_key k') (filter (other_key k) es) = find (same_key k') es"
  by (induction es) auto

lemma find_split_other:
  assumes "canonical_key k' \<noteq> canonical_key k"
  shows "find (same_key k') (takeWhile (other_key k) es @ e # filter (other_key k) (dropWhile (other_key k) es)) =
    (if same_key k e then find (same_key k') es
     else find (same_key k') (takeWhile (other_key k) es @ e # filter (other_key k) (dropWhile (other_key k) es)))"
  using assms by (induction es) (auto simp: find_filter_other)

interpretation ordered: canonical_store canonical_key oh_first oh_set
proof
  fix k v k' and s :: ordered_header
  show "oh_first (oh_set k v s) k' =
      (if canonical_key k' = canonical_key k then Some v else oh_first s k')"
  proof (cases "canonical_key k' = canonical_key k")
    case True
    then have "find (same_key k') (takeWhile (other_key k) (oh_entries s)) = None"
      by (auto simp: find_None_iff dest: set_takeWhileD)
    with True show ?thesis by (simp add: oh_first_def oh_set_entries find_append)
  next
    case False
    then have "canonical_key k' \<noteq> canonical_key k" by simp
    from find_split_other[OF this, of "oh_entries s" "\<lparr>he_key = k, he_value = v\<rparr>"] False
    show ?thesis by (simp add: oh_first_def oh_set_entries)
  qed
qed

lemma values_at_upd [simp]: "values_at (h(k \<mapsto> vs)) k' = (if k' = k then vs else values_at h k')"
  by (simp add: values_at_def)

lemma values_at_empty [simp]: "values_at Map.empty k = []"
  by (simp add: values_at_def)

lemma oh_fill_values:
  "values_at (oh_fill es out) k = values_at out k @ map he_value (filter (\<lambda>e. he_key e = k) es)"
  by (induction es arbitrary: out) auto

lemma overlay_values_at:
  "values_at (overlay_values k vs h) k' = values_at h k' @ (if k' = k then vs else [])"
  by (induction vs arbitrary: h) auto

lemma overlay_at:
  "values_at (overlay kvs h) k = values_at h k @ concat (map snd (filter (\<lambda>(k', vs). k' = k) kvs))"
  by (induction kvs h rule: overlay.induct) (auto simp: overlay_values_at)

lemma enumerates_filter:
  assumes "enumerates m xs"
  shows "filter (\<lambda>(k', v). k' = k) xs = (case m k of None \<Rightarrow> [] | Some v \<Rightarrow> [(k, v)])"
proof -
  have "distinct (map fst xs) \<Longrightarrow>
      filter (\<lambda>(k', v). k' = k) xs = (case map_of xs k of None \<Rightarrow> [] | Some v \<Rightarrow> [(k, v)])" for xs :: "('a \<times> 'b) list"
  proof (induction xs)
    case (Cons x xs)
    obtain k' v where x: "x = (k', v)" by (cases x)
    show ?case
    proof (cases "k' = k")
      case True
      with Cons.prems x have "map_of xs k = None" by (simp add: map_of_eq_None_iff)
      with Cons True x show ?thesis by simp
    qed (use Cons x in simp)
  qed simp
  with assms show ?thesis by (simp add: enumerates_def)
qed

subsection \<open>Properties\<close>

text \<open>
  C34: \<open>OrderedHeader.Set\<close> and \<open>Del\<close>. After Set there is exactly one entry with the key, spelled as
  given, in the place of the first one there was (at the end if there was none); the entries of
  other keys keep their spelling, value and order; Get finds the new value under every spelling
  of the key and the old one under any other key. After Del, Get finds nothing and the others are
  untouched.
\<close>

theorem ordered_header_set_del:
  "takeWhile (other_key k) (oh_entries (oh_set k v h)) = takeWhile (other_key k) (oh_entries h)
   \<and> filter (same_key k) (oh_entries (oh_set k v h)) = [\<lparr>he_key = k, he_value = v\<rparr>]
   \<and> filter (other_key k) (oh_entries (oh_set k v h)) = filter (other_key k) (oh_entries h)
   \<and> oh_get k' (oh_set k v h) = (if canonical_key k' = canonical_key k then v else oh_get k' h)
   \<and> oh_get k' (oh_del k h) = (if canonical_key k' = canonical_key k then [] else oh_get k' h)
   \<and> oh_entries (oh_del k h) = filter (other_key k) (oh_entries h)"
proof -
  let ?es = "oh_entries h"
  have split: "?es = takeWhile (other_key k) ?es @ dropWhile (other_key k) ?es" by simp
  have "filter (other_key k) (takeWhile (other_key k) ?es) = takeWhile (other_key k) ?es"
    "filter (same_key k) (takeWhile (other_key k) ?es) = []"
    "takeWhile (other_key k) (takeWhile (other_key k) ?es) = takeWhile (other_key k) ?es"
    by (auto simp: filter_id_conv filter_empty_conv takeWhile_eq_all_conv dest: set_takeWhileD)
  moreover have "filter (other_key k) ?es =
      takeWhile (other_key k) ?es @ filter (other_key k) (dropWhile (other_key k) ?es)"
    using calculation(1) split by (metis filter_append)
  ultimately have
    "takeWhile (other_key k) (oh_entries (oh_set k v h)) = takeWhile (other_key k) ?es"
    "filter (same_key k) (oh_entries (oh_set k v h)) = [\<lparr>he_key = k, he_value = v\<rparr>]"
    "filter (other_key k) (oh_entries (oh_set k v h)) = filter (other_key k) ?es"
    by (simp_all add: oh_set_entries takeWhile_append2 takeWhile_tail filter_empty_conv)
  moreover have "oh_get k' (oh_del k h) = (if canonical_key k' = canonical_key k then [] else oh_get k' h)"
  proof (cases "canonical_key k' = canonical_key k")
    case True
    then have "find (same_key k') (filter (other_key k) ?es) = None" by (auto simp: find_None_iff)
    with True show ?thesis by (simp add: oh_get_def oh_del_def oh_get_loop_find oh_del_loop_filter)
  qed (simp add: oh_get_def oh_del_def oh_get_loop_find oh_del_loop_filter find_filter_other)
  ultimately show ?thesis
    by (simp add: oh_get_first ordered.lookup_store oh_del_def oh_del_loop_filter)
qed

text \<open>
  Spelling and multiplicity reach the request: under every key, as spelled, the request built
  by \<open>ApplyToRequest\<close> has the values of the entries with exactly that spelling, in order, and
  nothing of what it had before; the same map is what \<open>ToHTTPHeader\<close> returns.
\<close>

theorem apply_to_request_spec:
  "values_at (apply_to_request h req) k = map he_value (filter (\<lambda>e. he_key e = k) (oh_entries h))
   \<and> (apply_to_request h req k = None \<longleftrightarrow> k \<notin> he_key ` set (oh_entries h))
   \<and> to_http_header h = apply_to_request h req"
proof -
  have "oh_fill es out k = None \<longleftrightarrow> out k = None \<and> k \<notin> he_key ` set es" for es out
    by (induction es arbitrary: out) auto
  then show ?thesis
    by (simp add: apply_to_request_def to_http_header_def oh_fill_values)
qed

text \<open>
  C35: \<open>RoundTrip\<close> sends, under every key, the Chrome defaults followed by the caller's own values,
  in whatever order the caller's headers are visited; so for a header Chrome has too, such as
  User-Agent, the default is sent first and a reader of the first value never sees the caller's.
\<close>

theorem round_trip_appends:
  assumes "enumerates req order"
  shows "values_at (chrome_round_trip (\<lambda>r. r) order req) k =
      values_at (to_http_header chrome_ordered_headers) k @ values_at req k
    \<and> header_get (chrome_round_trip (\<lambda>r. r) order req) ''User-Agent'' =
      oh_get ''User-Agent'' chrome_ordered_headers"
proof -
  let ?r = "chrome_round_trip (\<lambda>r. r) order req"
  have vals: "values_at ?r k = values_at (to_http_header chrome_ordered_headers) k @ values_at req k" for k
    by (simp add: chrome_round_trip_def overlay_at apply_to_request_def to_http_header_def
        enumerates_filter[OF assms] values_at_def[of req] split: option.split)
  have ua: "canonical_key ''User-Agent'' = ''User-Agent''" by code_simp
  have "values_at (to_http_header chrome_ordered_headers) ''User-Agent'' =
      [oh_get ''User-Agent'' chrome_ordered_headers]"
    by code_simp
  with vals[of "''User-Agent''"] have "values_at ?r ''User-Agent'' =
      oh_get ''User-Agent'' chrome_ordered_headers # values_at req ''User-Agent''" by simp
  then have "?r ''User-Agent'' =
      Some (oh_get ''User-Agent'' chrome_ordered_headers # values_at req ''User-Agent'')"
    by (simp add: values_at_def split: option.splits)
  then have "header_get ?r ''User-Agent'' = oh_get ''User-Agent'' chrome_ordered_headers"
    by (simp add: header_get_def header_first_def ua)
  with vals show ?thesis by simp
qed

theorem round_trip_appends_witness:
  "values_at (chrome_round_trip (\<lambda>r. r) [(''User-Agent'', [''custom''])] [''User-Agent'' \<mapsto> [''custom'']])
     ''User-Agent'' = [oh_get ''User-Agent'' chrome_ordered_headers, ''custom'']"
proof -
  have "enumerates [''User-Agent'' \<mapsto> [''custom'']] [(''User-Agent'', [''custom''])]"
    by (simp add: enumerates_def)
  moreover have "values_at (to_http_header chrome_ordered_headers) ''User-Agent'' =
      [oh_get ''User-Agent'' chrome_ordered_headers]" by code_simp
  ultimately show ?thesis
    using round_trip_appends[of "[''User-Agent'' \<mapsto> [''custom'']]"
        "[(''User-Agent'', [''custom''])]" "''User-Agent''"]
    by (simp add: values_at_def[of "[''User-Agent'' \<mapsto> [''custom'']]"])
qed

end
