(* ===== verification/Http_Client.thy ===== *)
theory Http_Client
  imports Http_Headers
begin

section \<open>client/client.go, client/tls_dialer.go and client/h2_transport.go: building clients\<close>

text \<open>
  The constructors of HTTP clients and transports as records of the fields they set, and the uTLS
  dialer with what it does to the connections it opens. Parsing a proxy URL, dialling, and the
  uTLS library (the presets, the handshake) are arguments; durations are nanoseconds; \<open>quote\<close> is
  the verb \<open>%q\<close>.
\<close>

subsection \<open>Transports and clients\<close>

record transport_defaults =
  td_max_idle_conns :: int
  td_max_idle_conns_per_host :: int
  td_max_conns_per_host :: int

definition default_transport :: transport_defaults where
  "default_transport = \<lparr>td_max_idle_conns = 500, td_max_idle_conns_per_host = 100,
     td_max_conns_per_host = 200\<rparr>"

definition second :: int where
  "second = 1000000000"

record ('u, 'h) transport =
  tr_disable_keep_alives :: bool
  tr_max_idle_conns :: int
  tr_max_idle_conns_per_host :: int
  tr_max_conns_per_host :: int
  tr_idle_conn_timeout :: int
  tr_tls_handshake_timeout :: int
  tr_expect_continue_timeout :: int
  tr_proxy :: "'u option"
  tr_dial_tls :: "'h option"
  tr_idle_closed :: bool

record ('u, 'h, 'j) http_client =
  cl_transport :: "('u, 'h) transport"
  cl_jar :: 'j
  cl_timeout :: int

definition bare_transport :: "('u, 'h) transport" where
  "bare_transport =
     \<lparr>tr_disable_keep_alives = False,
       tr_max_idle_conns = td_max_idle_conns default_transport,
       tr_max_idle_conns_per_host = td_max_idle_conns_per_host default_transport,
       tr_max_conns_per_host = td_max_conns_per_host default_transport,
       tr_idle_conn_timeout = 90 * second, tr_tls_handshake_timeout = 10 * second,
       tr_expect_continue_timeout = 1 * second, tr_proxy = None, tr_dial_tls = None,
       tr_idle_closed = False\<rparr>"

definition build_transport ::
  "(gostring \<Rightarrow> gostring) \<Rightarrow> (gostring \<Rightarrow> goerror + 'u) \<Rightarrow> gostring \<Rightarrow> goerror + ('u, 'h) transport" where
  "build_transport quote url_parse proxy =
     (let t = bare_transport in
      if proxy \<noteq> [] then
        (case url_parse proxy of
           Inl e \<Rightarrow> Inl (''client: parse proxy URL '' @ quote proxy @ '': '' @ e)
         | Inr u \<Rightarrow> Inr (t\<lparr>tr_proxy := Some u\<rparr>))
      else Inr t)"

definition build_transport_with_tls ::
  "(gostring \<Rightarrow> gostring) \<Rightarrow> (gostring \<Rightarrow> goerror + 'u) \<Rightarrow> gostring \<Rightarrow> 'h \<Rightarrow> goerror + ('u, 'h) transport" where
  "build_transport_with_tls quote url_parse proxy hello =
     (let t = bare_transport in
      if proxy \<noteq> [] then
        (case url_parse proxy of
           Inl e \<Rightarrow> Inl (''client: parse proxy URL '' @ quote proxy @ '': '' @ e)
         | Inr u \<Rightarrow> Inr (t\<lparr>tr_proxy := Some u, tr_dial_tls := Some hello\<rparr>))
      else Inr (t\<lparr>tr_dial_tls := Some hello\<rparr>))"

text \<open>\<open>cookiejar.New\<close> is an argument; the same outcome feeds both constructors.\<close>

definition client_cookie_jar :: "goerror + 'j \<Rightarrow> goerror + 'j" where
  "client_cookie_jar new_jar = (case new_jar of Inl e \<Rightarrow> Inl e | Inr jar \<Rightarrow> Inr jar)"

definition new_http_client ::
  "(gostring \<Rightarrow> gostring) \<Rightarrow> (gostring \<Rightarrow> goerror + 'u) \<Rightarrow> goerror + 'j \<Rightarrow> gostring \<Rightarrow> int \<Rightarrow> goerror + ('u, 'h, 'j) http_client" where
  "new_http_client quote url_parse new_jar proxy timeout =
     (case build_transport quote url_parse proxy of
        Inl e \<Rightarrow> Inl e
      | Inr t \<Rightarrow>
          (case client_cookie_jar new_jar of
             Inl e \<Rightarrow> Inl (''client: create cookie jar: '' @ e)
           | Inr jar \<Rightarrow> Inr \<lparr>cl_transport = t, cl_jar = jar, cl_timeout = timeout\<rparr>))"

definition new_http_client_with_tls ::
  "(gostring \<Rightarrow> gostring) \<Rightarrow> (gostring \<Rightarrow> goerror + 'u) \<Rightarrow> goerror + 'j \<Rightarrow> gostring \<Rightarrow> int \<Rightarrow> 'h
   \<Rightarrow> goerror + ('u, 'h, 'j) http_client" where
  "new_http_client_with_tls quote url_parse new_jar proxy timeout hello =
     (case build_transport_with_tls quote url_parse proxy hello of
        Inl e \<Rightarrow> Inl e
      | Inr t \<Rightarrow>
          (case client_cookie_jar new_jar of
             Inl e \<Rightarrow> Inl (''client: create cookie jar: '' @ e)
           | Inr jar \<Rightarrow> Inr \<lparr>cl_transport = t, cl_jar = jar, cl_timeout = timeout\<rparr>))"

definition close_idle_connections :: "('u, 'h, 'j) http_client \<Rightarrow> ('u, 'h, 'j) http_client" where
  "close_idle_connections c = c\<lparr>cl_transport := (cl_transport c)\<lparr>tr_idle_closed := True\<rparr>\<rparr>"

subsection \<open>The uTLS dialer\<close>

text \<open>\<open>net.SplitHostPort\<close>, for the host it returns.\<close>

definition index_of :: "char \<Rightarrow> gostring \<Rightarrow> nat option" where
  "index_of c s = (if c \<in> set s then Some (length (takeWhile (\<lambda>d. d \<noteq> c) s)) else None)"

definition last_index_of :: "char \<Rightarrow> gostring \<Rightarrow> nat option" where
  "last_index_of c s =
     (if c \<in> set s then Some (length s - 1 - length (takeWhile (\<lambda>d. d \<noteq> c) (rev s))) else None)"

definition addr_error :: "gostring \<Rightarrow> gostring \<Rightarrow> goerror" where
  "addr_error addr why = (if addr \<noteq> [] then ''address '' @ addr @ '': '' @ why else why)"

definition check_brackets :: "gostring \<Rightarrow> nat \<Rightarrow> nat \<Rightarrow> gostring \<Rightarrow> nat \<Rightarrow> goerror + gostring \<times> gostring" where
  "check_brackets s j k host i =
     (if CHR ''['' \<in> set (drop j s) then Inl (addr_error s ''unexpected '[' in address'')
      else if CHR '']'' \<in> set (drop k s) then Inl (addr_error s ''unexpected ']' in address'')
      else Inr (host, drop (i + 1) s))"

definition split_host_port :: "gostring \<Rightarrow> goerror + gostring \<times> gostring" where
  "split_host_port s =
     (case last_index_of CHR '':'' s of
        None \<Rightarrow> Inl (addr_error s ''missing port in address'')
      | Some i \<Rightarrow>
          if s ! 0 = CHR ''['' then
            (case index_of CHR '']'' s of
               None \<Rightarrow> Inl (addr_error s ''missing ']' in address'')
             | Some e \<Rightarrow>
                 if e + 1 = length s then Inl (addr_error s ''missing port in address'')
                 else if e + 1 = i then check_brackets s 1 (e + 1) (take (e - 1) (drop 1 s)) i
                 else if s ! (e + 1) = CHR '':'' then Inl (addr_error s ''too many colons in address'')
                 else Inl (addr_error s ''missing port in address''))
          else if CHR '':'' \<in> set (take i s) then Inl (addr_error s ''too many colons in address'')
          else check_brackets s 0 0 (take i s) i)"

text \<open>
  The dialer's library calls, and what it does to connections: it opens the raw one, wraps it, and
  on a failure closes one of the two (closing the wrapper closes the raw connection under it).
\<close>

record 'h dial_env =
  de_dial :: "gostring \<Rightarrow> goerror + unit"
  de_id_to_spec :: "'h \<Rightarrow> goerror + nat"
  de_is_chrome :: "'h \<Rightarrow> bool"
  de_apply_preset :: "nat option \<Rightarrow> goerror option"
  de_str :: "'h \<Rightarrow> gostring"
  de_handshake :: "gostring \<Rightarrow> bool \<Rightarrow> goerror option"

record tls_config =
  tc_server_name :: gostring
  tc_insecure_skip_verify :: bool

datatype conn_event = OpenRaw | CloseRaw | CloseWrapped

text \<open>None is the empty spec, which leaves the choice to uTLS.\<close>

definition build_client_hello_spec :: "'h dial_env \<Rightarrow> 'h \<Rightarrow> nat option" where
  "build_client_hello_spec env hello =
     (if de_is_chrome env hello then
        (case de_id_to_spec env hello of Inr spec \<Rightarrow> Some spec | Inl e \<Rightarrow> None)
      else None)"

record dialed =
  dl_sni :: gostring
  dl_insecure :: bool
  dl_spec :: "nat option"

definition utls_dialer ::
  "(gostring \<Rightarrow> gostring) \<Rightarrow> 'h dial_env \<Rightarrow> 'h \<Rightarrow> gostring \<Rightarrow> tls_config option \<Rightarrow> (goerror + dialed) \<times> conn_event list" where
  "utls_dialer quote env hello addr cfg =
     (case split_host_port addr of
        Inl e \<Rightarrow> (Inl (''utls dialer: parse addr '' @ quote addr @ '': '' @ e), [])
      | Inr (host, port) \<Rightarrow>
          (let sni = (case cfg of
                        Some c \<Rightarrow> if tc_server_name c \<noteq> [] then tc_server_name c else host
                      | None \<Rightarrow> host);
               insecure = (case cfg of Some c \<Rightarrow> tc_insecure_skip_verify c | None \<Rightarrow> False)
           in case de_dial env addr of
                Inl e \<Rightarrow> (Inl (''utls dialer: dial '' @ addr @ '': '' @ e), [])
              | Inr _ \<Rightarrow>
                  (let spec = build_client_hello_spec env hello in
                   case de_apply_preset env spec of
                     Some e \<Rightarrow> (Inl (''utls dialer: apply preset for '' @ de_str env hello @ '': '' @ e), [OpenRaw, CloseRaw])
                   | None \<Rightarrow>
                       (case de_handshake env sni insecure of
                          Some e \<Rightarrow> (Inl (''utls dialer: TLS handshake with '' @ addr @ '': '' @ e), [OpenRaw, CloseWrapped])
                        | None \<Rightarrow> (Inr \<lparr>dl_sni = sni, dl_insecure = insecure, dl_spec = spec\<rparr>, [OpenRaw])))))"

definition utls_dialer_http1 ::
  "(gostring \<Rightarrow> gostring) \<Rightarrow> 'h dial_env \<Rightarrow> 'h \<Rightarrow> gostring \<Rightarrow> (goerror + dialed) \<times> conn_event list" where
  "utls_dialer_http1 quote env hello addr = utls_dialer quote env hello addr None"

subsection \<open>The HTTP/2 transport\<close>

text \<open>The SETTINGS values of Chrome 120 that reach the transport.\<close>

definition chrome120_h2_header_table_size :: int where
  "chrome120_h2_header_table_size = 65536"

definition chrome120_h2_max_header_list_size :: int where
  "chrome120_h2_max_header_list_size = 262144"

record 'h h2_config =
  hc2_hello :: "'h option"
  hc2_idle_conn_timeout :: int
  hc2_ping_timeout :: int
  hc2_read_idle_timeout :: int

record 'h h2_transport =
  h2_dial_hello :: 'h
  h2_max_decoder_table :: int
  h2_max_encoder_table :: int
  h2_max_header_list :: int
  h2_disable_compression :: bool
  h2_idle_conn_timeout :: int
  h2_ping_timeout :: int
  h2_read_idle_timeout :: int

text \<open>A missing hello id is the zero value; the default is the library's Chrome 120.\<close>

definition new_chrome120_h2_transport :: "'h \<Rightarrow> 'h h2_config \<Rightarrow> 'h h2_transport" where
  "new_chrome120_h2_transport chrome120 cfg =
     (let hello = (case hc2_hello cfg of None \<Rightarrow> chrome120 | Some h \<Rightarrow> h);
          idle = (if hc2_idle_conn_timeout cfg = 0 then 90 * second else hc2_idle_conn_timeout cfg)
      in \<lparr>h2_dial_hello = hello, h2_max_decoder_table = chrome120_h2_header_table_size,
           h2_max_encoder_table = chrome120_h2_header_table_size,
           h2_max_header_list = chrome120_h2_max_header_list_size, h2_disable_compression = False,
           h2_idle_conn_timeout = idle, h2_ping_timeout = hc2_ping_timeout cfg,
           h2_read_idle_timeout = hc2_read_idle_timeout cfg\<rparr>)"

subsection \<open>Lemmas\<close>

lemma new_http_client_cases:
  "new_http_client quote url_parse new_jar proxy timeout =
     (case (if proxy = [] then Inr None else map_sum id Some (url_parse proxy)) of
        Inl e \<Rightarrow> Inl (''client: parse proxy URL '' @ quote proxy @ '': '' @ e)
      | Inr u \<Rightarrow> (case new_jar of Inl e \<Rightarrow> Inl (''client: create cookie jar: '' @ e)
          | Inr j \<Rightarrow> Inr \<lparr>cl_transport = bare_transport\<lparr>tr_proxy := u\<rparr>, cl_jar = j, cl_timeout = timeout\<rparr>))"
  by (auto simp: new_http_client_def client_cookie_jar_def build_transport_def Let_def bare_transport_def split: sum.split)

definition open_conns :: "conn_event list \<Rightarrow> int" where
  "open_conns es = int (count_list es OpenRaw) - int (count_list es CloseRaw) - int (count_list es CloseWrapped)"

text \<open>
  The uTLS dialer leaks no connection: a failed call leaves no connection open, whichever step
  failed, and a successful one leaves exactly one, whose SNI is the configured server name when
  there is one and the host of the address otherwise.
\<close>

theorem utls_dialer_no_leak:
  "(case utls_dialer quote env hello addr cfg of
      (Inl e, evs) \<Rightarrow> open_conns evs = 0
    | (Inr d, evs) \<Rightarrow> open_conns evs = 1
        \<and> Inr (dl_sni d) = (case cfg of
             Some c \<Rightarrow> if tc_server_name c \<noteq> [] then Inr (tc_server_name c)
                       else map_sum id fst (split_host_port addr)
           | None \<Rightarrow> map_sum id fst (split_host_port addr))
        \<and> dl_insecure d = (case cfg of Some c \<Rightarrow> tc_insecure_skip_verify c | None \<Rightarrow> False)
        \<and> (dl_spec d = None \<or> Inr (the (dl_spec d)) = de_id_to_spec env hello))"
  by (auto simp: utls_dialer_def open_conns_def build_client_hello_spec_def Let_def
      split: sum.splits option.splits prod.splits if_splits)

end
