(* ===== verification/Session.thy ===== *)
theory Session
  imports Proxy Http_Client
begin

section \<open>session/session.go, session/manager.go and config/config.go: sessions and their manager\<close>

text \<open>
  A session is an object others keep pointers to, so sessions live in a heap and the manager maps
  ids to addresses. The goroutines of \<open>CreateSessions\<close> differ only in the order in which they draw
  a proxy and in which their results are received; both orders are arguments. Loops over the map
  of sessions take its iteration order. URL parsing and the cookie jar are arguments, as in
  \<open>Http_Client\<close>; so is what sending a request gives.
\<close>

subsection \<open>Configuration\<close>

record config =
  cf_number_of_sessions :: int
  cf_request_timeout :: int
  cf_max_retries :: int
  cf_target_url :: gostring
  cf_proxy_file :: gostring
  cf_max_idle_conns :: int
  cf_max_idle_conns_per_host :: int
  cf_max_conns_per_host :: int

definition default_config :: config where
  "default_config =
     \<lparr>cf_number_of_sessions = 500, cf_request_timeout = 30 * second, cf_max_retries = 3,
       cf_target_url = [], cf_proxy_file = [], cf_max_idle_conns = 500,
       cf_max_idle_conns_per_host = 100, cf_max_conns_per_host = 200\<rparr>"

subsection \<open>A session\<close>

type_synonym sref = nat

record ('u, 'h, 'j) session =
  ss_id :: int
  ss_client :: "('u, 'h, 'j) http_client"
  ss_cookie_jar :: 'j
  ss_proxy :: gostring
  ss_headers :: "gostring \<rightharpoonup> gostring"
  ss_state :: gostring
  ss_created_at :: gotime
  ss_last_activity :: gotime

record ('u, 'h, 'j) session_heap =
  sh_mem :: "sref \<Rightarrow> ('u, 'h, 'j) session"
  sh_next :: sref

record ('u, 'j) session_env =
  se_url_parse :: "gostring \<Rightarrow> goerror + 'u"
  se_new_jar :: "goerror + 'j"
  se_now :: gotime

definition new_session ::
  "(gostring \<Rightarrow> gostring) \<Rightarrow> ('u, 'j) session_env \<Rightarrow> int \<Rightarrow> gostring \<Rightarrow> config option \<Rightarrow> ('u, 'h, 'j) session_heap
   \<Rightarrow> (goerror + sref) \<times> ('u, 'h, 'j) session_heap" where
  "new_session quote env sid proxy cfg h =
     (case cfg of
        None \<Rightarrow> (Inl (''session '' @ decimal sid @ '': config must not be nil''), h)
      | Some c \<Rightarrow>
          (case new_http_client quote (se_url_parse env) (se_new_jar env) proxy (cf_request_timeout c) of
             Inl e \<Rightarrow> (Inl (''session '' @ decimal sid @ '': create HTTP client: '' @ e), h)
           | Inr cl \<Rightarrow>
               (Inr (sh_next h),
                \<lparr>sh_mem = (sh_mem h)(sh_next h := \<lparr>ss_id = sid, ss_client = cl, ss_cookie_jar = cl_jar cl,
                   ss_proxy = proxy,
                   ss_headers = Map.empty, ss_state = ''idle'', ss_created_at = se_now env,
                   ss_last_activity = se_now env\<rparr>),
                 sh_next = Suc (sh_next h)\<rparr>)))"

definition update_last_activity :: "gotime \<Rightarrow> ('u, 'h, 'j) session \<Rightarrow> ('u, 'h, 'j) session" where
  "update_last_activity now s = s\<lparr>ss_last_activity := now\<rparr>"

definition session_close :: "('u, 'h, 'j) session \<Rightarrow> ('u, 'h, 'j) session" where
  "session_close s = (s\<lparr>ss_state := ''closed''\<rparr>)\<lparr>ss_client := close_idle_connections (ss_client s)\<rparr>"

text \<open>
  \<open>http.NewRequest\<close> gives an error or a request with an empty header; \<open>do_request\<close> is \<open>Client.Do\<close>, given the
  method, the URL, the body and the header of the request.
\<close>

fun set_headers :: "(gostring \<times> gostring) list \<Rightarrow> http_header \<Rightarrow> http_header" where
  "set_headers [] h = h"
| "set_headers ((k, v) # kvs) h = set_headers kvs (header_set k v h)"

definition execute_request ::
  "(gostring \<Rightarrow> gostring \<Rightarrow> 'b \<Rightarrow> goerror option) \<Rightarrow> (gostring \<Rightarrow> gostring \<Rightarrow> 'b \<Rightarrow> http_header \<Rightarrow> goerror + 'r)
   \<Rightarrow> (gostring \<times> gostring) list \<Rightarrow> gotime \<Rightarrow> gostring \<Rightarrow> gostring \<Rightarrow> 'b \<Rightarrow> ('u, 'h, 'j) session
   \<Rightarrow> (goerror + 'r) \<times> ('u, 'h, 'j) session" where
  "execute_request new_request do_request order now meth target_url body s =
     (case new_request meth target_url body of
        Some e \<Rightarrow> (Inl (''session '' @ decimal (ss_id s) @ '': build request: '' @ e), s)
      | None \<Rightarrow>
          (let header = set_headers order Map.empty in
           case do_request meth target_url body header of
             Inl e \<Rightarrow> (Inl (''session '' @ decimal (ss_id s) @ '': execute '' @ meth @ '' '' @ target_url @ '': '' @ e), s)
           | Inr resp \<Rightarrow> (Inr resp, update_last_activity now s)))"

subsection \<open>The session manager\<close>

record session_manager =
  mg_sessions :: "int \<rightharpoonup> sref"
  mg_config :: "config option"

definition new_session_manager :: "config option \<Rightarrow> session_manager" where
  "new_session_manager cfg = \<lparr>mg_sessions = Map.empty, mg_config = cfg\<rparr>"

definition manager_put :: "int \<Rightarrow> sref \<Rightarrow> session_manager \<Rightarrow> session_manager" where
  "manager_put i r sm = sm\<lparr>mg_sessions := (mg_sessions sm)(i \<mapsto> r)\<rparr>"

text \<open>The goroutines, in the order they draw their proxy (None: a panic of \<open>GetNextProxy\<close>).\<close>

fun spawn_sessions ::
  "(gostring \<Rightarrow> gostring) \<Rightarrow> ('u, 'j) session_env \<Rightarrow> config option \<Rightarrow> int list \<Rightarrow> proxy_manager option \<Rightarrow> ('u, 'h, 'j) session_heap
   \<Rightarrow> ((int \<times> (goerror + sref)) list \<times> proxy_manager option \<times> ('u, 'h, 'j) session_heap) option" where
  "spawn_sessions quote env cfg [] pm h = Some ([], pm, h)"
| "spawn_sessions quote env cfg (sid # ids) pm h =
     (case (case pm of None \<Rightarrow> Some ([], None)
            | Some m \<Rightarrow> map_option (\<lambda>(p, m'). (p, Some m')) (get_next_proxy m)) of
        None \<Rightarrow> None
      | Some (p, pm1) \<Rightarrow>
          (let (r, h1) = new_session quote env sid p cfg h in
           case spawn_sessions quote env cfg ids pm1 h1 of
             None \<Rightarrow> None
           | Some (rs, pm2, h2) \<Rightarrow> Some ((sid, r) # rs, pm2, h2)))"

text \<open>The loop that receives the results, under the lock.\<close>

fun collect :: "(int \<times> (goerror + sref)) list \<Rightarrow> session_manager \<Rightarrow> goerror list \<times> session_manager" where
  "collect [] sm = ([], sm)"
| "collect ((sid, Inl e) # rs) sm = (let (es, sm1) = collect rs sm in (e # es, sm1))"
| "collect ((sid, Inr r) # rs) sm = collect rs (manager_put sid r sm)"

datatype create_outcome = CreateOk | CreateFailed nat goerror

text \<open>
  \<open>received\<close> picks the order of the results; a negative count makes the channel of results panic
  (None, with no state: the process is gone).
\<close>

definition create_sessions ::
  "(gostring \<Rightarrow> gostring) \<Rightarrow> ('u, 'j) session_env \<Rightarrow> int list \<Rightarrow> ((int \<times> (goerror + sref)) list \<Rightarrow> (int \<times> (goerror + sref)) list)
   \<Rightarrow> int \<Rightarrow> proxy_manager option \<Rightarrow> session_manager \<Rightarrow> ('u, 'h, 'j) session_heap
   \<Rightarrow> (create_outcome \<times> proxy_manager option \<times> session_manager \<times> ('u, 'h, 'j) session_heap) option" where
  "create_sessions quote env draws received cnt pm sm h =
     (if cnt < 0 then None
      else
        (case spawn_sessions quote env (mg_config sm) draws pm h of
           None \<Rightarrow> None
         | Some (results, pm1, h1) \<Rightarrow>
             (let (errs, sm1) = collect (received results) sm in
              case errs of
                e # es \<Rightarrow> Some (CreateFailed (length errs) e, pm1, sm1, h1)
              | [] \<Rightarrow> Some (CreateOk, pm1, sm1, h1))))"

definition get_session :: "int \<Rightarrow> session_manager \<Rightarrow> sref option" where
  "get_session sid sm = mg_sessions sm sid"

definition session_count :: "session_manager \<Rightarrow> int" where
  "session_count sm = int (card (dom (mg_sessions sm)))"

fun start_all :: "(int \<times> sref) list \<Rightarrow> ('u, 'h, 'j) session_heap \<Rightarrow> ('u, 'h, 'j) session_heap" where
  "start_all [] h = h"
| "start_all ((sid, r) # rs) h =
     start_all rs
       (if ss_state (sh_mem h r) = ''idle''
        then h\<lparr>sh_mem := (sh_mem h)(r := (sh_mem h r)\<lparr>ss_state := ''active''\<rparr>)\<rparr> else h)"

fun stop_all ::
  "(int \<times> sref) list \<Rightarrow> session_manager \<Rightarrow> ('u, 'h, 'j) session_heap
   \<Rightarrow> session_manager \<times> ('u, 'h, 'j) session_heap" where
  "stop_all [] sm h = (sm, h)"
| "stop_all ((sid, r) # rs) sm h =
     stop_all rs (sm\<lparr>mg_sessions := (mg_sessions sm)(sid := None)\<rparr>)
       (h\<lparr>sh_mem := (sh_mem h)(r := session_close (sh_mem h r))\<rparr>)"

subsection \<open>What the goroutines of CreateSessions produce\<close>

definition client_fails :: "('u, 'j) session_env \<Rightarrow> gostring \<Rightarrow> bool" where
  "client_fails env p \<longleftrightarrow>
     (p \<noteq> [] \<and> (\<exists>e. se_url_parse env p = Inl e)) \<or> (\<exists>e. se_new_jar env = Inl e)"

fun oks :: "(int \<times> (goerror + sref)) list \<Rightarrow> (int \<times> sref) list" where
  "oks [] = []"
| "oks ((i, Inl e) # rs) = oks rs"
| "oks ((i, Inr r) # rs) = (i, r) # oks rs"

fun failures :: "(int \<times> (goerror + sref)) list \<Rightarrow> goerror list" where
  "failures [] = []"
| "failures ((i, Inl e) # rs) = e # failures rs"
| "failures ((i, Inr r) # rs) = failures rs"

interpretation manager_kv: keyed_store mg_sessions manager_put
  by unfold_locales (simp add: manager_put_def)

lemma collect_fold: "collect rs sm = (failures rs, fold (\<lambda>(i, r). manager_put i r) (oks rs) sm)"
  by (induction rs sm rule: collect.induct) auto

lemma oks_set: "(i, r) \<in> set (oks rs) \<longleftrightarrow> (i, Inr r) \<in> set rs"
  by (induction rs rule: oks.induct) auto

lemma oks_alt: "oks rs = map (\<lambda>(i, r). (i, projr r)) (filter (\<lambda>(i, r). \<not> isl r) rs)"
  by (induction rs rule: oks.induct) auto

lemma oks_mset: "mset rs = mset rs' \<Longrightarrow> mset (oks rs) = mset (oks rs')"
  by (simp add: oks_alt mset_filter)

lemma oks_distinct: "distinct (map fst rs) \<Longrightarrow> distinct (map fst (oks rs))"
  by (induction rs rule: oks.induct) (force simp: oks_set)+

lemma oks_failures_length: "length (oks rs) + length (failures rs) = length rs"
  by (induction rs rule: oks.induct) auto

definition client_of ::
  "(gostring \<Rightarrow> gostring) \<Rightarrow> ('u, 'j) session_env \<Rightarrow> config \<Rightarrow> gostring \<Rightarrow> goerror + ('u, 'h, 'j) http_client" where
  "client_of quote env c p = new_http_client quote (se_url_parse env) (se_new_jar env) p (cf_request_timeout c)"

lemma client_of_fails: "(\<exists>e. client_of quote env c p = Inl e) \<longleftrightarrow> client_fails env p"
  by (cases "se_url_parse env p"; cases "se_new_jar env")
    (auto simp: client_of_def client_fails_def new_http_client_cases)

lemma new_session_cases:
  fixes h :: "('u, 'h, 'j) session_heap" and env :: "('u, 'j) session_env"
  obtains (bad) e where "client_fails env p" "new_session quote env i p (Some c) h = (Inl e, h)"
    | (good) h' where "\<not> client_fails env p" "new_session quote env i p (Some c) h = (Inr (sh_next h), h')"
      "sh_next h' = Suc (sh_next h)" "\<And>r. r < sh_next h \<Longrightarrow> sh_mem h' r = sh_mem h r"
      "ss_id (sh_mem h' (sh_next h)) = i" "ss_state (sh_mem h' (sh_next h)) = ''idle''"
      "ss_proxy (sh_mem h' (sh_next h)) = p"
proof (cases "client_of quote env c p :: goerror + ('u, 'h, 'j) http_client")
  case (Inl e)
  with client_of_fails[of quote env c p] have "client_fails env p" by metis
  with Inl show ?thesis by (intro bad) (auto simp: new_session_def client_of_def)
next
  case (Inr cl)
  with client_of_fails[of quote env c p] have "\<not> client_fails env p" by (metis sum.simps(4))
  with Inr show ?thesis 
    by (intro good[of "snd (new_session quote env i p (Some c) h)"]) (auto simp: new_session_def client_of_def)
qed

text \<open>What the spawned goroutines give, for the proxies they draw.\<close>

lemma spawn_sessions_spec:
  assumes "proxy_ok m"
  shows "\<exists>ps m' rs h'. spawn_sessions quote env (Some c) ids (Some m) h = Some (rs, Some m', h')
    \<and> draw (length ids) m = Some (ps, m')
    \<and> map fst rs = ids \<and> length (failures rs) = length (filter (client_fails env) ps)
    \<and> sh_next h \<le> sh_next h' \<and> (\<forall>r < sh_next h. sh_mem h' r = sh_mem h r)
    \<and> (\<forall>(i, r) \<in> set (oks rs). sh_next h \<le> r \<and> r < sh_next h' \<and> ss_id (sh_mem h' r) = i
         \<and> ss_state (sh_mem h' r) = ''idle'')
    \<and> distinct (map snd (oks rs))"
  using assms
proof (induction ids arbitrary: m h)
  case (Cons i ids)
  obtain p m1 where m1: "get_next_proxy m = Some (p, m1)" "proxy_ok m1"
    using get_next_proxy_ok[OF Cons.prems] by metis
  show ?case
  proof (cases rule: new_session_cases[of env p quote i c h])
    case (bad e)
    with Cons.IH[OF m1(2), of h] m1 show ?thesis by (auto simp: split_def)
  next
    case (good h1)
    from Cons.IH[OF m1(2), of h1] obtain ps m' rs h' where
      r: "spawn_sessions quote env (Some c) ids (Some m1) h1 = Some (rs, Some m', h')"
        "draw (length ids) m1 = Some (ps, m')" "map fst rs = ids"
        "length (failures rs) = length (filter (client_fails env) ps)"
        "sh_next h1 \<le> sh_next h'" "\<forall>r < sh_next h1. sh_mem h' r = sh_mem h1 r"
        "\<forall>(i, r) \<in> set (oks rs). sh_next h1 \<le> r \<and> r < sh_next h' \<and> ss_id (sh_mem h' r) = i
         \<and> ss_state (sh_mem h' r) = ''idle''" "distinct (map snd (oks rs))"
      by blast
    have "sh_next h \<notin> snd ` set (oks rs)" using r(7) good(3) by fastforce
    with r good m1 show ?thesis by (auto simp: split_def less_Suc_eq)
  qed
qed simp

lemma create_sessions_result:
  assumes "proxy_ok m" "mg_config sm = Some c" "mg_sessions sm = Map.empty" "0 \<le> cnt"
    and "mset draws = mset [0..cnt - 1]" "\<And>rs. mset (received rs) = mset rs"
  shows "\<exists>out m' sm' h' ps. create_sessions quote env draws received cnt (Some m) sm h = Some (out, Some m', sm', h')
    \<and> draw (nat cnt) m = Some (ps, m')
    \<and> session_count sm' = cnt - int (length (filter (client_fails env) ps))
    \<and> (case out of CreateOk \<Rightarrow> filter (client_fails env) ps = []
        | CreateFailed n e \<Rightarrow> n = length (filter (client_fails env) ps) \<and> 0 < n)
    \<and> (\<forall>i r. get_session i sm' = Some r \<longrightarrow> 0 \<le> i \<and> i < cnt \<and> ss_id (sh_mem h' r) = i
         \<and> ss_state (sh_mem h' r) = ''idle'' \<and> sh_next h \<le> r \<and> r < sh_next h')
    \<and> (\<forall>i j r. get_session i sm' = Some r \<longrightarrow> get_session j sm' = Some r \<longrightarrow> i = j)"
proof -
  from spawn_sessions_spec[OF assms(1), of quote env c draws h] obtain ps m' rs h' where
    s: "spawn_sessions quote env (Some c) draws (Some m) h = Some (rs, Some m', h')"
      "draw (length draws) m = Some (ps, m')" "map fst rs = draws"
      "length (failures rs) = length (filter (client_fails env) ps)"
    and ok: "\<forall>(i, r) \<in> set (oks rs). sh_next h \<le> r \<and> r < sh_next h' \<and> ss_id (sh_mem h' r) = i
         \<and> ss_state (sh_mem h' r) = ''idle''"
    by blast
  have len: "length draws = nat cnt" using assms(4) mset_eq_length[OF assms(5)] by simp
  have dist: "distinct draws" using assms(5) by (metis distinct_upto mset_eq_imp_distinct_iff)
  have sub: "set draws = {0..cnt - 1}" using assms(5) by (metis set_mset_mset set_upto)
  let ?rs = "received rs"
  have perm: "mset ?rs = mset rs" by (rule assms(6))
  have lens: "length ?rs = length rs" "length rs = length draws"
    using mset_eq_length[OF perm] s(3) by (auto simp flip: s(3))
  have oks: "set (oks ?rs) = set (oks rs)" "length (oks ?rs) = length (oks rs)"
    using oks_mset[OF perm] by (metis set_mset_mset, metis mset_eq_length)
  then have fails: "length (failures ?rs) = length (failures rs)"
    using oks_failures_length[of ?rs] oks_failures_length[of rs] lens(1) by linarith
  have "distinct (map fst ?rs)"
    using dist perm s(3) by (metis mset_eq_imp_distinct_iff mset_map)
  then have d: "distinct (map fst (oks ?rs))" by (rule oks_distinct)
  let ?sm = "fold (\<lambda>(i, r). manager_put i r) (oks ?rs) sm"
  have look: "mg_sessions ?sm = map_of (oks ?rs)"
    using d assms(3) by (simp add: manager_kv.lookup_store_all map_of_rev_keys)
  then have cnt: "card (dom (mg_sessions ?sm)) = length (oks rs)"
    using d oks(2) by (metis distinct_card dom_map_of_conv_image_fst length_map list.set_map)
  have mem: "(i, r) \<in> set (oks rs)" if "mg_sessions ?sm i = Some r" for i r
    using that look oks(1) by (metis map_of_SomeD)
  have range: "0 \<le> i \<and> i < cnt" if "(i, r) \<in> set (oks rs)" for i r
  proof -
    from that have "i \<in> set (map fst rs)" by (force simp: oks_set)
    then show ?thesis using s(3) sub by auto
  qed
  have r2: "session_count ?sm = cnt - int (length (filter (client_fails env) ps))"
    using cnt oks_failures_length[of rs] lens(2) len assms(4) s(4)
    by (simp add: session_count_def)
  have r3: "create_sessions quote env draws received cnt (Some m) sm h =
      Some (case failures ?rs of [] \<Rightarrow> CreateOk | e # es \<Rightarrow> CreateFailed (length (failures ?rs)) e,
        Some m', ?sm, h')"
    using s(1) assms(2,4) by (simp add: create_sessions_def collect_fold split: list.split)
  have r4: "case (case failures ?rs of [] \<Rightarrow> CreateOk | e # es \<Rightarrow> CreateFailed (length (failures ?rs)) e)
      of CreateOk \<Rightarrow> filter (client_fails env) ps = []
        | CreateFailed n e \<Rightarrow> n = length (filter (client_fails env) ps) \<and> 0 < n"
    using fails s(4) by (auto split: list.split)
  have r1: "draw (nat cnt) m = Some (ps, m')" using s(2) len by simp
  have r5: "\<forall>i r. get_session i ?sm = Some r \<longrightarrow> 0 \<le> i \<and> i < cnt \<and> ss_id (sh_mem h' r) = i
         \<and> ss_state (sh_mem h' r) = ''idle'' \<and> sh_next h \<le> r \<and> r < sh_next h'"
    using mem range ok unfolding get_session_def by blast
  then have r6: "\<forall>i j r. get_session i ?sm = Some r \<longrightarrow> get_session j ?sm = Some r \<longrightarrow> i = j"
    by metis
  show ?thesis by (intro exI conjI) (rule r3 r1 r2 r4 r5 r6)+
qed

text \<open>
  C16: \<open>CreateSessions\<close> under every schedule. Whatever order its goroutines draw proxies and finish
  in, the manager ends with one session per proxy drawn that a client could be built for, each
  under its own id below the count, freshly built and idle, no two ids sharing one; the error
  reports exactly the number of the others, and is absent when there are none. Only which ids fail
  depends on the schedule.
\<close>

theorem create_sessions_any_schedule:
  assumes "proxy_ok m" "mg_config sm = Some c" "mg_sessions sm = Map.empty" "0 \<le> cnt"
    and "mset draws = mset [0..cnt - 1]" "\<And>rs. mset (received rs) = mset rs"
  shows "\<exists>out m' sm' h' ps. create_sessions quote env draws received cnt (Some m) sm h = Some (out, Some m', sm', h')
    \<and> draw (nat cnt) m = Some (ps, m')
    \<and> session_count sm' = cnt - int (length (filter (client_fails env) ps))
    \<and> (case out of CreateOk \<Rightarrow> filter (client_fails env) ps = []
        | CreateFailed n e \<Rightarrow> n = length (filter (client_fails env) ps) \<and> 0 < n)
    \<and> (\<forall>i r. get_session i sm' = Some r \<longrightarrow> 0 \<le> i \<and> i < cnt \<and> ss_id (sh_mem h' r) = i
         \<and> ss_state (sh_mem h' r) = ''idle'' \<and> sh_next h \<le> r \<and> r < sh_next h')
    \<and> (\<forall>i j r. get_session i sm' = Some r \<longrightarrow> get_session j sm' = Some r \<longrightarrow> i = j)"
  by (rule create_sessions_result[OF assms])

definition sample_env :: "(gostring, unit) session_env" where
  "sample_env = \<lparr>se_url_parse = (\<lambda>p. if p = ''bad'' then Inl ''invalid'' else Inr p),
     se_new_jar = Inr (), se_now = At 100 0\<rparr>"

definition sample_heap :: "(gostring, unit, unit) session_heap" where
  "sample_heap = \<lparr>sh_mem = (\<lambda>_. \<lparr>ss_id = 0,
     ss_client = \<lparr>cl_transport = bare_transport, cl_jar = (), cl_timeout = 0\<rparr>, ss_cookie_jar = (), ss_proxy = [],
     ss_headers = Map.empty, ss_state = [], ss_created_at = ZeroTime, ss_last_activity = ZeroTime\<rparr>),
     sh_next = 0\<rparr>"

lemma decimal_one: "decimal 1 = ''1''"
  by code_simp

text \<open>Three sessions, two proxies of which one is bad, drawn and received in odd orders.\<close>

theorem create_sessions_any_schedule_witness:
  "\<exists>m' sm' h'. create_sessions id sample_env [2, 0, 1] rev 3
      (Some \<lparr>pm_proxies = [''bad'', ''p''], pm_index = 0\<rparr>) (new_session_manager (Some default_config))
      sample_heap = Some (CreateFailed 2 ''session 1: create HTTP client: client: parse proxy URL bad: invalid'', m', sm', h')
    \<and> session_count sm' = 1"
proof -
  let ?m = "\<lparr>pm_proxies = [''bad'', ''p''], pm_index = 0\<rparr>"
  have "mset [2, 0, 1] = mset [0..3 - 1 :: int]" by (simp add: upto_rec1)
  from create_sessions_any_schedule[of ?m "new_session_manager (Some default_config)" default_config 3
      "[2, 0, 1]" rev id sample_env sample_heap, OF _ _ _ _ this]
  obtain out m' sm' h' ps where c: "create_sessions id sample_env [2, 0, 1] rev 3 (Some ?m)
      (new_session_manager (Some default_config)) sample_heap = Some (out, Some m', sm', h')"
    "draw 3 ?m = Some (ps, m')" "session_count sm' = 3 - int (length (filter (client_fails sample_env) ps))"
    by (auto simp: proxy_ok_def new_session_manager_def)
  from c(2) have "ps = [''bad'', ''p'', ''bad'']"
    by (simp add: numeral_3_eq_3 get_next_proxy_def)
  with c(3) have "session_count sm' = 1"
    by (simp add: client_fails_def sample_env_def)
  moreover have "\<exists>m' sm' h'. create_sessions id sample_env [2, 0, 1] rev 3 (Some ?m)
      (new_session_manager (Some default_config)) sample_heap =
      Some (CreateFailed 2 ''session 1: create HTTP client: client: parse proxy URL bad: invalid'', m', sm', h')"
    by (simp add: create_sessions_def new_session_manager_def get_next_proxy_def new_session_def
        new_http_client_cases sample_env_def manager_put_def decimal_one Let_def)
  ultimately show ?thesis using c(1) by auto
qed

subsection \<open>Lifecycle and requests\<close>

lemma session_close_idem: "session_close (session_close s) = session_close s"
  by (simp add: session_close_def close_idle_connections_def)

lemma start_all_mem:
  "sh_mem (start_all rs h) r =
     (if r \<in> snd ` set rs \<and> ss_state (sh_mem h r) = ''idle''
      then (sh_mem h r)\<lparr>ss_state := ''active''\<rparr> else sh_mem h r)"
  by (induction rs h rule: start_all.induct) auto

lemma start_all_next: "sh_next (start_all rs h) = sh_next h"
  by (induction rs h rule: start_all.induct) auto

lemma stop_all_mem:
  "sh_mem (snd (stop_all rs sm h)) r =
     (if r \<in> snd ` set rs then session_close (sh_mem h r) else sh_mem h r)"
  by (induction rs sm h rule: stop_all.induct) (auto simp: session_close_idem)

lemma stop_all_manager:
  "fst (stop_all rs sm h) = sm\<lparr>mg_sessions := mg_sessions sm |` (- fst ` set rs)\<rparr>"
proof (induction rs sm h rule: stop_all.induct)
  case (2 i r rs sm h)
  then show ?case by (auto simp: restrict_map_def fun_eq_iff)
qed simp

text \<open>
  The lifecycle of a session: \<open>StartAll\<close> turns exactly the registered idle sessions active
  (never reviving a closed one), \<open>StopAll\<close> closes every registered session, releases its idle
  connections and leaves the manager empty; both touch no other session and depend on no
  iteration order.
\<close>

theorem session_lifecycle:
  assumes "enumerates (mg_sessions sm) order"
  shows "(\<forall>r. sh_mem (start_all order h) r =
        (if r \<in> ran (mg_sessions sm) \<and> ss_state (sh_mem h r) = ''idle''
         then (sh_mem h r)\<lparr>ss_state := ''active''\<rparr> else sh_mem h r))
    \<and> (case stop_all order sm h of (sm', h') \<Rightarrow>
        session_count sm' = 0 \<and> mg_config sm' = mg_config sm
        \<and> (\<forall>r. sh_mem h' r = (if r \<in> ran (mg_sessions sm) then session_close (sh_mem h r) else sh_mem h r))
        \<and> (\<forall>r. ss_state (session_close (sh_mem h r)) = ''closed''
             \<and> tr_idle_closed (cl_transport (ss_client (session_close (sh_mem h r))))))"
proof -
  have "mg_sessions (fst (stop_all order sm h)) = Map.empty"
    using enumerates_dom[OF assms]
    by (auto simp: stop_all_manager restrict_map_def fun_eq_iff dom_def)
  then have "session_count (fst (stop_all order sm h)) = 0" by (simp add: session_count_def)
  moreover have "mg_config (fst (stop_all order sm h)) = mg_config sm" by (simp add: stop_all_manager)
  ultimately show ?thesis
    using enumerates_ran[OF assms]
    by (auto simp: start_all_mem stop_all_mem split_def session_close_def close_idle_connections_def)
qed

theorem session_lifecycle_witness:
  "let sm = (new_session_manager None)\<lparr>mg_sessions := [4 \<mapsto> 0]\<rparr>;
       h = sample_heap\<lparr>sh_mem := (sh_mem sample_heap)(0 := (sh_mem sample_heap 0)\<lparr>ss_state := ''idle''\<rparr>)\<rparr>
   in ss_state (sh_mem (start_all [(4, 0)] h) 0) = ''active''
      \<and> session_count (fst (stop_all [(4, 0)] sm h)) = 0"
proof -
  let ?sm = "(new_session_manager None)\<lparr>mg_sessions := [4 \<mapsto> 0]\<rparr>"
  have "enumerates (mg_sessions ?sm) [(4, 0)]" by (simp add: enumerates_def)
  from session_lifecycle[OF this, of "sample_heap\<lparr>sh_mem := (sh_mem sample_heap)(0 := (sh_mem sample_heap 0)\<lparr>ss_state := ''idle''\<rparr>)\<rparr>"]
  show ?thesis by (auto simp: Let_def)
qed

lemma set_headers_fold: "set_headers kvs h = fold (\<lambda>(k, v). header_set k v) kvs h"
  by (induction kvs h rule: set_headers.induct) auto

lemma set_headers_map:
  "set_headers kvs h = h ++ map_of (rev (map (\<lambda>(k, v). (canonical_key k, [v])) kvs))"
proof (induction kvs h rule: set_headers.induct)
  case (2 k v kvs h)
  have "header_set k v h = h ++ [canonical_key k \<mapsto> [v]]" by (simp add: header_set_def)
  then show ?case unfolding set_headers.simps 2 by simp
qed simp

text \<open>
  C18: \<open>ExecuteRequest\<close> makes one request with the method, the URL and the body it is given. Its header has,
  under each canonical key that some key of the session's headers has, one value, that of such a key, and
  nothing else: so where no two keys differ by case alone, exactly the session's headers, whatever
  order the map is visited in (where some do, one of them is lost). The time of the last activity is
  set exactly when the request succeeds, and every failure is the error of the step that failed and
  leaves the session as it was.
\<close>

theorem execute_request_spec:
  assumes "enumerates (ss_headers s) order"
    and "execute_request new_request do_request order now meth url body s = (res, s')"
  shows "\<exists>hd. (\<forall>c. hd c = None \<longleftrightarrow> c \<notin> canonical_key ` dom (ss_headers s))
    \<and> (\<forall>c vs. hd c = Some vs \<longrightarrow> (\<exists>k v. ss_headers s k = Some v \<and> canonical_key k = c \<and> vs = [v]))
    \<and> (inj_on canonical_key (dom (ss_headers s)) \<longrightarrow>
        (\<forall>k v. ss_headers s k = Some v \<longrightarrow> hd (canonical_key k) = Some [v]))
    \<and> res = (case new_request meth url body of
          Some e \<Rightarrow> Inl (''session '' @ decimal (ss_id s) @ '': build request: '' @ e)
        | None \<Rightarrow> (case do_request meth url body hd of
            Inl e \<Rightarrow> Inl (''session '' @ decimal (ss_id s) @ '': execute '' @ meth @ '' '' @ url @ '': '' @ e)
          | Inr r \<Rightarrow> Inr r))
    \<and> s' = (if isl res then s else s\<lparr>ss_last_activity := now\<rparr>)"
proof -
  let ?kvs = "map (\<lambda>(k, v). (canonical_key k, [v])) order"
  define hd where "hd = set_headers order Map.empty"
  have hd: "hd = map_of (rev ?kvs)" by (simp add: hd_def set_headers_map)
  have keys: "fst ` set ?kvs = canonical_key ` dom (ss_headers s)"
    by (simp add: image_image split_def flip: enumerates_dom[OF assms(1)])
  have none: "hd c = None \<longleftrightarrow> c \<notin> canonical_key ` dom (ss_headers s)" for c
    using keys by (simp add: hd map_of_eq_None_iff)
  have some: "\<exists>k v. ss_headers s k = Some v \<and> canonical_key k = c \<and> vs = [v]" if "hd c = Some vs" for c vs
    using map_of_SomeD[OF that[unfolded hd]] enumerates_set[OF assms(1)] by auto
  have all: "hd (canonical_key k) = Some [v]" if inj: "inj_on canonical_key (dom (ss_headers s))" and k: "ss_headers s k = Some v" for k v
  proof -
    from k none obtain vs where vs: "hd (canonical_key k) = Some vs" by (metis domI imageI not_None_eq)
    from some[OF vs] obtain k' v' where k': "ss_headers s k' = Some v'" "canonical_key k' = canonical_key k" "vs = [v']" by blast
    with inj k have "k' = k" by (auto dest: inj_onD)
    with k k' vs show ?thesis by simp
  qed
  show ?thesis
  proof (intro exI[of _ hd] conjI allI impI none some all)
    show "res = (case new_request meth url body of
          Some e \<Rightarrow> Inl (''session '' @ decimal (ss_id s) @ '': build request: '' @ e)
        | None \<Rightarrow> (case do_request meth url body hd of
            Inl e \<Rightarrow> Inl (''session '' @ decimal (ss_id s) @ '': execute '' @ meth @ '' '' @ url @ '': '' @ e)
          | Inr r \<Rightarrow> Inr r))"
      using assms(2) by (auto simp: execute_request_def Let_def hd_def split: option.splits sum.splits)
    show "s' = (if isl res then s else s\<lparr>ss_last_activity := now\<rparr>)"
    proof -
      obtain d where d: "do_request meth url body (set_headers order Map.empty) = d" by simp
      show ?thesis
        using assms(2) unfolding execute_request_def Let_def d update_last_activity_def
        by (cases "new_request meth url body"; cases d) auto
    qed
  qed
qed

text \<open>Two keys that differ by case: one request header, and one of the two values.\<close>

theorem execute_request_spec_witness:
  "\<exists>v \<in> {''t'', ''u''}. execute_request (\<lambda>m u b. None) (\<lambda>m u b h. Inr (m, u, b, h ''X-Token'')) [(''x-token'', ''t''), (''X-Token'', ''u'')]
       (At 9 0) ''GET'' ''http://t/'' () ((sh_mem sample_heap 0)\<lparr>ss_headers := [''x-token'' \<mapsto> ''t'', ''X-Token'' \<mapsto> ''u'']\<rparr>)
     = (Inr (''GET'', ''http://t/'', (), Some [v]),
        (sh_mem sample_heap 0)\<lparr>ss_headers := [''x-token'' \<mapsto> ''t'', ''X-Token'' \<mapsto> ''u''], ss_last_activity := At 9 0\<rparr>)"
proof -
  let ?s = "(sh_mem sample_heap 0)\<lparr>ss_headers := [''x-token'' \<mapsto> ''t'', ''X-Token'' \<mapsto> ''u'']\<rparr>"
  let ?order = "[(''x-token'', ''t''), (''X-Token'', ''u'')]"
  let ?do = "\<lambda>m u b h. Inr (m, u, b, h ''X-Token'') :: goerror + gostring \<times> gostring \<times> unit \<times> gostring list option"
  have e: "enumerates (ss_headers ?s) ?order" by (auto simp: enumerates_def fun_eq_iff)
  obtain res s' where r: "execute_request (\<lambda>m u b. None) ?do ?order (At 9 0) ''GET'' ''http://t/'' () ?s = (res, s')"
    by fastforce
  have key: "canonical_key ''X-Token'' = ''X-Token''" "canonical_key ''x-token'' = ''X-Token''" by code_simp+
  note spec = execute_request_spec[OF e r]
  from spec obtain hd where hd: "\<forall>c. hd c = None \<longleftrightarrow> c \<notin> canonical_key ` dom (ss_headers ?s)"
    "\<forall>c vs. hd c = Some vs \<longrightarrow> (\<exists>k v. ss_headers ?s k = Some v \<and> canonical_key k = c \<and> vs = [v])"
    and res: "res = Inr (''GET'', ''http://t/'', (), hd ''X-Token'')" "s' = (if isl res then ?s else ?s\<lparr>ss_last_activity := At 9 0\<rparr>)"
    by (elim exE conjE) (simp only: option.case sum.case)
  have "hd ''X-Token'' \<noteq> None" using hd(1) key by simp
  then obtain vs where vs: "hd ''X-Token'' = Some vs" by auto
  then obtain k v where "ss_headers ?s k = Some v" "vs = [v]" using hd(2) by blast
  with vs have "hd ''X-Token'' = Some [v]" "v = ''t'' \<or> v = ''u''" by (auto split: if_splits)
  with r res show ?thesis by auto
qed

end
