(* ===== verification/Engine.thy ===== *)
theory Engine
  imports Worker_Pool Session "HOL-Library.Word"
begin

section \<open>scheduler/scheduler.go, metrics/metrics.go and the run of main.go\<close>

text \<open>
  The engine at work, from \<open>sc.Start\<close> in \<open>main\<close> to the end of the shutdown: the scheduler's control
  goroutine, the workers running \<open>jobFn\<close>, the counters, and \<open>main\<close> itself waiting for the signal and
  stopping everything. The sessions are those of \<open>Session\<close>, the pool that of \<open>Worker_Pool\<close>, of which
  the engine is shown to be an instance.
\<close>

subsection \<open>Metrics\<close>

record metrics =
  mt_total :: "64 word"
  mt_success :: "64 word"
  mt_failed :: "64 word"
  mt_start :: gotime

definition new_metrics :: "gotime \<Rightarrow> metrics" where
  "new_metrics now = \<lparr>mt_total = 0, mt_success = 0, mt_failed = 0, mt_start = now\<rparr>"

definition increment_total :: "metrics \<Rightarrow> metrics" where
  "increment_total m = m\<lparr>mt_total := mt_total m + 1\<rparr>"

definition increment_success :: "metrics \<Rightarrow> metrics" where
  "increment_success m = m\<lparr>mt_success := mt_success m + 1\<rparr>"

definition increment_failed :: "metrics \<Rightarrow> metrics" where
  "increment_failed m = m\<lparr>mt_failed := mt_failed m + 1\<rparr>"

definition metrics_snapshot :: "metrics \<Rightarrow> 64 word \<times> 64 word \<times> 64 word" where
  "metrics_snapshot m = (mt_total m, mt_success m, mt_failed m)"

subsection \<open>Scheduler and main as steps\<close>

text \<open>
  Where the control goroutine is: at its \<open>select\<close>, in the loop of \<open>dispatchJobs\<close> (next id and count
  read at its start), in \<open>Submit\<close>, gone, or panicked. Where \<open>main\<close> is: waiting for the signal, past
  \<open>sc.Stop\<close>, inside \<open>wp.Stop\<close>, past \<open>sm.StopAll\<close>. A worker is idle, has taken a job, or is in
  \<open>ExecuteRequest\<close>.
\<close>

datatype sched_state =
    SchedSelect
  | SchedNext int int
  | SchedSubmit int int sref
  | SchedExited
  | SchedPanicked

datatype main_state = MainRunning | MainStopped | MainWaiting | MainDone

datatype engine_worker = Idle | Started sref | InFlight sref

record ('u, 'h, 'j) engine =
  en_pool :: "sref worker_pool"
  en_workers :: "engine_worker multiset"
  en_sched :: sched_state
  en_stop_ch :: bool
  en_main :: main_state
  en_manager :: session_manager
  en_heap :: "('u, 'h, 'j) session_heap"
  en_target_url :: gostring
  en_metrics :: metrics
  en_sent :: "sref list"
  en_taken :: "sref list"
  en_finished :: "sref multiset"

text \<open>
  What \<open>jobFn\<close> does once the request is over: None is an error, otherwise the status code. A
  request that got a response also sets the session's time of last activity. The target URL is a
  field of the shared configuration, which the dashboard may change at any time.
\<close>

definition job_outcome :: "int option \<Rightarrow> metrics \<Rightarrow> metrics" where
  "job_outcome status m =
     (case status of
        None \<Rightarrow> increment_failed m
      | Some code \<Rightarrow> if code \<ge> 200 \<and> code < 400 then increment_success m else increment_failed m)"

definition request_done ::
  "int option \<Rightarrow> gotime \<Rightarrow> sref \<Rightarrow> ('u, 'h, 'j) session_heap \<Rightarrow> ('u, 'h, 'j) session_heap" where
  "request_done status now s h =
     (case status of
        None \<Rightarrow> h
      | Some code \<Rightarrow> h\<lparr>sh_mem := (sh_mem h)(s := update_last_activity now (sh_mem h s))\<rparr>)"

inductive engine_step ::
  "bool \<Rightarrow> ('u, 'h, 'j) engine \<Rightarrow> ('u, 'h, 'j) engine \<Rightarrow> bool"
  for joined :: bool where
  select_stop: "\<lbrakk>en_sched e = SchedSelect; en_stop_ch e\<rbrakk> \<Longrightarrow>
     engine_step joined e (e\<lparr>en_sched := SchedExited\<rparr>)"
| select_default: "\<lbrakk>en_sched e = SchedSelect; \<not> en_stop_ch e\<rbrakk> \<Longrightarrow>
     engine_step joined e
       (e\<lparr>en_sched := SchedNext 0 (session_count (en_manager e))\<rparr>)"
| round_over: "\<lbrakk>en_sched e = SchedNext i n; \<not> i < n\<rbrakk> \<Longrightarrow>
     engine_step joined e (e\<lparr>en_sched := SchedSelect\<rparr>)"
| no_session: "\<lbrakk>en_sched e = SchedNext i n; i < n; get_session i (en_manager e) = None\<rbrakk> \<Longrightarrow>
     engine_step joined e (e\<lparr>en_sched := SchedNext (i + 1) n\<rparr>)"
| take_session: "\<lbrakk>en_sched e = SchedNext i n; i < n; get_session i (en_manager e) = Some s\<rbrakk> \<Longrightarrow>
     engine_step joined e (e\<lparr>en_sched := SchedSubmit i n s\<rparr>)"
| submit_job: "\<lbrakk>en_sched e = SchedSubmit i n s; submit s (en_pool e) = Sent p\<rbrakk> \<Longrightarrow>
     engine_step joined e
       (e\<lparr>en_sched := SchedNext (i + 1) n, en_pool := p, en_sent := en_sent e @ [s]\<rparr>)"
| submit_to_closed: "\<lbrakk>en_sched e = SchedSubmit i n s; submit s (en_pool e) = SendPanics\<rbrakk> \<Longrightarrow>
     engine_step joined e (e\<lparr>en_sched := SchedPanicked\<rparr>)"
| take_job: "\<lbrakk>en_workers e = add_mset Idle W; next_job (en_pool e) = Received s p\<rbrakk> \<Longrightarrow>
     engine_step joined e
       (e\<lparr>en_workers := add_mset (Started s) W, en_pool := p, en_taken := en_taken e @ [s]\<rparr>)"
| no_target: "\<lbrakk>en_workers e = add_mset (Started s) W; en_target_url e = []\<rbrakk> \<Longrightarrow>
     engine_step joined e
       (e\<lparr>en_workers := add_mset Idle W, en_finished := add_mset s (en_finished e)\<rparr>)"
| begin_request: "\<lbrakk>en_workers e = add_mset (Started s) W; en_target_url e \<noteq> []\<rbrakk> \<Longrightarrow>
     engine_step joined e
       (e\<lparr>en_workers := add_mset (InFlight s) W, en_metrics := increment_total (en_metrics e)\<rparr>)"
| end_request: "\<lbrakk>en_workers e = add_mset (InFlight s) W\<rbrakk> \<Longrightarrow>
     engine_step joined e
       (e\<lparr>en_workers := add_mset Idle W, en_metrics := job_outcome status (en_metrics e),
          en_heap := request_done status now s (en_heap e), en_finished := add_mset s (en_finished e)\<rparr>)"
| leave_loop: "\<lbrakk>en_workers e = add_mset Idle W; next_job (en_pool e) = LoopEnds\<rbrakk> \<Longrightarrow>
     engine_step joined e (e\<lparr>en_workers := W, en_pool := wg_done (en_pool e)\<rparr>)"
| set_target: "engine_step joined e (e\<lparr>en_target_url := url\<rparr>)"
| scheduler_stop: "\<lbrakk>en_main e = MainRunning\<rbrakk> \<Longrightarrow>
     engine_step joined e (e\<lparr>en_main := MainStopped, en_stop_ch := True\<rparr>)"
| pool_stop: "\<lbrakk>en_main e = MainStopped; joined \<longrightarrow> en_sched e = SchedExited;
     close_queue (en_pool e) = Some p\<rbrakk> \<Longrightarrow>
     engine_step joined e (e\<lparr>en_main := MainWaiting, en_pool := p\<rparr>)"
| sessions_stop: "\<lbrakk>en_main e = MainWaiting; wp_wg (en_pool e) = 0;
     enumerates (mg_sessions (en_manager e)) order;
     stop_all order (en_manager e) (en_heap e) = (sm, h)\<rbrakk> \<Longrightarrow>
     engine_step joined e (e\<lparr>en_main := MainDone, en_manager := sm, en_heap := h\<rparr>)"

text \<open>
  The state \<open>main\<close> reaches before the signal: the sessions made and started, and a pool with one
  worker per configured session, one at least.
\<close>

definition engine_new ::
  "int \<Rightarrow> session_manager \<Rightarrow> ('u, 'h, 'j) session_heap \<Rightarrow> gostring \<Rightarrow> gotime \<Rightarrow> ('u, 'h, 'j) engine" where
  "engine_new sessions sm h target now =
     (let worker_count = (if sessions < 1 then 1 else sessions);
          (p, W) = pool_start (new_worker_pool worker_count :: sref worker_pool)
      in \<lparr>en_pool = p, en_workers = image_mset (\<lambda>_. Idle) W, en_sched = SchedSelect,
          en_stop_ch = False, en_main = MainRunning, en_manager = sm, en_heap = h,
          en_target_url = target, en_metrics = new_metrics now, en_sent = [], en_taken = [], en_finished = {#}\<rparr>)"

subsection \<open>The engine drives the pool as its contract says\<close>

fun worker_call :: "engine_worker \<Rightarrow> sref pool_call" where
  "worker_call Idle = Worker"
| "worker_call (Started s) = Running s"
| "worker_call (InFlight s) = Running s"

fun sched_call :: "sched_state \<Rightarrow> sref pool_call multiset" where
  "sched_call (SchedSubmit i n s) = {#Submitting s#}"
| "sched_call SchedPanicked = {#Panicked#}"
| "sched_call _ = {#}"

fun main_call :: "main_state \<Rightarrow> sref pool_call multiset" where
  "main_call MainWaiting = {#Waiting#}"
| "main_call MainDone = {#StopReturned#}"
| "main_call _ = {#}"

definition pool_of :: "('u, 'h, 'j) engine \<Rightarrow> sref pool_config" where
  "pool_of e = \<lparr>pl_pool = en_pool e,
     pl_calls = image_mset worker_call (en_workers e) + sched_call (en_sched e) + main_call (en_main e),
     pl_sent = en_sent e, pl_taken = en_taken e, pl_finished = en_finished e\<rparr>"

fun in_flight :: "engine_worker \<Rightarrow> bool" where
  "in_flight (InFlight s) = True"
| "in_flight _ = False"

definition metrics_ok :: "('u, 'h, 'j) engine \<Rightarrow> bool" where
  "metrics_ok e \<longleftrightarrow> mt_total (en_metrics e) =
     mt_success (en_metrics e) + mt_failed (en_metrics e) + word_of_nat (count_if in_flight (en_workers e))"

lemma pool_of_new: "pool_of (engine_new n sm h url now) = pool_new n"
proof -
  have "new_worker_pool (if n < 1 then 1 else n) = (new_worker_pool n :: sref worker_pool)"
    by (simp add: new_worker_pool_def)
  moreover obtain p W where pW: "pool_start (new_worker_pool n) = (p :: sref worker_pool, W)"
    by (cases "pool_start (new_worker_pool n :: sref worker_pool)")
  moreover have "W = replicate_mset (size W) Worker"
    using pW by (auto simp: pool_start_def start_loop_result new_worker_pool_def)
  then have "image_mset worker_call (image_mset (\<lambda>_. Idle) W) = W"
    by (metis (no_types) image_replicate_mset worker_call.simps(1))
  ultimately show ?thesis
    by (simp add: pool_of_def engine_new_def pool_new_def)
qed

lemma pool_of_step:
  assumes "engine_step j e e'"
  shows "pool_of e' = pool_of e \<or> pool_step (pool_of e) (pool_of e')"
  using assms
proof (induction rule: engine_step.induct)
  case (take_session e i n s)
  then show ?case
    using call_submit[of "pool_of e" s] by (simp add: pool_of_def)
next
  case (submit_job e i n s p)
  then show ?case
    using submit_sends[of "pool_of e" s _ p] by (simp add: pool_of_def)
next
  case (submit_to_closed e i n s)
  then show ?case
    using submit_panics[of "pool_of e" s] by (simp add: pool_of_def)
next
  case (take_job e W s p)
  then show ?case
    using worker_takes[of "pool_of e" _ s p] by (simp add: pool_of_def)
next
  case (no_target e s W)
  then show ?case
    using job_returns[of "pool_of e" s] by (simp add: pool_of_def)
next
  case (end_request e s W status now)
  then show ?case
    using job_returns[of "pool_of e" s] by (simp add: pool_of_def)
next
  case (leave_loop e W)
  then show ?case
    using worker_exits[of "pool_of e"] by (simp add: pool_of_def)
next
  case (pool_stop e p)
  then show ?case
    using call_stop[of "pool_of e" p] by (simp add: pool_of_def)
next
  case (sessions_stop e order sm h)
  then show ?case
    using stop_returns[of "pool_of e" "image_mset worker_call (en_workers e) + sched_call (en_sched e)"]
    by (simp add: pool_of_def)
qed (simp_all add: pool_of_def)

lemma metrics_new: "metrics_ok (engine_new n sm h url now)"
proof -
  have "count_if in_flight (image_mset (\<lambda>_. Idle) W) = 0" for W :: "sref pool_call multiset"
    by (induction W) auto
  then show ?thesis by (simp add: metrics_ok_def engine_new_def new_metrics_def split_def Let_def)
qed

lemma metrics_step: "engine_step j e e' \<Longrightarrow> metrics_ok e \<Longrightarrow> metrics_ok e'"
  by (induction rule: engine_step.induct)
    (auto simp: metrics_ok_def job_outcome_def increment_total_def increment_success_def
      increment_failed_def split: option.split)

definition engine_initial ::
  "int \<Rightarrow> session_manager \<Rightarrow> ('u, 'h, 'j) session_heap \<Rightarrow> ('u, 'h, 'j) engine \<Rightarrow> bool" where
  "engine_initial n sm h e \<longleftrightarrow> (\<exists>url now. e = engine_new n sm h url now)"

interpretation engine_pool: simulation "engine_initial n sm h" "engine_step j" metrics_ok
    "\<lambda>c. c = pool_new n" pool_step pool_of for n sm h j
proof unfold_locales
  fix e e' :: "('a, 'b, 'c) engine"
  show "engine_initial n sm h e \<Longrightarrow> metrics_ok e" by (auto simp: engine_initial_def metrics_new)
  show "engine_step j e e' \<Longrightarrow> metrics_ok e \<Longrightarrow> metrics_ok e'" by (rule metrics_step)
  show "engine_initial n sm h e \<Longrightarrow> pool_of e = pool_new n"
    by (auto simp: engine_initial_def pool_of_new)
  show "engine_step j e e' \<Longrightarrow> metrics_ok e \<Longrightarrow> pool_of e' = pool_of e \<or> pool_step (pool_of e) (pool_of e')"
    by (simp add: pool_of_step)
qed

subsection \<open>The order of dispatch\<close>

definition dispatch_jobs :: "session_manager \<Rightarrow> sref list" where
  "dispatch_jobs sm = List.map_filter (\<lambda>i. get_session i sm) [0..session_count sm - 1]"

definition dispatched :: "session_manager \<Rightarrow> int \<Rightarrow> sref list" where
  "dispatched sm i = List.map_filter (\<lambda>i. get_session i sm) [0..i - 1]"

fun sched_ok :: "session_manager \<Rightarrow> sched_state \<Rightarrow> sref list \<Rightarrow> bool" where
  "sched_ok sm (SchedNext i n) sent = (n = session_count sm \<and> 0 \<le> i \<and> i \<le> n
     \<and> (\<exists>k. sent = concat (replicate k (dispatch_jobs sm)) @ dispatched sm i))"
| "sched_ok sm (SchedSubmit i n s) sent = (n = session_count sm \<and> 0 \<le> i \<and> i < n
     \<and> get_session i sm = Some s
     \<and> (\<exists>k. sent = concat (replicate k (dispatch_jobs sm)) @ dispatched sm i))"
| "sched_ok sm SchedPanicked sent = (\<exists>k j. sent = concat (replicate k (dispatch_jobs sm)) @ take j (dispatch_jobs sm))"
| "sched_ok sm _ sent = (\<exists>k. sent = concat (replicate k (dispatch_jobs sm)))"

lemma map_filter_append: "List.map_filter f (xs @ ys) = List.map_filter f xs @ List.map_filter f ys"
  by (simp add: List.map_filter_def)

lemma dispatched_next:
  assumes "0 \<le> i"
  shows "dispatched sm (i + 1) =
    dispatched sm i @ (case get_session i sm of None \<Rightarrow> [] | Some s \<Rightarrow> [s])"
proof -
  have "[0..i] = [0..i - 1] @ [i]" using assms by (simp add: upto_rec2)
  then show ?thesis
    by (simp add: dispatched_def map_filter_append List.map_filter_def split: option.split)
qed

lemma dispatched_prefix:
  assumes "0 \<le> i" "i \<le> session_count sm"
  shows "\<exists>j. dispatched sm i = take j (dispatch_jobs sm)"
proof -
  have "[0..session_count sm - 1] = [0..i - 1] @ [i..session_count sm - 1]"
    using assms upto_split1[of 0 i "session_count sm - 1"]
    by (cases "i = session_count sm") (auto intro: upto_split1)
  then have "dispatch_jobs sm = dispatched sm i @ List.map_filter (\<lambda>i. get_session i sm) [i..session_count sm - 1]"
    by (simp add: dispatch_jobs_def dispatched_def map_filter_append)
  then show ?thesis by (metis append_eq_conv_conj)
qed

lemma replicate_snoc_concat: "concat (replicate k xs) @ xs = concat (replicate (Suc k) xs)"
  by (induction k) auto

lemma sched_ok_prefix:
  assumes "sched_ok sm sc sent"
  shows "\<exists>k j. sent = concat (replicate k (dispatch_jobs sm)) @ take j (dispatch_jobs sm)"
proof -
  have part: "\<exists>k j. sent = concat (replicate k (dispatch_jobs sm)) @ take j (dispatch_jobs sm)"
    if "0 \<le> i" "i \<le> session_count sm" "sent = concat (replicate k (dispatch_jobs sm)) @ dispatched sm i" for i k
    using that dispatched_prefix by metis
  have whole: "\<exists>k j. sent = concat (replicate k (dispatch_jobs sm)) @ take j (dispatch_jobs sm)"
    if "sent = concat (replicate k (dispatch_jobs sm))" for k
    using that by (intro exI[of _ k] exI[of _ 0]) simp
  show ?thesis
  proof (cases sc)
    case (SchedNext i n)
    with assms obtain k where "0 \<le> i" "i \<le> session_count sm"
      "sent = concat (replicate k (dispatch_jobs sm)) @ dispatched sm i" by auto
    then show ?thesis by (rule part)
  next
    case (SchedSubmit i n s)
    with assms obtain k where k: "0 \<le> i" "i < session_count sm"
      "sent = concat (replicate k (dispatch_jobs sm)) @ dispatched sm i" by auto
    from k(2) have "i \<le> session_count sm" by simp
    from part[OF k(1) this k(3)] show ?thesis .
  qed (use assms whole in auto)
qed

lemma sched_ok_count:
  assumes "sched_ok sm (SchedNext i n) sent" "\<not> i < n"
  shows "sched_ok sm SchedSelect sent"
proof -
  from assms have "i = session_count sm" by simp
  then have "dispatched sm i = dispatch_jobs sm" by (simp add: dispatched_def dispatch_jobs_def)
  with assms show ?thesis by (auto simp: replicate_snoc_concat simp del: replicate.simps) 
qed

definition sched_inv :: "session_manager \<Rightarrow> ('u, 'h, 'j) engine \<Rightarrow> bool" where
  "sched_inv sm e \<longleftrightarrow> en_main e \<noteq> MainDone \<longrightarrow>
     en_manager e = sm \<and> sched_ok sm (en_sched e) (en_sent e)"

lemma sched_inv_step:
  assumes "engine_step j e e'" "sched_inv sm e"
  shows "sched_inv sm e'"
proof (cases "en_main e' = MainDone")
  case False
  with assms(1) have "en_main e \<noteq> MainDone" by (cases rule: engine_step.cases) auto
  with assms(2) have m: "en_manager e = sm" and ok: "sched_ok sm (en_sched e) (en_sent e)"
    by (auto simp: sched_inv_def)
  from assms(1) False have m': "en_manager e' = sm"
    using m by (cases rule: engine_step.cases) auto
  have "sched_ok sm (en_sched e') (en_sent e')"
    using assms(1) ok m
  proof (induction rule: engine_step.induct)
    case (select_default e)
    then show ?case by (auto simp: session_count_def dispatched_def)
  next
    case (round_over e i n)
    have "sched_ok sm (SchedNext i n) (en_sent e)"
      using round_over(3) unfolding round_over(1) .
    from sched_ok_count[OF this] round_over(2) show ?case by simp
  next
    case (no_session e i n)
    then show ?case by (auto simp: dispatched_next)
  next
    case (submit_job e i n s p)
    then show ?case by (auto simp: dispatched_next)
  next
    case (submit_to_closed e i n s)
    have "sched_ok sm (SchedSubmit i n s) (en_sent e)"
      using submit_to_closed(3) unfolding submit_to_closed(1) .
    from sched_ok_prefix[OF this] show ?case by simp
  qed auto
  with m' show ?thesis by (simp add: sched_inv_def)
qed (simp add: sched_inv_def)

interpretation sched_machine: invariant_machine "engine_initial n sm h" "engine_step j" "sched_inv sm"
  for n sm h j
proof unfold_locales
  fix e e' :: "('a, 'b, 'c) engine"
  show "engine_initial n sm h e \<Longrightarrow> sched_inv sm e"
    by (auto simp: engine_initial_def engine_new_def sched_inv_def split_def Let_def intro: exI[of _ 0])
qed (rule sched_inv_step)

text \<open>
  Shutdown in the order the comments of \<open>main\<close> intend: the pool is closed only once the control
  goroutine has gone.
\<close>

definition shutdown_inv :: "session_manager \<Rightarrow> ('u, 'h, 'j) engine \<Rightarrow> bool" where
  "shutdown_inv sm e \<longleftrightarrow>
     (en_main e \<in> {MainWaiting, MainDone} \<longrightarrow> en_sched e = SchedExited)
     \<and> (wp_closed (en_pool e) \<longrightarrow> en_main e \<in> {MainWaiting, MainDone})
     \<and> en_sched e \<noteq> SchedPanicked
     \<and> (en_main e \<noteq> MainDone \<longrightarrow> en_manager e = sm)
     \<and> (en_main e = MainDone \<longrightarrow> session_count (en_manager e) = 0
          \<and> (\<forall>i r. get_session i sm = Some r \<longrightarrow> ss_state (sh_mem (en_heap e) r) = ''closed''))"

lemma shutdown_inv_step:
  assumes "engine_step True e e'" "shutdown_inv sm e"
  shows "shutdown_inv sm e'"
  using assms
proof (induction rule: engine_step.induct)
  case (sessions_stop e order sm' h)
  then have m: "en_manager e = sm" by (simp add: shutdown_inv_def)
  have "(sm', h) = stop_all order sm (en_heap e)" using sessions_stop m by simp
  with session_lifecycle[of sm order "en_heap e"] sessions_stop(3) m
  have "session_count sm' = 0" "\<And>r. r \<in> ran (mg_sessions sm) \<Longrightarrow> ss_state (sh_mem h r) = ''closed''"
    by (auto simp: session_close_def split: prod.splits)
  then show ?case
    using sessions_stop(1,5) by (auto simp: shutdown_inv_def get_session_def ran_def)
qed (auto simp: shutdown_inv_def submit_def next_job_def close_queue_def wg_done_def request_done_def
    update_last_activity_def split: if_splits list.splits option.splits)

interpretation shutdown_machine: invariant_machine "engine_initial n sm h" "engine_step True" "shutdown_inv sm"
  for n sm h
proof unfold_locales
  fix e e' :: "('a, 'b, 'c) engine"
  show "engine_initial n sm h e \<Longrightarrow> shutdown_inv sm e"
    by (auto simp: engine_initial_def engine_new_def shutdown_inv_def split_def Let_def
        pool_start_def start_loop_result new_worker_pool_def)
qed (rule shutdown_inv_step)

subsection \<open>Properties\<close>

lemma engine_shutdown_facts:
  assumes "reach (engine_initial n sm h) (engine_step True) e"
  shows "en_sched e \<noteq> SchedPanicked
    \<and> (en_main e = MainDone \<longrightarrow> en_finished e = mset (en_sent e) \<and> en_workers e = {#}
        \<and> session_count (en_manager e) = 0
        \<and> (\<forall>i r. get_session i sm = Some r \<longrightarrow> ss_state (sh_mem (en_heap e) r) = ''closed'')
        \<and> mt_total (en_metrics e) = mt_success (en_metrics e) + mt_failed (en_metrics e))"
proof -
  have inv: "shutdown_inv sm e" by (rule shutdown_machine.reach_inv[OF assms])
  have r: "reach (\<lambda>c. c = pool_new n) pool_step (pool_of e)" by (rule engine_pool.reach_abs[OF assms])
  note pool = pool_machine.reach_inv[OF pool_reach_initial[OF r]]
  have "en_workers e = {#}" if "en_main e = MainDone"
  proof -
    have "wp_wg (en_pool e) = 0" using pool that by (auto simp: pool_inv_def pool_of_def)
    then have "count_if is_worker (pl_calls (pool_of e)) = 0" using pool by (simp add: pool_inv_def pool_of_def)
    then have "\<forall>w \<in># en_workers e. \<not> is_worker (worker_call w)"
      by (auto simp: count_if_zero pool_of_def)
    moreover have "is_worker (worker_call w)" for w by (cases w) auto
    ultimately show ?thesis by (metis multiset_nonemptyE)
  qed
  moreover have "metrics_ok e" by (rule engine_pool.reach_inv[OF assms])
  moreover have "en_main e = MainDone \<Longrightarrow> en_finished e = mset (en_sent e)"
    using pool_runs_each_job_facts[OF pool_reach_initial[OF r]] by (auto simp: pool_of_def)
  ultimately show ?thesis using inv by (auto simp: shutdown_inv_def metrics_ok_def)
qed

text \<open>
  A clean shutdown. If the pool is stopped only once the scheduler's goroutine has seen the
  stop, the engine never submits to a closed queue, and when \<open>main\<close> is done every job ever
  submitted has run to its end exactly once, no worker is left, every session the engine had is
  closed, the manager is empty, and the requests counted are the successes and failures.
\<close>

theorem engine_shutdown_clean:
  assumes "reach (engine_initial n sm h) (engine_step True) e"
  shows "en_sched e \<noteq> SchedPanicked
    \<and> (en_main e = MainDone \<longrightarrow> en_finished e = mset (en_sent e) \<and> en_workers e = {#}
        \<and> session_count (en_manager e) = 0
        \<and> (\<forall>i r. get_session i sm = Some r \<longrightarrow> ss_state (sh_mem (en_heap e) r) = ''closed'')
        \<and> mt_total (en_metrics e) = mt_success (en_metrics e) + mt_failed (en_metrics e))"
  by (rule engine_shutdown_facts[OF assms])

lemma scheduler_rounds:
  assumes "reach (engine_initial n sm h) (engine_step j) e" and "en_main e \<noteq> MainDone"
  shows "\<exists>k i. en_sent e = concat (replicate k (dispatch_jobs sm)) @ take i (dispatch_jobs sm)
    \<and> (dom (mg_sessions sm) = {0..<session_count sm} \<longrightarrow>
         length (dispatch_jobs sm) = card (dom (mg_sessions sm)) \<and> set (dispatch_jobs sm) = ran (mg_sessions sm))"
proof -
  have "sched_ok sm (en_sched e) (en_sent e)"
    using sched_machine.reach_inv[OF assms(1)] assms(2) by (simp add: sched_inv_def)
  from sched_ok_prefix[OF this] obtain k i where
    "en_sent e = concat (replicate k (dispatch_jobs sm)) @ take i (dispatch_jobs sm)" by blast
  moreover have "length (dispatch_jobs sm) = card (dom (mg_sessions sm))
      \<and> set (dispatch_jobs sm) = ran (mg_sessions sm)"
    if d: "dom (mg_sessions sm) = {0..<session_count sm}"
  proof -
    have all: "\<exists>r. get_session i sm = Some r" if "i \<in> set [0..session_count sm - 1]" for i
    proof -
      from that have "i \<in> dom (mg_sessions sm)" by (auto simp: d)
      then show ?thesis by (auto simp: get_session_def)
    qed
    then have "filter (\<lambda>i. get_session i sm \<noteq> None) [0..session_count sm - 1] = [0..session_count sm - 1]"
      by (intro filter_True) auto
    then have jobs: "dispatch_jobs sm = map (\<lambda>i. the (get_session i sm)) [0..session_count sm - 1]"
      by (simp add: dispatch_jobs_def List.map_filter_def comp_def)
    have "set (dispatch_jobs sm) = ran (mg_sessions sm)"
    proof (intro set_eqI iffI)
      fix r assume "r \<in> set (dispatch_jobs sm)"
      with all show "r \<in> ran (mg_sessions sm)" by (force simp: jobs get_session_def ran_def)
    next
      fix r assume "r \<in> ran (mg_sessions sm)"
      then obtain i where i: "mg_sessions sm i = Some r" by (auto simp: ran_def)
      then have "i \<in> {0..<session_count sm}" using d by blast
      with i show "r \<in> set (dispatch_jobs sm)"
        by (force simp: jobs get_session_def image_iff)
    qed
    then show ?thesis by (simp add: jobs session_count_def)
  qed
  ultimately show ?thesis by blast
qed

text \<open>
  C14: Dispatch is round robin. Until the sessions are stopped, the jobs submitted are whole rounds
  over the sessions with an id below the number of registered sessions, in the order of their
  ids, and the beginning of one more round; so no session is submitted twice more than another.
\<close>

theorem scheduler_round_robin:
  assumes "reach (engine_initial n sm h) (engine_step j) e" and "en_main e \<noteq> MainDone"
  shows "\<exists>k i. en_sent e = concat (replicate k (dispatch_jobs sm)) @ take i (dispatch_jobs sm)
    \<and> (dom (mg_sessions sm) = {0..<session_count sm} \<longrightarrow>
         length (dispatch_jobs sm) = card (dom (mg_sessions sm)) \<and> set (dispatch_jobs sm) = ran (mg_sessions sm))"
  by (rule scheduler_rounds[OF assms])

subsection \<open>Two runs\<close>

text \<open>One session, one worker: a clean shutdown after one job, and the one \<open>main\<close> really allows.\<close>

definition one_session :: session_manager where
  "one_session = (new_session_manager None)\<lparr>mg_sessions := [0 \<mapsto> 0]\<rparr>"

definition engine_at ::
  "sref list \<Rightarrow> bool \<Rightarrow> int \<Rightarrow> engine_worker multiset \<Rightarrow> sched_state \<Rightarrow> bool \<Rightarrow> main_state
   \<Rightarrow> session_manager \<Rightarrow> (gostring, unit, unit) session_heap \<Rightarrow> metrics \<Rightarrow> sref list \<Rightarrow> sref list
   \<Rightarrow> sref multiset \<Rightarrow> (gostring, unit, unit) engine" where
  "engine_at q cl wg W sc stop mn sm h mt sent taken fin =
     \<lparr>en_pool = \<lparr>wp_worker_count = 1, wp_queue = q, wp_closed = cl, wp_wg = wg\<rparr>,
       en_workers = W, en_sched = sc, en_stop_ch = stop, en_main = mn, en_manager = sm, en_heap = h,
       en_target_url = ''http://t/'', en_metrics = mt, en_sent = sent, en_taken = taken,
       en_finished = fin\<rparr>"

definition counts :: "64 word \<Rightarrow> 64 word \<Rightarrow> metrics" where
  "counts t s = \<lparr>mt_total = t, mt_success = s, mt_failed = 0, mt_start = At 1 0\<rparr>"

lemma session_count_one: "session_count one_session = 1"
  by (simp add: session_count_def one_session_def)

lemma at_new:
  "reach (engine_initial 1 one_session sample_heap) (engine_step j)
     (engine_at [] False 1 {#Idle#} SchedSelect False MainRunning one_session sample_heap (counts 0 0) [] [] {#})"
  by (rule reach_initial)
    (auto simp: engine_initial_def engine_new_def engine_at_def counts_def new_metrics_def
      pool_start_def start_loop_result new_worker_pool_def intro!: exI[of _ "''http://t/''"] exI[of _ "At 1 0"])

lemma at_submitting:
  "reach (engine_initial 1 one_session sample_heap) (engine_step j)
     (engine_at [] False 1 {#Idle#} (SchedSubmit 0 1 0) False MainRunning one_session sample_heap
        (counts 0 0) [] [] {#})"
proof -
  from reach_step[OF at_new select_default[of "engine_at [] False 1 {#Idle#} SchedSelect False
      MainRunning one_session sample_heap (counts 0 0) [] [] {#}" j]]
  have "reach (engine_initial 1 one_session sample_heap) (engine_step j)
     (engine_at [] False 1 {#Idle#} (SchedNext 0 1) False MainRunning one_session sample_heap
        (counts 0 0) [] [] {#})"
    by (simp add: engine_at_def session_count_one)
  from reach_step[OF this take_session[of _ 0 1 0]] show ?thesis
    by (simp add: engine_at_def get_session_def one_session_def)
qed

lemma at_done:
  "\<exists>h. reach (engine_initial 1 one_session sample_heap) (engine_step True)
     (engine_at [] True 0 {#} SchedExited True MainDone (new_session_manager None) h (counts 1 1) [0] [0] {#0#})"
proof -
  let ?I = "reach (engine_initial 1 one_session sample_heap) (engine_step True)"
  let ?sm = one_session and ?h = sample_heap
  let ?h1 = "request_done (Some 200) (At 2 0) 0 ?h"
  from reach_step[OF at_submitting submit_job[of _ 0 1 0]]
  have "?I (engine_at [0] False 1 {#Idle#} (SchedNext 1 1) False MainRunning ?sm ?h (counts 0 0) [0] [] {#})"
    by (simp add: engine_at_def submit_def pool_capacity_def)
  from reach_step[OF this round_over[of _ 1 1]]
  have "?I (engine_at [0] False 1 {#Idle#} SchedSelect False MainRunning ?sm ?h (counts 0 0) [0] [] {#})"
    by (simp add: engine_at_def)
  from reach_step[OF this scheduler_stop]
  have "?I (engine_at [0] False 1 {#Idle#} SchedSelect True MainStopped ?sm ?h (counts 0 0) [0] [] {#})"
    by (simp add: engine_at_def)
  from reach_step[OF this select_stop]
  have "?I (engine_at [0] False 1 {#Idle#} SchedExited True MainStopped ?sm ?h (counts 0 0) [0] [] {#})"
    by (simp add: engine_at_def)
  from reach_step[OF this pool_stop]
  have "?I (engine_at [0] True 1 {#Idle#} SchedExited True MainWaiting ?sm ?h (counts 0 0) [0] [] {#})"
    by (simp add: engine_at_def close_queue_def)
  from reach_step[OF this take_job[of _ "{#}" 0]]
  have "?I (engine_at [] True 1 {#Started 0#} SchedExited True MainWaiting ?sm ?h (counts 0 0) [0] [0] {#})"
    by (simp add: engine_at_def next_job_def)
  from reach_step[OF this begin_request[of _ 0 "{#}"]]
  have "?I (engine_at [] True 1 {#InFlight 0#} SchedExited True MainWaiting ?sm ?h (counts 1 0) [0] [0] {#})"
    by (simp add: engine_at_def counts_def increment_total_def)
  from reach_step[OF this end_request[of _ 0 "{#}" True "Some 200" "At 2 0"]]
  have "?I (engine_at [] True 1 {#Idle#} SchedExited True MainWaiting ?sm ?h1 (counts 1 1) [0] [0] {#0#})"
    by (simp add: engine_at_def counts_def job_outcome_def increment_success_def)
  from reach_step[OF this leave_loop[of _ "{#}"]]
  have "?I (engine_at [] True 0 {#} SchedExited True MainWaiting ?sm ?h1 (counts 1 1) [0] [0] {#0#})"
    by (simp add: engine_at_def next_job_def wg_done_def)
  from reach_step[OF this sessions_stop[of _ "[(0, 0)]"]]
  show ?thesis
    by (auto simp: engine_at_def enumerates_def one_session_def new_session_manager_def)
qed

theorem engine_shutdown_clean_witness:
  "\<exists>e. reach (engine_initial 1 one_session sample_heap) (engine_step True) e \<and> en_main e = MainDone
     \<and> en_sent e = [0] \<and> en_finished e = {#0#} \<and> ss_state (sh_mem (en_heap e) 0) = ''closed''
     \<and> mt_total (en_metrics e) = 1"
proof -
  obtain h where r: "reach (engine_initial 1 one_session sample_heap) (engine_step True)
      (engine_at [] True 0 {#} SchedExited True MainDone (new_session_manager None) h (counts 1 1) [0] [0] {#0#})"
    using at_done by blast
  have "get_session 0 one_session = Some 0" by (simp add: get_session_def one_session_def)
  with engine_shutdown_clean[OF r] have "ss_state (sh_mem h 0) = ''closed''"
    by (simp add: engine_at_def)
  with r show ?thesis by (intro exI conjI) (assumption | simp add: engine_at_def counts_def)+
qed

theorem scheduler_round_robin_witness:
  "\<exists>e k i. reach (engine_initial 1 one_session sample_heap) (engine_step True) e
     \<and> en_sched e = SchedSubmit 0 1 0
     \<and> en_sent e = concat (replicate k (dispatch_jobs one_session)) @ take i (dispatch_jobs one_session)
     \<and> length (dispatch_jobs one_session) = 1"
proof -
  have "dom (mg_sessions one_session) = {0..<session_count one_session}"
    unfolding session_count_one by (auto simp: one_session_def)
  moreover have "en_main (engine_at [] False 1 {#Idle#} (SchedSubmit 0 1 0) False MainRunning
      one_session sample_heap (counts 0 0) [] [] {#}) \<noteq> MainDone" by (simp add: engine_at_def)
  from scheduler_round_robin[OF at_submitting[of True] this] obtain k i where
    "en_sent (engine_at [] False 1 {#Idle#} (SchedSubmit 0 1 0) False MainRunning
       one_session sample_heap (counts 0 0) [] [] {#}) =
     concat (replicate k (dispatch_jobs one_session)) @ take i (dispatch_jobs one_session)"
    "dom (mg_sessions one_session) = {0..<session_count one_session} \<longrightarrow>
       length (dispatch_jobs one_session) = card (dom (mg_sessions one_session))"
    by blast
  moreover have "card (dom (mg_sessions one_session)) = 1" by (simp add: one_session_def)
  moreover have "en_sched (engine_at [] False 1 {#Idle#} (SchedSubmit 0 1 0) False MainRunning
      one_session sample_heap (counts 0 0) [] [] {#}) = SchedSubmit 0 1 0" by (simp add: engine_at_def)
  ultimately show ?thesis using at_submitting[of True] by metis
qed

text \<open>
  \<open>main\<close> does not wait for the scheduler: \<open>sc.Stop\<close> only asks its goroutine to stop, and
  \<open>wp.Stop\<close> closes the queue at once. A control goroutine inside \<open>dispatchJobs\<close> then submits to the
  closed queue, a panic that ends the process in the middle of the shutdown.
\<close>

theorem shutdown_may_panic:
  "\<exists>e. reach (engine_initial 1 one_session sample_heap) (engine_step False) e
     \<and> en_sched e = SchedPanicked \<and> en_main e = MainWaiting
     \<and> get_session 0 (en_manager e) = Some 0"
proof -
  let ?I = "reach (engine_initial 1 one_session sample_heap) (engine_step False)"
  let ?S = "SchedSubmit 0 1 0" and ?sm = one_session and ?h = sample_heap
  from reach_step[OF at_submitting scheduler_stop]
  have "?I (engine_at [] False 1 {#Idle#} ?S True MainStopped ?sm ?h (counts 0 0) [] [] {#})"
    by (simp add: engine_at_def)
  from reach_step[OF this pool_stop]
  have "?I (engine_at [] True 1 {#Idle#} ?S True MainWaiting ?sm ?h (counts 0 0) [] [] {#})"
    by (simp add: engine_at_def close_queue_def)
  from reach_step[OF this submit_to_closed[of _ 0 1 0]]
  have "?I (engine_at [] True 1 {#Idle#} SchedPanicked True MainWaiting ?sm ?h (counts 0 0) [] [] {#})"
    by (simp add: engine_at_def submit_def)
  then show ?thesis
    by (intro exI conjI) (assumption | simp add: engine_at_def get_session_def one_session_def)+
qed

text \<open>
  The counters balance at every moment, however the workers interleave: the requests counted
  are those that succeeded, those that failed and those in flight, modulo the width of the
  counters.
\<close>

theorem metrics_balance:
  assumes "reach (engine_initial n sm h) (engine_step j) e"
    and "metrics_snapshot (en_metrics e) = (all, good, bad)"
  shows "all = good + bad + word_of_nat (count_if in_flight (en_workers e))"
  using engine_pool.reach_inv[OF assms(1)] assms(2) by (auto simp: metrics_ok_def metrics_snapshot_def)

theorem metrics_balance_witness:
  "\<exists>e. reach (engine_initial 1 one_session sample_heap) (engine_step True) e
     \<and> metrics_snapshot (en_metrics e) = (1, 1, 0)
     \<and> (1::64 word) = 1 + 0 + word_of_nat (count_if in_flight (en_workers e))"
proof -
  obtain h where r: "reach (engine_initial 1 one_session sample_heap) (engine_step True)
      (engine_at [] True 0 {#} SchedExited True MainDone (new_session_manager None) h (counts 1 1) [0] [0] {#0#})"
    using at_done by blast
  have "metrics_snapshot (en_metrics (engine_at [] True 0 {#} SchedExited True MainDone
      (new_session_manager None) h (counts 1 1) [0] [0] {#0#})) = (1, 1, 0)"
    by (simp add: metrics_snapshot_def engine_at_def counts_def)
  with r metrics_balance[OF r this] show ?thesis by blast
qed

end
