(* ===== verification/Json.thy ===== *)
theory Json
  imports Complex_Main Go_Strings "HOL-Library.Log_Nat"
begin

section \<open>encoding/json: decoding into interface values\<close>

text \<open>
  \<open>json.Unmarshal\<close> into an \<open>interface{}\<close>, as the payload validator and the token managers use it: the
  grammar with its limit on nesting, the decoding of strings (escapes, surrogate pairs, repair of
  invalid UTF-8), the rounding of numbers to \<open>float64\<close> and the error for those out of its range,
  and objects as maps, in which a repeated key keeps its last value.
\<close>

subsection \<open>Values\<close>

text \<open>The members of an object have distinct keys; their order is not part of the value.\<close>

datatype json =
    JNull
  | JBool bool
  | JNum rat
  | JStr gostring
  | JArr "json list"
  | JObj "(gostring \<times> json) list"

subsection \<open>float64\<close>

definition pow2 :: "int \<Rightarrow> rat" where
  "pow2 k = (if k \<ge> 0 then 2 ^ nat k else 1 / 2 ^ nat (- k))"

definition exponent2 :: "rat \<Rightarrow> int" where
  "exponent2 x =
     (let (n, d) = quotient_of x; k = bitlen n - bitlen d in if pow2 k \<le> x then k else k - 1)"

definition round_half_even :: "rat \<Rightarrow> int" where
  "round_half_even x =
     (let f = \<lfloor>x\<rfloor>; r = x - of_int f in
      if r < 1 / 2 then f else if r > 1 / 2 then f + 1 else if even f then f else f + 1)"

text \<open>None: the number overflows, for which the decoder reports an error.\<close>

definition float64_of :: "rat \<Rightarrow> rat option" where
  "float64_of x =
     (if x = 0 then Some 0
      else
        (let a = \<bar>x\<bar>; u = pow2 (max (exponent2 a - 52) (- 1074));
             r = of_int (round_half_even (a / u)) * u
         in if r \<ge> 2 ^ 1024 then None else Some (if x < 0 then - r else r)))"

text \<open>Conversion to \<open>int64\<close> drops the fraction; out of range amd64 gives the least integer.\<close>

definition int64_of :: "rat \<Rightarrow> int" where
  "int64_of x =
     (let i = (if x < 0 then - \<lfloor>- x\<rfloor> else \<lfloor>x\<rfloor>) in
      if - (2 ^ 63) \<le> i \<and> i < 2 ^ 63 then i else - (2 ^ 63))"

subsection \<open>Strings\<close>

definition code :: "char \<Rightarrow> nat" where
  "code c = of_char c"

lemma byte_code [simp]: "byte (code c) = c"
  by (simp add: byte_def code_def)

lemma code_byte [simp]: "m < 256 \<Longrightarrow> code (byte m) = m"
  by (simp add: byte_def code_def)

lemma code_eq: "code c = n \<Longrightarrow> c = byte n"
  by auto

definition utf8_encode :: "nat \<Rightarrow> gostring" where
  "utf8_encode n =
     (if n < 128 then [byte n]
      else if n < 2048 then [byte (192 + n div 64), byte (128 + n mod 64)]
      else if n < 65536 then [byte (224 + n div 4096), byte (128 + n div 64 mod 64), byte (128 + n mod 64)]
      else [byte (240 + n div 262144), byte (128 + n div 4096 mod 64), byte (128 + n div 64 mod 64),
            byte (128 + n mod 64)])"

definition rune_error :: gostring where
  "rune_error = [CHR 0xEF, CHR 0xBF, CHR 0xBD]"

definition in_range :: "nat \<Rightarrow> nat \<Rightarrow> char \<Rightarrow> bool" where
  "in_range lo hi c \<longleftrightarrow> lo \<le> code c \<and> code c \<le> hi"

definition tail_byte :: "char \<Rightarrow> bool" where
  "tail_byte c \<longleftrightarrow> in_range 128 191 c"

text \<open>The number of bytes of the valid sequence at the front, 0 when there is none.\<close>

fun utf8_length :: "gostring \<Rightarrow> nat" where
  "utf8_length (a # rest) =
     (if code a < 128 then 1
      else
        (case rest of
           b # rest1 \<Rightarrow>
             if in_range 194 223 a \<and> tail_byte b then 2
             else
               (case rest1 of
                  c # rest2 \<Rightarrow>
                    if tail_byte c \<and> (code a = 224 \<and> in_range 160 191 b
                        \<or> (in_range 225 236 a \<or> in_range 238 239 a) \<and> tail_byte b
                        \<or> code a = 237 \<and> in_range 128 159 b)
                    then 3
                    else
                      (case rest2 of
                         d # _ \<Rightarrow>
                           if tail_byte c \<and> tail_byte d \<and> (code a = 240 \<and> in_range 144 191 b
                               \<or> in_range 241 243 a \<and> tail_byte b
                               \<or> code a = 244 \<and> in_range 128 143 b)
                           then 4 else 0
                       | [] \<Rightarrow> 0)
                | [] \<Rightarrow> 0)
         | [] \<Rightarrow> 0))"
| "utf8_length [] = 0"

definition hex_digit :: "char \<Rightarrow> nat option" where
  "hex_digit c =
     (if in_range 48 57 c then Some (code c - 48)
      else if in_range 97 102 c then Some (code c - 87)
      else if in_range 65 70 c then Some (code c - 55) else None)"

lemma hex_digit_char: "d < 16 \<Longrightarrow> hex_digit (hex_char d) = Some d"
  by (auto simp: hex_digit_def hex_char_def in_range_def)

fun hex4 :: "gostring \<Rightarrow> (nat \<times> gostring) option" where
  "hex4 (a # b # c # d # rest) =
     (case (hex_digit a, hex_digit b, hex_digit c, hex_digit d) of
        (Some w, Some x, Some y, Some z) \<Rightarrow> Some (w * 4096 + x * 256 + y * 16 + z, rest)
      | _ \<Rightarrow> None)"
| "hex4 _ = None"

definition is_surrogate :: "nat \<Rightarrow> bool" where
  "is_surrogate n \<longleftrightarrow> 55296 \<le> n \<and> n < 57344"

text \<open>After a \<open>\u\<close> escape: a high surrogate takes a low one escaped right behind it.\<close>

definition escaped_rune :: "nat \<Rightarrow> gostring \<Rightarrow> gostring \<times> gostring" where
  "escaped_rune n rest =
     (if is_surrogate n then
        (case rest of
           a # b # rest1 \<Rightarrow>
             if a = CHR 0x5C \<and> b = CHR ''u'' then
               (case hex4 rest1 of
                  Some (k, rest2) \<Rightarrow>
                    if n < 56320 \<and> 56320 \<le> k \<and> k < 57344
                    then (utf8_encode ((n - 55296) * 1024 + (k - 56320) + 65536), rest2)
                    else (rune_error, rest)
                | None \<Rightarrow> (rune_error, rest))
             else (rune_error, rest)
         | _ \<Rightarrow> (rune_error, rest))
      else (utf8_encode n, rest))"

definition simple_escape :: "char \<Rightarrow> char option" where
  "simple_escape c =
     (if c \<in> {CHR 0x22, CHR 0x5C, CHR ''/''} then Some c
      else if c = CHR ''b'' then Some CHR 0x08 else if c = CHR ''f'' then Some CHR 0x0C
      else if c = CHR ''n'' then Some CHR 0x0A else if c = CHR ''r'' then Some CHR 0x0D
      else if c = CHR ''t'' then Some CHR 0x09 else None)"

text \<open>The rest of a string literal after its opening quote; each round reads a byte at least.\<close>

fun parse_string :: "nat \<Rightarrow> gostring \<Rightarrow> (gostring \<times> gostring) option" where
  "parse_string 0 s = None"
| "parse_string (Suc f) s =
     (case s of
        [] \<Rightarrow> None
      | c # rest \<Rightarrow>
          if c = CHR 0x22 then Some ([], rest)
          else if code c < 32 then None
          else if c = CHR 0x5C then
            (case rest of
               [] \<Rightarrow> None
             | e # rest1 \<Rightarrow>
                 if e = CHR ''u'' then
                   (case hex4 rest1 of
                      None \<Rightarrow> None
                    | Some (n, rest2) \<Rightarrow>
                        (let (r, rest3) = escaped_rune n rest2 in
                         map_option (\<lambda>(t, s'). (r @ t, s')) (parse_string f rest3)))
                 else
                   (case simple_escape e of
                      None \<Rightarrow> None
                    | Some d \<Rightarrow> map_option (\<lambda>(t, s'). (d # t, s')) (parse_string f rest1)))
          else
            (let n = utf8_length s in
             if n = 0 then map_option (\<lambda>(t, s'). (rune_error @ t, s')) (parse_string f rest)
             else map_option (\<lambda>(t, s'). (take n s @ t, s')) (parse_string f (drop n s))))"

subsection \<open>Numbers\<close>

definition is_digit :: "char \<Rightarrow> bool" where
  "is_digit c \<longleftrightarrow> in_range 48 57 c"

fun digits_value :: "int \<Rightarrow> gostring \<Rightarrow> int" where
  "digits_value acc [] = acc"
| "digits_value acc (c # cs) = digits_value (acc * 10 + (int (code c) - 48)) cs"

definition span_digits :: "gostring \<Rightarrow> gostring \<times> gostring" where
  "span_digits s = (takeWhile is_digit s, dropWhile is_digit s)"

text \<open>Integer part without superfluous zeros, fraction, exponent; None where a digit is missing.\<close>

definition parse_int_part :: "gostring \<Rightarrow> (gostring \<times> gostring) option" where
  "parse_int_part s =
     (case s of
        [] \<Rightarrow> None
      | c # rest \<Rightarrow> if c = CHR ''0'' then Some ([c], rest)
                    else if is_digit c then Some (span_digits s) else None)"

definition parse_fraction :: "gostring \<Rightarrow> (gostring \<times> gostring) option" where
  "parse_fraction s =
     (case s of
        c # rest \<Rightarrow>
          if c = CHR ''.'' then
            (let (ds, r) = span_digits rest in if ds = [] then None else Some (ds, r))
          else Some ([], s)
      | [] \<Rightarrow> Some ([], s))"

definition parse_exponent :: "gostring \<Rightarrow> (int \<times> gostring) option" where
  "parse_exponent s =
     (case s of
        c # rest \<Rightarrow>
          if c = CHR ''e'' \<or> c = CHR ''E'' then
            (let (neg, rest1) =
               (case rest of
                  d # r \<Rightarrow> if d = CHR ''-'' then (True, r) else if d = CHR ''+'' then (False, r) else (False, rest)
                | [] \<Rightarrow> (False, rest));
                 (ds, r) = span_digits rest1
             in if ds = [] then None
                else Some ((if neg then - digits_value 0 ds else digits_value 0 ds), r))
          else Some (0, s)
      | [] \<Rightarrow> Some (0, s))"

definition scale10 :: "int \<Rightarrow> int \<Rightarrow> rat" where
  "scale10 m e = (if e \<ge> 0 then of_int m * 10 ^ nat e else of_int m / 10 ^ nat (- e))"

definition parse_number :: "gostring \<Rightarrow> (rat \<times> gostring) option" where
  "parse_number s =
     (let (neg, s1) = (case s of c # r \<Rightarrow> if c = CHR ''-'' then (True, r) else (False, s) | [] \<Rightarrow> (False, s))
      in case parse_int_part s1 of
           None \<Rightarrow> None
         | Some (ip, s2) \<Rightarrow>
             (case parse_fraction s2 of
                None \<Rightarrow> None
              | Some (fp, s3) \<Rightarrow>
                  (case parse_exponent s3 of
                     None \<Rightarrow> None
                   | Some (e, s4) \<Rightarrow>
                       (let m = digits_value 0 (ip @ fp);
                            x = scale10 (if neg then - m else m) (e - int (length fp))
                        in map_option (\<lambda>y. (y, s4)) (float64_of x)))))"

subsection \<open>Values\<close>

definition skip_space :: "gostring \<Rightarrow> gostring" where
  "skip_space s = dropWhile (\<lambda>c. c \<in> {CHR 0x20, CHR 0x09, CHR 0x0D, CHR 0x0A}) s"

definition literal :: "gostring \<Rightarrow> gostring \<Rightarrow> gostring option" where
  "literal w s = (if is_prefix w s then Some (drop (length w) s) else None)"

text \<open>Writing a member: a key that is there already takes the new value.\<close>

fun put_member :: "gostring \<Rightarrow> json \<Rightarrow> (gostring \<times> json) list \<Rightarrow> (gostring \<times> json) list" where
  "put_member k v [] = [(k, v)]"
| "put_member k v ((k', v') # ms) =
     (if k' = k then (k, v) # ms else (k', v') # put_member k v ms)"

text \<open>
  The fuel bounds the depth of the calls. A value inside brackets costs two levels and a further
  member or element one, each for a byte read at least, so twice the length of the text is enough;
  \<open>d\<close> is how much deeper values may nest.
\<close>

fun parse_value :: "nat \<Rightarrow> nat \<Rightarrow> gostring \<Rightarrow> (json \<times> gostring) option"
  and parse_elements :: "nat \<Rightarrow> nat \<Rightarrow> gostring \<Rightarrow> (json list \<times> gostring) option"
  and parse_members :: "nat \<Rightarrow> nat \<Rightarrow> (gostring \<times> json) list \<Rightarrow> gostring
    \<Rightarrow> ((gostring \<times> json) list \<times> gostring) option" where
  "parse_value 0 d s = None"
| "parse_value (Suc f) d s =
     (case skip_space s of
        [] \<Rightarrow> None
      | c # rest \<Rightarrow>
          if c = CHR ''{'' then
            (if d = 0 then None
             else
               (case skip_space rest of
                  [] \<Rightarrow> None
                | c1 # rest1 \<Rightarrow>
                    if c1 = CHR ''}'' then Some (JObj [], rest1)
                    else map_option (\<lambda>(ms, s'). (JObj ms, s')) (parse_members f (d - 1) [] rest)))
          else if c = CHR ''['' then
            (if d = 0 then None
             else
               (case skip_space rest of
                  [] \<Rightarrow> None
                | c1 # rest1 \<Rightarrow>
                    if c1 = CHR '']'' then Some (JArr [], rest1)
                    else map_option (\<lambda>(es, s'). (JArr es, s')) (parse_elements f (d - 1) rest)))
          else if c = CHR 0x22 then
            map_option (\<lambda>(t, s'). (JStr t, s')) (parse_string (Suc (length rest)) rest)
          else if c = CHR ''t'' then map_option (Pair (JBool True)) (literal ''true'' (c # rest))
          else if c = CHR ''f'' then map_option (Pair (JBool False)) (literal ''false'' (c # rest))
          else if c = CHR ''n'' then map_option (Pair JNull) (literal ''null'' (c # rest))
          else map_option (\<lambda>(x, s'). (JNum x, s')) (parse_number (c # rest)))"
| "parse_elements 0 d s = None"
| "parse_elements (Suc f) d s =
     (case parse_value f d s of
        None \<Rightarrow> None
      | Some (v, s1) \<Rightarrow>
          (case skip_space s1 of
             [] \<Rightarrow> None
           | c # rest \<Rightarrow>
               if c = CHR '']'' then Some ([v], rest)
               else if c = CHR '','' then map_option (\<lambda>(vs, s'). (v # vs, s')) (parse_elements f d rest)
               else None))"
| "parse_members 0 d ms s = None"
| "parse_members (Suc f) d ms s =
     (case skip_space s of
        [] \<Rightarrow> None
      | q # rest \<Rightarrow>
          if q \<noteq> CHR 0x22 then None
          else
            (case parse_string (Suc (length rest)) rest of
               None \<Rightarrow> None
             | Some (k, s1) \<Rightarrow>
                 (case skip_space s1 of
                    [] \<Rightarrow> None
                  | c # rest1 \<Rightarrow>
                      if c \<noteq> CHR '':'' then None
                      else
                        (case parse_value f d rest1 of
                           None \<Rightarrow> None
                         | Some (v, s2) \<Rightarrow>
                             (case skip_space s2 of
                                [] \<Rightarrow> None
                              | e # rest2 \<Rightarrow>
                                  if e = CHR ''}'' then Some (put_member k v ms, rest2)
                                  else if e = CHR '','' then parse_members f d (put_member k v ms) rest2
                                  else None)))))"

definition max_nesting :: nat where
  "max_nesting = 10000"

definition unmarshal :: "gostring \<Rightarrow> goerror + json" where
  "unmarshal data =
     (case parse_value (2 * length data + 2) max_nesting data of
        Some (v, rest) \<Rightarrow> if skip_space rest = [] then Inr v else Inl ''invalid character after top-level value''
      | None \<Rightarrow> Inl ''invalid JSON'')"

subsection \<open>The decoder reads on, and its fuel suffices\<close>

lemma skip_space_shorter: "skip_space s = c # rest \<Longrightarrow> length rest < length s"
  unfolding skip_space_def by (metis Suc_le_lessD length_Cons length_dropWhile_le)

lemma literal_shorter:
  assumes "literal w s = Some r"
  shows "length r + length w = length s"
proof -
  have p: "take (length w) s = w" "r = drop (length w) s" using assms by (auto simp: literal_def is_prefix_def split: if_splits)
  from p(1) have "length w \<le> length s" by (metis length_take min.cobounded1)
  then show ?thesis by (simp add: p(2))
qed

lemma hex4_shorter: "hex4 s = Some (n, r) \<Longrightarrow> length r + 4 = length s"
  by (cases s rule: hex4.cases) (simp_all split: option.splits)

lemma escaped_rune_shorter: "escaped_rune n s = (r, s') \<Longrightarrow> length s' \<le> length s"
  by (auto simp: escaped_rune_def split: if_splits list.splits option.splits dest!: hex4_shorter)

lemma parse_string_shorter: "parse_string f s = Some (t, s') \<Longrightarrow> length s' < length s"
proof (induction f arbitrary: s t s')
  case (Suc f)
  note IH = Suc.IH
  have esc: "length s'' < length r2" if "(case escaped_rune n r2 of (r, rest3) \<Rightarrow>
      map_option (\<lambda>(t, s'). (r @ t, s')) (parse_string f rest3)) = Some (t'', s'')" for n r2 t'' s''
  proof -
    obtain r rest3 where e: "escaped_rune n r2 = (r, rest3)" by fastforce
    with that obtain t1 where "parse_string f rest3 = Some (t1, s'')" by auto
    with IH escaped_rune_shorter[OF e] show ?thesis by fastforce
  qed
  show ?case
    using Suc.prems
    by (auto simp: Let_def split: list.splits if_splits option.splits dest!: IH esc hex4_shorter)
qed simp

declare parse_string.simps [simp del]

lemma span_digits_shorter: "span_digits s = (ds, r) \<Longrightarrow> length r \<le> length s"
  by (auto simp: span_digits_def length_dropWhile_le)

lemma parse_int_part_shorter: "parse_int_part s = Some (ds, r) \<Longrightarrow> length r < length s"
  by (auto simp: parse_int_part_def span_digits_def split: list.splits if_splits intro: le_imp_less_Suc length_dropWhile_le)

lemma parse_fraction_shorter: "parse_fraction s = Some (ds, r) \<Longrightarrow> length r \<le> length s"
  by (auto simp: parse_fraction_def split: list.splits if_splits prod.splits dest!: span_digits_shorter)

lemma parse_exponent_shorter: "parse_exponent s = Some (e, r) \<Longrightarrow> length r \<le> length s"
  by (auto simp: parse_exponent_def split: list.splits if_splits prod.splits dest!: span_digits_shorter)

lemma parse_number_shorter:
  assumes "parse_number s = Some (x, r)"
  shows "length r < length s"
proof -
  obtain neg s1 where s1: "(case s of c # r \<Rightarrow> if c = CHR ''-'' then (True, r) else (False, s) | [] \<Rightarrow> (False, s)) = (neg, s1)"
    by fastforce
  have "length s1 \<le> length s" using s1 by (auto split: list.splits if_splits)
  moreover obtain ip s2 fp s3 e where "parse_int_part s1 = Some (ip, s2)" "parse_fraction s2 = Some (fp, s3)"
    "parse_exponent s3 = Some (e, r)"
    using assms by (auto simp: parse_number_def s1 Let_def split: option.splits)
  ultimately show ?thesis
    using parse_int_part_shorter[of s1 ip s2] parse_fraction_shorter[of s2 fp s3] parse_exponent_shorter[of s3 e r] by simp
qed

lemma parse_shorter:
  "parse_value f d s = Some (v, r) \<Longrightarrow> length r < length s"
  "parse_elements f d s = Some (vs, r) \<Longrightarrow> length r < length s"
  "parse_members f d ms s = Some (ms', r) \<Longrightarrow> length r < length s"
proof (induction f d s and f d s and f d ms s arbitrary: v r and vs r and ms' r rule: parse_value_parse_elements_parse_members.induct)
  case (2 f d s)
  note prems = "2.prems" and IH = "2.IH"
  obtain c rest where c: "skip_space s = c # rest" using prems by (auto split: list.splits)
  have r: "length rest < length s" by (rule skip_space_shorter[OF c])
  consider "c = CHR ''{''" | "c = CHR ''[''" | "c \<noteq> CHR ''{''" "c \<noteq> CHR ''[''" by blast
  then show ?case
  proof cases
    case 1
    with prems r IH(1)[OF c 1] show ?thesis
      by (auto simp: c split: list.splits if_splits dest!: skip_space_shorter) (blast intro: less_trans)
  next
    case 2
    with prems r IH(2)[OF c _ 2] show ?thesis
      by (auto simp: c split: list.splits if_splits dest!: skip_space_shorter) (blast intro: less_trans)
  next
    case 3
    with prems r show ?thesis
      by (auto simp: c split: if_splits dest!: parse_string_shorter literal_shorter parse_number_shorter)
  qed
next
  case (4 f d s)
  note prems = "4.prems" and IH = "4.IH"
  obtain v s1 where v: "parse_value f d s = Some (v, s1)" using prems by (auto split: option.splits)
  obtain c rest where c: "skip_space s1 = c # rest" using prems by (auto simp: v split: list.splits)
  have "length rest < length s" using skip_space_shorter[OF c] IH(1)[OF v] by simp
  with prems IH(2)[OF v refl c] show ?case
    by (auto simp: v c split: if_splits)
next
  case (6 f d ms s)
  note prems = "6.prems" and IH = "6.IH"
  obtain q rest where q: "skip_space s = q # rest" "q = CHR 0x22" using prems by (auto split: list.splits if_splits)
  obtain k s1 where k: "parse_string (Suc (length rest)) rest = Some (k, s1)" using prems q by (auto split: option.splits)
  obtain c rest1 where c: "skip_space s1 = c # rest1" "c = CHR '':''" using prems q k by (auto split: list.splits if_splits)
  obtain v s2 where v: "parse_value f d rest1 = Some (v, s2)" using prems q k c by (auto split: option.splits)
  obtain e rest2 where e: "skip_space s2 = e # rest2" using prems q k c v by (auto split: list.splits)
  have "length rest2 < length s"
    using skip_space_shorter[OF q(1)] parse_string_shorter[OF k] skip_space_shorter[OF c(1)] skip_space_shorter[OF e]
      IH(1)[OF q(1) _ k refl c(1) _ v] q(2) c(2) by simp
  with prems IH(2)[OF q(1) _ k refl c(1) _ v refl e] q c(2) show ?case
    by (auto simp: k c v e split: if_splits)
qed auto


text \<open>Fuel beyond twice the length of the text does not change what is read.\<close>

lemma parse_fuel:
  "2 * length s + 1 \<le> f \<Longrightarrow> 2 * length s + 1 \<le> f' \<Longrightarrow> parse_value f d s = parse_value f' d s"
  "2 * length s + 2 \<le> f \<Longrightarrow> 2 * length s + 2 \<le> f' \<Longrightarrow> parse_elements f d s = parse_elements f' d s"
  "2 * length s + 2 \<le> f \<Longrightarrow> 2 * length s + 2 \<le> f' \<Longrightarrow> parse_members f d ms s = parse_members f' d ms s"
proof (induction f d s and f d s and f d ms s arbitrary: f' and f' and f' rule: parse_value_parse_elements_parse_members.induct)
  case (2 f d s)
  note prems = "2.prems" and IH = "2.IH"
  obtain g where g: "f' = Suc g" using prems by (cases f') auto
  show ?case
  proof (cases "skip_space s")
    case (Cons c rest)
    have l: "2 * length rest + 2 \<le> f" "2 * length rest + 2 \<le> g"
      using prems skip_space_shorter[OF Cons] by (auto simp: g)
    show ?thesis
    proof (cases "skip_space rest")
      case (Cons c1 rest1)
      consider "c = CHR ''{''" | "c = CHR ''[''" | "c \<noteq> CHR ''{''" "c \<noteq> CHR ''[''" by blast
      then show ?thesis
      proof cases
        case 1
        with IH(1)[OF \<open>skip_space s = c # rest\<close> 1 _ Cons _ l] Cons \<open>skip_space s = c # rest\<close> show ?thesis by (simp add: g)
      next
        case 2
        with IH(2)[OF \<open>skip_space s = c # rest\<close> _ 2 _ Cons _ l] Cons \<open>skip_space s = c # rest\<close> show ?thesis by (simp add: g)
      next
        case 3
        then show ?thesis using \<open>skip_space s = c # rest\<close> by (simp add: g)
      qed
    qed (simp add: g \<open>skip_space s = c # rest\<close>)
  qed (simp add: g)
next
  case (4 f d s)
  note prems = "4.prems" and IH = "4.IH"
  obtain g where g: "f' = Suc g" using prems by (cases f') auto
  have v: "parse_value f d s = parse_value g d s" using prems by (intro IH(1)) (simp_all add: g)
  show ?case
  proof (cases "parse_value f d s")
    case (Some p)
    obtain w s1 where w: "parse_value f d s = Some (w, s1)" using Some by (cases p) auto
    have w': "parse_value g d s = Some (w, s1)" using v w by simp
    show ?thesis
    proof (cases "skip_space s1")
      case (Cons c rest)
      have "length rest + 2 \<le> length s" using skip_space_shorter[OF Cons] parse_shorter(1)[OF w] by simp
      then have "parse_elements f d rest = parse_elements g d rest" if "c \<noteq> CHR '']''" "c = CHR '',''"
        using prems by (intro IH(2)[OF w refl Cons that]) (simp_all add: g)
      then show ?thesis using w w' Cons by (simp add: g)
    qed (use w w' in \<open>simp add: g\<close>)
  qed (use v in \<open>simp add: g\<close>)
next
  case (6 f d ms s)
  note prems = "6.prems" and IH = "6.IH"
  obtain g where g: "f' = Suc g" using prems by (cases f') auto
  show ?case
  proof (cases "skip_space s")
    case (Cons q rest)
    note q = this
    show ?thesis
    proof (cases "q = CHR 0x22 \<and> parse_string (Suc (length rest)) rest \<noteq> None")
      case True
      then obtain k s1 where k: "q = CHR 0x22" "parse_string (Suc (length rest)) rest = Some (k, s1)" by auto
      show ?thesis
      proof (cases "skip_space s1")
        case (Cons c rest1)
        note c = this
        have l: "length rest1 + 3 \<le> length s" using skip_space_shorter[OF q] parse_string_shorter[OF k(2)] skip_space_shorter[OF c] by simp
        show ?thesis
        proof (cases "c = CHR '':''")
          case True
          have v: "parse_value f d rest1 = parse_value g d rest1"
            using prems l k(1) True by (intro IH(1)[OF q _ k(2) refl c]) (simp_all add: g)
          show ?thesis
          proof (cases "parse_value f d rest1")
            case (Some p)
            then obtain w s2 where w: "parse_value f d rest1 = Some (w, s2)" by (cases p) auto
            have w': "parse_value g d rest1 = Some (w, s2)" using v w by simp
            show ?thesis
            proof (cases "skip_space s2")
              case (Cons e rest2)
              have "length rest2 + 2 \<le> length s" using l skip_space_shorter[OF Cons] parse_shorter(1)[OF w] by simp
              then have "parse_members f d (put_member k w ms) rest2 = parse_members g d (put_member k w ms) rest2"
                if "e \<noteq> CHR ''}''" "e = CHR '',''"
                using prems k(1) True by (intro IH(2)[OF q _ k(2) refl c _ w refl Cons that]) (simp_all add: g)
              then show ?thesis using q k c True w w' Cons by (simp add: g)
            qed (use q k c True w w' in \<open>simp add: g\<close>)
          qed (use q k c True v in \<open>simp add: g\<close>)
        qed (use q k c in \<open>simp add: g\<close>)
      qed (use q k in \<open>simp add: g\<close>)
    qed (use q in \<open>auto simp: g split: option.split\<close>)
  qed (simp add: g)
qed auto

text \<open>
  The decoder's recursion is bounded by the text: with any more fuel than \<open>unmarshal\<close> gives it, it
  reads the same value and leaves the same rest. So running out of fuel is never the reason for an
  error.
\<close>

theorem decoder_fuel_suffices:
  "parse_value (2 * length data + 2 + n) d data = parse_value (2 * length data + 2) d data"
  by (rule parse_fuel(1)) simp_all

subsection \<open>Decoded objects\<close>

fun distinct_keys :: "json \<Rightarrow> bool" where
  "distinct_keys (JArr vs) = (\<forall>v \<in> set vs. distinct_keys v)"
| "distinct_keys (JObj ms) = (distinct (map fst ms) \<and> (\<forall>m \<in> set ms. distinct_keys (snd m)))"
| "distinct_keys v = True"

lemma put_member_keys: "fst ` set (put_member k v ms) = insert k (fst ` set ms)"
  by (induction k v ms rule: put_member.induct) auto

lemma put_member_distinct:
  "distinct_keys v \<Longrightarrow> distinct_keys (JObj ms) \<Longrightarrow> distinct_keys (JObj (put_member k v ms))"
  by (induction k v ms rule: put_member.induct) (auto simp: put_member_keys)

lemma parse_distinct_keys:
  "parse_value f d s = Some (v, r) \<Longrightarrow> distinct_keys v"
  "parse_elements f d s = Some (vs, r) \<Longrightarrow> distinct_keys (JArr vs)"
  "parse_members f d ms s = Some (ms', r) \<Longrightarrow> distinct_keys (JObj ms) \<Longrightarrow> distinct_keys (JObj ms')"
proof (induction f d s and f d s and f d ms s arbitrary: v r and vs r and ms' r rule: parse_value_parse_elements_parse_members.induct)
  case (2 f d s)
  note prems = "2.prems" and IH = "2.IH"
  obtain c rest where c: "skip_space s = c # rest" using prems by (auto split: list.splits)
  consider "c = CHR ''{''" | "c = CHR ''[''" | "c \<noteq> CHR ''{''" "c \<noteq> CHR ''[''" by blast
  then show ?case
  proof cases
    case 1
    with prems IH(1)[OF c 1] show ?thesis by (auto simp: c split: list.splits if_splits)
  next
    case 2
    with prems IH(2)[OF c _ 2] show ?thesis by (auto simp: c split: list.splits if_splits)
  next
    case 3
    with prems show ?thesis by (auto simp: c split: if_splits)
  qed
next
  case (4 f d s)
  note prems = "4.prems" and IH = "4.IH"
  obtain v s1 where v: "parse_value f d s = Some (v, s1)" using prems by (auto split: option.splits)
  obtain c rest where c: "skip_space s1 = c # rest" using prems by (auto simp: v split: list.splits)
  from prems IH(1)[OF v] IH(2)[OF v refl c] show ?case by (auto simp: v c split: if_splits)
next
  case (6 f d ms s)
  note prems = "6.prems" and IH = "6.IH"
  obtain q rest where q: "skip_space s = q # rest" "q = CHR 0x22" using prems by (auto split: list.splits if_splits)
  obtain k s1 where k: "parse_string (Suc (length rest)) rest = Some (k, s1)" using prems q by (auto split: option.splits)
  obtain c rest1 where c: "skip_space s1 = c # rest1" "c = CHR '':''" using prems q k by (auto split: list.splits if_splits)
  obtain v s2 where v: "parse_value f d rest1 = Some (v, s2)" using prems q k c by (auto split: option.splits)
  obtain e rest2 where e: "skip_space s2 = e # rest2" using prems q k c v by (auto split: list.splits)
  have "distinct_keys (JObj (put_member k v ms))"
    using prems(2) IH(1)[OF q(1) _ k refl c(1) _ v] q(2) c(2) by (intro put_member_distinct) simp_all
  with prems IH(2)[OF q(1) _ k refl c(1) _ v refl e] q c(2) show ?case
    by (auto simp: k c v e split: if_splits)
qed auto

declare parse_value.simps [simp del]

lemma unmarshal_distinct_keys: "unmarshal data = Inr v \<Longrightarrow> distinct_keys v"
  unfolding unmarshal_def using parse_distinct_keys(1) by (auto split: option.splits if_splits prod.splits)

end
