(* ===== verification/Json_Encode.thy ===== *)
theory Json_Encode
  imports Json
begin

section \<open>encoding/json: the encoder\<close>

text \<open>
  The encoder of the standard library, for the values the program encodes: numbers, booleans,
  strings, lists and objects with their members in order. The text of a \<open>float64\<close> is an argument.
  Decoding what was encoded gives the value back, but for bytes of a string that are no UTF-8,
  which are replaced.
\<close>

subsection \<open>Strings\<close>

text \<open>Below 128, with the escapes that keep the text safe inside HTML.\<close>

definition json_ascii :: "char \<Rightarrow> gostring" where
  "json_ascii c =
     (if c = CHR 0x22 \<or> c = CHR 0x5C then [CHR 0x5C, c]
      else if 32 \<le> code c \<and> c \<notin> {CHR ''<'', CHR ''>'', CHR ''&''} then [c]
      else if code c = 8 then [CHR 0x5C, CHR ''b'']
      else if code c = 12 then [CHR 0x5C, CHR ''f'']
      else if code c = 10 then [CHR 0x5C, CHR ''n'']
      else if code c = 13 then [CHR 0x5C, CHR ''r'']
      else if code c = 9 then [CHR 0x5C, CHR ''t'']
      else [CHR 0x5C, CHR ''u'', CHR ''0'', CHR ''0''] @ hex_text 2 (code c))"

definition json_rune :: "gostring \<Rightarrow> gostring" where
  "json_rune e =
     (if e = [CHR 0xE2, CHR 0x80, CHR 0xA8] then [CHR 0x5C] @ ''u2028''
      else if e = [CHR 0xE2, CHR 0x80, CHR 0xA9] then [CHR 0x5C] @ ''u2029'' else e)"

fun json_body :: "gostring \<Rightarrow> gostring" where
  "json_body [] = []"
| "json_body (c # s) =
     (if code c < 128 then json_ascii c @ json_body s
      else
        (let n = utf8_length (c # s) in
         if n = 0 then [CHR 0x5C] @ ''ufffd'' @ json_body s
         else json_rune (take n (c # s)) @ json_body (drop (n - 1) s)))"

definition json_string :: "gostring \<Rightarrow> gostring" where
  "json_string s = [CHR 0x22] @ json_body s @ [CHR 0x22]"

text \<open>A string with every byte that is part of no character replaced by U+FFFD.\<close>

fun utf8_fix :: "gostring \<Rightarrow> gostring" where
  "utf8_fix [] = []"
| "utf8_fix (c # s) =
     (if code c < 128 then c # utf8_fix s
      else
        (let n = utf8_length (c # s) in
         if n = 0 then rune_error @ utf8_fix s else take n (c # s) @ utf8_fix (drop (n - 1) s)))"

subsection \<open>Reading a string back\<close>

lemma utf8_length_take:
  assumes "utf8_length s = n" "0 < n"
  shows "utf8_length (take n s @ t) = n"
proof -
  consider "s = []" | a where "s = [a]" | a b where "s = [a, b]" | a b c where "s = [a, b, c]"
    | a b c d r where "s = a # b # c # d # r"
    by (metis list.exhaust)
  then show ?thesis
    using assms by cases (auto split: if_splits list.splits)
qed

lemma parse_string_end: "parse_string (Suc f) (CHR 0x22 # rest) = Some ([], rest)"
  by (subst parse_string.simps) simp

lemma parse_string_plain:
  "32 \<le> code c \<Longrightarrow> code c < 128 \<Longrightarrow> c \<noteq> CHR 0x22 \<Longrightarrow> c \<noteq> CHR 0x5C \<Longrightarrow>
    parse_string (Suc f) (c # s) = map_option (\<lambda>(t, s'). (c # t, s')) (parse_string f s)"
  by (subst parse_string.simps) simp

lemma parse_string_escape:
  "simple_escape e = Some d \<Longrightarrow>
    parse_string (Suc f) (CHR 0x5C # e # s) = map_option (\<lambda>(t, s'). (d # t, s')) (parse_string f s)"
  by (subst parse_string.simps) (auto simp: simple_escape_def code_def split: if_splits)

lemma parse_string_hex:
  "hex4 s = Some (n, s1) \<Longrightarrow> \<not> is_surrogate n \<Longrightarrow>
    parse_string (Suc f) (CHR 0x5C # CHR ''u'' # s) = map_option (\<lambda>(t, s'). (utf8_encode n @ t, s')) (parse_string f s1)"
  by (subst parse_string.simps) (simp add: escaped_rune_def code_def)

lemma parse_string_rune:
  "128 \<le> code c \<Longrightarrow> utf8_length (c # s) = n \<Longrightarrow> 0 < n \<Longrightarrow>
    parse_string (Suc f) (c # s) = map_option (\<lambda>(t, s'). (take n (c # s) @ t, s')) (parse_string f (drop n (c # s)))"
  by (subst parse_string.simps) (auto simp: code_def Let_def)

lemma utf8_length_le: "utf8_length s \<le> length s"
  by (cases s rule: utf8_length.cases) (auto split: list.splits)

text \<open>One piece of an encoded string and the text it is read as.\<close>

definition json_piece :: "gostring \<Rightarrow> gostring \<Rightarrow> bool" where
  "json_piece e v \<longleftrightarrow> e \<noteq> []
     \<and> (\<forall>f s. parse_string (Suc f) (e @ s) = map_option (\<lambda>(t, s'). (v @ t, s')) (parse_string f s))"

lemma json_piece_unicode:
  "hex4 e = Some (n, []) \<Longrightarrow> \<not> is_surrogate n \<Longrightarrow> v = utf8_encode n \<Longrightarrow> json_piece (CHR 0x5C # CHR ''u'' # e) v"
proof -
  assume h: "hex4 e = Some (n, [])" "\<not> is_surrogate n" "v = utf8_encode n"
  have "hex4 (e @ s) = Some (n, s)" for s
    using h(1) by (cases e rule: hex4.cases) (auto split: option.splits)
  with h(2,3) show ?thesis by (simp add: json_piece_def parse_string_hex)
qed

lemma json_piece_escape: "simple_escape e = Some d \<Longrightarrow> json_piece [CHR 0x5C, e] [d]"
  by (simp add: json_piece_def parse_string_escape)

lemma json_piece_ascii:
  assumes "code c < 128"
  shows "json_piece (json_ascii c) [c]"
proof -
  consider "c \<in> {CHR 0x22, CHR 0x5C}" | "code c \<in> {8, 9, 10, 12, 13}" | "c \<notin> {CHR 0x22, CHR 0x5C}" "32 \<le> code c" "c \<notin> {CHR ''<'', CHR ''>'', CHR ''&''}"
    | "c \<notin> {CHR 0x22, CHR 0x5C}" "code c \<notin> {8, 9, 10, 12, 13}" "\<not> (32 \<le> code c \<and> c \<notin> {CHR ''<'', CHR ''>'', CHR ''&''})"
    by blast
  then show ?thesis
  proof cases
    case 1
    then have "json_ascii c = [CHR 0x5C, c]" "simple_escape c = Some c" by (auto simp: json_ascii_def simple_escape_def)
    then show ?thesis by (simp add: json_piece_escape)
  next
    case 2
    then have "c \<in> {CHR 0x08, CHR 0x09, CHR 0x0A, CHR 0x0C, CHR 0x0D}" by (auto dest!: code_eq simp: control_bytes)
    then have "\<exists>e. json_ascii c = [CHR 0x5C, e] \<and> simple_escape e = Some c"
      by (elim insertE) (simp_all add: json_ascii_def simple_escape_def code_def)
    then show ?thesis by (auto simp: json_piece_escape)
  next
    case 3
    with assms show ?thesis by (simp add: json_ascii_def json_piece_def parse_string_plain)
  next
    case 4
    then have "json_ascii c = CHR 0x5C # CHR ''u'' # [CHR ''0'', CHR ''0'', hex_char (code c div 16 mod 16), hex_char (code c mod 16)]"
      by (simp add: json_ascii_def hex_text_two)
    moreover have "hex_digit CHR ''0'' = Some 0" by (simp add: hex_digit_def in_range_def code_def)
    then have "hex4 [CHR ''0'', CHR ''0'', hex_char (code c div 16 mod 16), hex_char (code c mod 16)] = Some (code c, [])"
      using assms by (simp add: hex_digit_char)
    from json_piece_unicode[OF this, of "[c]"] assms
    have "json_piece (CHR 0x5C # CHR ''u'' # [CHR ''0'', CHR ''0'', hex_char (code c div 16 mod 16), hex_char (code c mod 16)]) [c]"
      by (simp add: is_surrogate_def utf8_encode_def)
    ultimately show ?thesis by simp
  qed
qed

lemma high_bytes:
  "byte 239 = CHR 0xEF" "byte 191 = CHR 0xBF" "byte 189 = CHR 0xBD" "byte 226 = CHR 0xE2" "byte 128 = CHR 0x80"
  "byte 168 = CHR 0xA8" "byte 169 = CHR 0xA9"
  using byte_code[of "CHR 0xEF"] byte_code[of "CHR 0xBF"] byte_code[of "CHR 0xBD"] byte_code[of "CHR 0xE2"]
    byte_code[of "CHR 0x80"] byte_code[of "CHR 0xA8"] byte_code[of "CHR 0xA9"]
  by (simp_all add: code_def)

lemma json_piece_error: "json_piece ([CHR 0x5C] @ ''ufffd'') rune_error"
proof -
  have "hex4 ''fffd'' = Some (65533, [])" by (simp add: hex_digit_def in_range_def code_def)
  moreover have "rune_error = utf8_encode 65533" by (simp add: rune_error_def utf8_encode_def high_bytes)
  ultimately show ?thesis using json_piece_unicode[of "''fffd''" 65533 rune_error] by (simp add: is_surrogate_def)
qed

lemma json_piece_rune:
  assumes "128 \<le> code c" "utf8_length (c # s) = n" "0 < n"
  shows "json_piece (json_rune (take n (c # s))) (take n (c # s))"
proof -
  have sep: "hex4 ''2028'' = Some (8232, [])" "hex4 ''2029'' = Some (8233, [])"
    "[CHR 0xE2, CHR 0x80, CHR 0xA8] = utf8_encode 8232" "[CHR 0xE2, CHR 0x80, CHR 0xA9] = utf8_encode 8233"
    by (simp_all add: hex_digit_def in_range_def code_def utf8_encode_def high_bytes)
  let ?e = "take n (c # s)"
  obtain e where e: "?e = c # e" using assms(3) by (cases n) auto
  have "json_piece ?e ?e"
  proof -
    have "parse_string (Suc f) (?e @ t) = map_option (\<lambda>(u, s'). (?e @ u, s')) (parse_string f t)" for f t
    proof -
      have l: "utf8_length (?e @ t) = n" by (rule utf8_length_take[OF assms(2,3)])
      have "length ?e = n" using utf8_length_le[of "c # s"] assms(2) by simp
      then have cut: "take n (c # e @ t) = c # e" "drop n (c # e @ t) = t" unfolding e by auto
      have "utf8_length (c # e @ t) = n" using l unfolding e by simp
      from parse_string_rune[OF assms(1) this assms(3)] show ?thesis unfolding e cut by simp
    qed
    with e show ?thesis by (simp add: json_piece_def)
  qed
  moreover have "json_piece ([CHR 0x5C] @ ''u2028'') (utf8_encode 8232)" "json_piece ([CHR 0x5C] @ ''u2029'') (utf8_encode 8233)"
    using json_piece_unicode[OF sep(1) _ refl] json_piece_unicode[OF sep(2) _ refl] by (simp_all add: is_surrogate_def)
  ultimately show ?thesis unfolding json_rune_def sep(3,4)[symmetric] by (auto simp: sep(3,4))
qed

lemma parse_json_body:
  "length (json_body s) < f \<Longrightarrow> parse_string f (json_body s @ CHR 0x22 # rest) = Some (utf8_fix s, rest)"
proof (induction s arbitrary: f rule: json_body.induct)
  case 1
  then show ?case by (cases f) (simp_all add: parse_string_end)
next
  case (2 c s)
  have step: "parse_string f ((e @ json_body u) @ CHR 0x22 # rest) = Some (v @ utf8_fix u, rest)"
    if "json_piece e v" "length (e @ json_body u) < f"
      "\<And>g. length (json_body u) < g \<Longrightarrow> parse_string g (json_body u @ CHR 0x22 # rest) = Some (utf8_fix u, rest)" for e v u
  proof -
    from that(2) obtain g where g: "f = Suc g" by (cases f) auto
    have "length (json_body u) < g" using that(1,2) by (cases e) (auto simp: g json_piece_def)
    from that(3)[OF this] that(1) show ?thesis by (simp add: g json_piece_def)
  qed
  let ?n = "utf8_length (c # s)"
  consider "code c < 128" | "128 \<le> code c" "?n = 0" | "128 \<le> code c" "0 < ?n" by linarith
  then show ?case
  proof cases
    case 1
    with step[OF json_piece_ascii[OF 1]] "2.prems" "2.IH"(1) show ?thesis by simp
  next
    case 2
    with step[OF json_piece_error] "2.prems" "2.IH"(2) show ?thesis by simp
  next
    case 3
    with step[OF json_piece_rune[OF 3(1) refl 3(2)]] "2.prems" "2.IH"(3) show ?thesis by (simp add: Let_def)
  qed
qed

subsection \<open>Numbers\<close>

text \<open>What may follow a number in the text of a value.\<close>

definition ends_number :: "gostring \<Rightarrow> bool" where
  "ends_number s \<longleftrightarrow> s = [] \<or> hd s \<in> {CHR '','', CHR '']'', CHR ''}'', CHR 0x0A}"

lemma ends_number_simps [simp]:
  "ends_number []" "ends_number (CHR '','' # s)" "ends_number (CHR '']'' # s)" "ends_number (CHR ''}'' # s)" "ends_number (CHR 0x0A # s)"
  by (simp_all add: ends_number_def)

lemma ends_number_cases:
  "ends_number s \<Longrightarrow> s = [] \<or> (\<exists>c t. s = c # t \<and> \<not> is_digit c \<and> c \<notin> {CHR ''.'', CHR ''e'', CHR ''E''})"
  by (cases s) (auto simp: ends_number_def is_digit_def in_range_def code_def)

lemma decimal_digits_digit: "c \<in> set (decimal_digits n) \<Longrightarrow> is_digit c"
proof (induction n rule: decimal_digits.induct)
  case (1 n)
  then show ?case
    by (subst (asm) (2) decimal_digits.simps) (auto simp: is_digit_def in_range_def split: if_splits)
qed

lemma digits_value_append: "digits_value a (xs @ ys) = digits_value (digits_value a xs) ys"
  by (induction a xs rule: digits_value.induct) auto

lemma digits_value_decimal: "digits_value 0 (decimal_digits n) = int n"
proof (induction n rule: decimal_digits.induct)
  case (1 n)
  show ?case
  proof (cases "n < 10")
    case True
    then show ?thesis by (simp add: decimal_digits.simps[of n])
  next
    case False
    have "int (code (byte (48 + n mod 10))) = 48 + int (n mod 10)" by simp
    moreover have "int (n div 10) * 10 + int (n mod 10) = int n" by presburger
    ultimately show ?thesis using False 1 by (simp add: decimal_digits.simps[of n] digits_value_append)
  qed
qed

lemma decimal_digits_head:
  assumes "0 < n"
  shows "\<exists>c t. decimal_digits n = c # t \<and> is_digit c \<and> c \<noteq> CHR ''0''"
  using assms
proof (induction n rule: decimal_digits.induct)
  case (1 n)
  show ?case
  proof (cases "n < 10")
    case True
    have "byte (48 + n) \<noteq> CHR ''0''"
    proof
      assume "byte (48 + n) = CHR ''0''"
      then have "code (byte (48 + n)) = code CHR ''0''" by simp
      with 1 True show False by (simp add: code_def[of "CHR ''0''"])
    qed
    with True show ?thesis by (simp add: decimal_digits.simps[of n] is_digit_def in_range_def)
  next
    case False
    then have "0 < n div 10" by simp
    with False "1.IH" show ?thesis by (auto simp: decimal_digits.simps[of n])
  qed
qed

lemma span_digits_ends: "ends_number s \<Longrightarrow> \<forall>c \<in> set ds. is_digit c \<Longrightarrow> span_digits (ds @ s) = (ds, s)"
  using ends_number_cases[of s] by (auto simp: span_digits_def takeWhile_append dropWhile_append)

lemma parse_int_part_decimal:
  assumes "ends_number s"
  shows "parse_int_part (decimal_digits n @ s) = Some (decimal_digits n, s)"
proof (cases "n = 0")
  case True
  have "byte 48 = CHR ''0''" using byte_code[of "CHR ''0''"] by (simp add: code_def)
  with True show ?thesis by (simp add: decimal_digits.simps[of 0] parse_int_part_def)
next
  case False
  then obtain c t where c: "decimal_digits n = c # t" "is_digit c" "c \<noteq> CHR ''0''" using decimal_digits_head[of n] by auto
  have "span_digits (decimal_digits n @ s) = (decimal_digits n, s)"
    using assms decimal_digits_digit by (blast intro: span_digits_ends)
  with c show ?thesis by (simp add: parse_int_part_def)
qed

lemma parse_rest_ends: "ends_number s \<Longrightarrow> parse_fraction s = Some ([], s) \<and> parse_exponent s = Some (0, s)"
  using ends_number_cases[of s] by (auto simp: parse_fraction_def parse_exponent_def)

lemma exponent2_int:
  assumes "0 < m"
  shows "exponent2 (of_int m) = bitlen m - 1"
proof -
  have "0 \<le> bitlen m - 1" using bitlen_nonneg[of m] bitlen_eq_zero_iff[of m] assms by linarith
  moreover have "(of_int (2 ^ nat (bitlen m - 1)) :: rat) \<le> of_int m"
    unfolding of_int_le_iff using bitlen_bounds[OF assms] by simp
  ultimately have "pow2 (bitlen m - 1) \<le> of_int m" by (simp add: pow2_def)
  moreover have "bitlen 1 = 1" by (simp add: bitlen_alt_def)
  ultimately show ?thesis by (simp add: exponent2_def quotient_of_int)
qed

lemma round_half_even_int [simp]: "round_half_even (of_int i) = i"
  by (simp add: round_half_even_def)

lemma float64_of_int:
  assumes "\<bar>n\<bar> < 2 ^ 53"
  shows "float64_of (of_int n) = Some (of_int n)"
proof (cases "n = 0")
  case False
  let ?m = "\<bar>n\<bar>" and ?k = "bitlen \<bar>n\<bar> - 1"
  have m: "0 < ?m" using False by simp
  have k: "0 \<le> ?k" "?k \<le> 52"
  proof -
    show "0 \<le> ?k" using bitlen_nonneg[of ?m] bitlen_eq_zero_iff[of ?m] m by linarith
    have "2 ^ nat ?k \<le> ?m" using bitlen_bounds[OF m] by simp
    then have "(2 :: int) ^ nat ?k < 2 ^ 53" using assms by (rule le_less_trans)
    then have "nat ?k < 53" by (rule power_less_imp_less_exp[rotated]) simp
    then show "?k \<le> 52" by linarith
  qed
  let ?j = "nat (52 - ?k)"
  have u: "pow2 (max (?k - 52) (- 1074)) = 1 / 2 ^ ?j" using k by (simp add: pow2_def max_def)
  have "(of_int ?m :: rat) / (1 / 2 ^ ?j) = of_int (?m * 2 ^ ?j)" by simp
  then have r: "of_int (round_half_even (of_int ?m / (1 / 2 ^ ?j))) * (1 / 2 ^ ?j) = (of_int ?m :: rat)"
    by (metis (no_types, lifting) divide_divide_eq_right mult.right_neutral nonzero_mult_div_cancel_right of_int_mult of_int_numeral of_int_power power_not_zero round_half_even_int times_divide_eq_right zero_neq_numeral)
  have a: "\<bar>of_int n :: rat\<bar> = of_int ?m" by simp
  have "(of_int ?m :: rat) < 2 ^ 1024"
  proof -
    have "(of_int ?m :: rat) < of_int (2 ^ 53)" using assms by (simp only: of_int_less_iff)
    also have "\<dots> \<le> 2 ^ 1024" by simp
    finally show ?thesis .
  qed
  then show ?thesis
    using False unfolding float64_of_def a exponent2_int[OF m] u r Let_def by auto
qed (simp add: float64_of_def)

lemma parse_number_decimal:
  assumes "\<bar>n\<bar> < 2 ^ 53" "ends_number s"
  shows "parse_number (decimal n @ s) = Some (of_int n, s)"
proof -
  note parts = parse_int_part_decimal[OF assms(2)] parse_rest_ends[OF assms(2)] digits_value_decimal float64_of_int[OF assms(1)]
  show ?thesis
  proof (cases "n < 0")
    case True
    then show ?thesis using parts by (simp add: parse_number_def decimal_def scale10_def Let_def)
  next
    case False
    obtain c t where c: "decimal_digits (nat n) = c # t" "is_digit c"
      using decimal_digits_digit[of _ "nat n"] decimal_digits_head[of "nat n"]
      by (cases "nat n = 0") (auto simp: decimal_digits.simps[of 0])
    then have "c \<noteq> CHR ''-''" by (auto simp: is_digit_def in_range_def code_def)
    then have "(case decimal_digits (nat n) @ s of c # r \<Rightarrow> if c = CHR ''-'' then (True, r) else (False, decimal_digits (nat n) @ s)
        | [] \<Rightarrow> (False, decimal_digits (nat n) @ s)) = (False, decimal_digits (nat n) @ s)" by (simp add: c(1))
    then show ?thesis using False parts by (simp add: parse_number_def decimal_def scale10_def Let_def)
  qed
qed

subsection \<open>Values\<close>

text \<open>What the program hands to the encoder; the members of an object are the fields of a struct.\<close>

datatype go_value =
    GNull
  | GBool bool
  | GInt int
  | GFloat rat
  | GStr gostring
  | GArr "go_value list"
  | GObj "(gostring \<times> go_value) list"

fun commas :: "gostring list \<Rightarrow> gostring" where
  "commas [] = []"
| "commas [t] = t"
| "commas (t # ts) = t @ CHR '','' # commas ts"

fun json_text :: "(rat \<Rightarrow> gostring) \<Rightarrow> go_value \<Rightarrow> gostring" where
  "json_text fmt GNull = ''null''"
| "json_text fmt (GBool b) = (if b then ''true'' else ''false'')"
| "json_text fmt (GInt n) = decimal n"
| "json_text fmt (GFloat x) = fmt x"
| "json_text fmt (GStr s) = json_string s"
| "json_text fmt (GArr vs) = CHR ''['' # commas (map (json_text fmt) vs) @ [CHR '']'']"
| "json_text fmt (GObj ms) = CHR ''{'' # commas (map (\<lambda>(k, v). json_string k @ CHR '':'' # json_text fmt v) ms) @ [CHR ''}'']"

fun go_decoded :: "go_value \<Rightarrow> json" where
  "go_decoded GNull = JNull"
| "go_decoded (GBool b) = JBool b"
| "go_decoded (GInt n) = JNum (of_int n)"
| "go_decoded (GFloat x) = JNum x"
| "go_decoded (GStr s) = JStr (utf8_fix s)"
| "go_decoded (GArr vs) = JArr (map go_decoded vs)"
| "go_decoded (GObj ms) = JObj (map (\<lambda>(k, v). (utf8_fix k, go_decoded v)) ms)"

text \<open>What a text for a number must do: begin like one and read as that number.\<close>

definition reads_as :: "gostring \<Rightarrow> rat \<Rightarrow> bool" where
  "reads_as t x \<longleftrightarrow> t \<noteq> [] \<and> (hd t = CHR ''-'' \<or> is_digit (hd t))
     \<and> (\<forall>s. ends_number s \<longrightarrow> parse_number (t @ s) = Some (x, s))"

text \<open>
  Values the decoder reads back: integers a \<open>float64\<close> holds exactly, floats with a text that reads as
  the number, members with different names, and no more than \<open>d\<close> levels of nesting.
\<close>

fun encodable :: "(rat \<Rightarrow> gostring) \<Rightarrow> nat \<Rightarrow> go_value \<Rightarrow> bool" where
  "encodable fmt d (GInt n) = (\<bar>n\<bar> < 2 ^ 53)"
| "encodable fmt d (GFloat x) = reads_as (fmt x) x"
| "encodable fmt d (GArr vs) = (0 < d \<and> (\<forall>v \<in> set vs. encodable fmt (d - 1) v))"
| "encodable fmt d (GObj ms) = (0 < d \<and> distinct (map (\<lambda>m. utf8_fix (fst m)) ms) \<and> (\<forall>m \<in> set ms. encodable fmt (d - 1) (snd m)))"
| "encodable fmt d GNull = True"
| "encodable fmt d (GBool b) = True"
| "encodable fmt d (GStr t) = True"

lemma commas_cons: "commas (t # ts) = (if ts = [] then t else t @ CHR '','' # commas ts)"
  by (cases ts) auto

lemma reads_as_decimal:
  assumes "\<bar>n\<bar> < 2 ^ 53"
  shows "reads_as (decimal n) (of_int n)"
proof -
  have "decimal n \<noteq> [] \<and> (hd (decimal n) = CHR ''-'' \<or> is_digit (hd (decimal n)))"
  proof (cases "nat n = 0")
    case False
    then show ?thesis using decimal_digits_head[of "nat n"] by (auto simp: decimal_def)
  qed (auto simp: decimal_def decimal_digits.simps[of 0] is_digit_def in_range_def)
  with parse_number_decimal[OF assms] show ?thesis by (simp add: reads_as_def)
qed

text \<open>How the text of a value begins.\<close>

definition starts_value :: "gostring \<Rightarrow> bool" where
  "starts_value t \<longleftrightarrow> t \<noteq> [] \<and> hd t \<notin> {CHR 0x20, CHR 0x09, CHR 0x0D, CHR 0x0A, CHR '']'', CHR ''}''}"

lemma starts_value_number: "reads_as t x \<Longrightarrow> starts_value t"
  by (auto simp: reads_as_def starts_value_def is_digit_def in_range_def code_def)

lemma starts_value_text: "encodable fmt d v \<Longrightarrow> starts_value (json_text fmt v)"
proof (cases v)
  case (GInt n)
  moreover assume "encodable fmt d v"
  ultimately show ?thesis using starts_value_number[OF reads_as_decimal[of n]] by simp
next
  case (GFloat x)
  moreover assume "encodable fmt d v"
  ultimately show ?thesis using starts_value_number[of "fmt x" x] by simp
qed (auto simp: starts_value_def json_string_def)

lemma skip_space_value: "starts_value t \<Longrightarrow> skip_space (t @ s) = t @ s"
  by (cases t) (auto simp: starts_value_def skip_space_def)

lemma skip_space_nil [simp]: "skip_space [] = []"
  by (simp add: skip_space_def)

lemma skip_space_char [simp]:
  "skip_space (c # s) = (if c \<in> {CHR 0x20, CHR 0x09, CHR 0x0D, CHR 0x0A} then skip_space s else c # s)"
  by (simp add: skip_space_def)

lemma parse_value_number:
  assumes "reads_as t x" "ends_number s"
  shows "parse_value (Suc f) d (t @ s) = Some (JNum x, s)"
proof -
  obtain c r where c: "t = c # r" "c = CHR ''-'' \<or> is_digit c" using assms(1) by (cases t) (auto simp: reads_as_def)
  have "c \<notin> {CHR 0x20, CHR 0x09, CHR 0x0D, CHR 0x0A, CHR ''{'', CHR ''['', CHR 0x22, CHR ''t'', CHR ''f'', CHR ''n''}"
    using c(2) by (auto simp: is_digit_def in_range_def code_def)
  moreover have "parse_number (c # r @ s) = Some (x, s)" using assms by (simp add: reads_as_def c(1))
  ultimately show ?thesis by (simp add: parse_value.simps c(1))
qed

lemma literal_self [simp]: "literal w (w @ s) = Some s"
  by (simp add: literal_def is_prefix_def)

lemma parse_value_string:
  "parse_value (Suc f) d (json_string s @ rest) = Some (JStr (utf8_fix s), rest)"
proof -
  have "parse_string (Suc (length (json_body s @ CHR 0x22 # rest))) (json_body s @ CHR 0x22 # rest) = Some (utf8_fix s, rest)"
    by (rule parse_json_body) simp
  then show ?thesis by (simp add: parse_value.simps json_string_def)
qed

text \<open>A value is read back when enough fuel is left and what follows cannot belong to a number.\<close>

definition read_back :: "(rat \<Rightarrow> gostring) \<Rightarrow> nat \<Rightarrow> go_value \<Rightarrow> bool" where
  "read_back fmt d v \<longleftrightarrow> (\<forall>f s. ends_number s \<longrightarrow> 2 * length (json_text fmt v @ s) + 1 \<le> f \<longrightarrow>
     parse_value f d (json_text fmt v @ s) = Some (go_decoded v, s))"

lemma elements_read_back:
  assumes "vs \<noteq> []" "\<forall>v \<in> set vs. encodable fmt d v \<and> read_back fmt d v"
    and "2 * length (commas (map (json_text fmt) vs) @ CHR '']'' # s) + 2 \<le> f"
  shows "parse_elements f d (commas (map (json_text fmt) vs) @ CHR '']'' # s) = Some (map go_decoded vs, s)"
  using assms
proof (induction vs arbitrary: f)
  case (Cons v vs)
  let ?rest = "if vs = [] then CHR '']'' # s else CHR '','' # commas (map (json_text fmt) vs) @ CHR '']'' # s"
  obtain g where g: "f = Suc g" using Cons.prems(3) by (cases f) auto
  have t: "commas (map (json_text fmt) (v # vs)) @ CHR '']'' # s = json_text fmt v @ ?rest" by (simp add: commas_cons)
  have "ends_number ?rest" by simp
  moreover have "2 * length (json_text fmt v @ ?rest) + 1 \<le> g" using Cons.prems(3) unfolding t g by simp
  ultimately have v: "parse_value g d (json_text fmt v @ ?rest) = Some (go_decoded v, ?rest)"
    using Cons.prems(2) unfolding read_back_def by simp
  show ?case
  proof (cases "vs = []")
    case True
    with v show ?thesis unfolding t g by simp
  next
    case False
    then have "parse_elements g d (commas (map (json_text fmt) vs) @ CHR '']'' # s) = Some (map go_decoded vs, s)"
      using Cons.IH[of g] Cons.prems(2,3) unfolding t g by simp
    with v False show ?thesis unfolding t g by simp
  qed
qed simp

text \<open>A member as it is read: its name, a colon, its value.\<close>

definition member_text :: "(rat \<Rightarrow> gostring) \<Rightarrow> gostring \<times> go_value \<Rightarrow> gostring" where
  "member_text fmt m = json_string (fst m) @ CHR '':'' # json_text fmt (snd m)"

lemma put_member_new: "k \<notin> fst ` set ms \<Longrightarrow> put_member k v ms = ms @ [(k, v)]"
  by (induction k v ms rule: put_member.induct) auto

lemma members_read_back:
  assumes "ms \<noteq> []" "\<forall>m \<in> set ms. encodable fmt d (snd m) \<and> read_back fmt d (snd m)"
    and "distinct (map (\<lambda>m. utf8_fix (fst m)) ms)" "\<forall>m \<in> set ms. utf8_fix (fst m) \<notin> fst ` set acc"
    and "2 * length (commas (map (member_text fmt) ms) @ CHR ''}'' # s) + 2 \<le> f"
  shows "parse_members f d acc (commas (map (member_text fmt) ms) @ CHR ''}'' # s) =
    Some (acc @ map (\<lambda>m. (utf8_fix (fst m), go_decoded (snd m))) ms, s)"
  using assms
proof (induction ms arbitrary: f acc)
  case (Cons m ms)
  obtain k v where m: "m = (k, v)" by fastforce
  let ?rest = "if ms = [] then CHR ''}'' # s else CHR '','' # commas (map (member_text fmt) ms) @ CHR ''}'' # s"
  let ?v = "json_text fmt v @ ?rest"
  let ?k = "json_body k @ CHR 0x22 # CHR '':'' # ?v"
  obtain g where g: "f = Suc g" using Cons.prems(5) by (cases f) auto
  have t: "commas (map (member_text fmt) (m # ms)) @ CHR ''}'' # s = CHR 0x22 # ?k"
    by (simp add: commas_cons m member_text_def json_string_def)
  have key: "parse_string (Suc (length ?k)) ?k = Some (utf8_fix k, CHR '':'' # ?v)" by (rule parse_json_body) simp
  have "ends_number ?rest" by simp
  moreover have "2 * length ?v + 1 \<le> g" using Cons.prems(5) unfolding t g by simp
  ultimately have v: "parse_value g d ?v = Some (go_decoded v, ?rest)"
    using Cons.prems(2) unfolding read_back_def m by simp
  let ?acc = "acc @ [(utf8_fix k, go_decoded v)]"
  have acc: "put_member (utf8_fix k) (go_decoded v) acc = ?acc"
    using Cons.prems(4) by (intro put_member_new) (simp add: m)
  show ?case
  proof (cases "ms = []")
    case True
    with key v acc show ?thesis unfolding t g by (simp add: m)
  next
    case False
    have "parse_members g d ?acc (commas (map (member_text fmt) ms) @ CHR ''}'' # s) =
        Some (?acc @ map (\<lambda>m. (utf8_fix (fst m), go_decoded (snd m))) ms, s)"
    proof (intro Cons.IH)
      have "utf8_fix k \<notin> (\<lambda>m. utf8_fix (fst m)) ` set ms" using Cons.prems(3) by (simp add: m)
      then have new: "utf8_fix (fst m') \<noteq> utf8_fix k" if "m' \<in> set ms" for m'
        using that by (metis (mono_tags, lifting) image_eqI)
      show "\<forall>m \<in> set ms. utf8_fix (fst m) \<notin> fst ` set ?acc"
      proof
        fix m' assume "m' \<in> set ms"
        with new Cons.prems(4) show "utf8_fix (fst m') \<notin> fst ` set ?acc" by simp
      qed
    qed (use Cons.prems False in \<open>simp_all add: m g commas_cons member_text_def json_string_def\<close>)
    with key v acc False show ?thesis unfolding t g by (simp add: m)
  qed
qed simp

lemma value_read_back: "encodable fmt d v \<Longrightarrow> read_back fmt d v"
proof (induction fmt d v rule: encodable.induct)
  case (1 fmt d n)
  have "parse_value f d (decimal n @ s) = Some (JNum (of_int n), s)" if "ends_number s" "2 * length (decimal n @ s) + 1 \<le> f" for f s
    using parse_value_number[OF reads_as_decimal that(1)] 1 that(2) by (cases f) auto
  then show ?case by (simp add: read_back_def)
next
  case (2 fmt d x)
  have "parse_value f d (fmt x @ s) = Some (JNum x, s)" if "ends_number s" "2 * length (fmt x @ s) + 1 \<le> f" for f s
    using parse_value_number[OF _ that(1), of "fmt x" x] 2 that(2) by (cases f) auto
  then show ?case by (simp add: read_back_def)
next
  case (3 fmt d vs)
  have "parse_value f d (json_text fmt (GArr vs) @ s) = Some (go_decoded (GArr vs), s)"
    if l: "2 * length (json_text fmt (GArr vs) @ s) + 1 \<le> f" for f s
  proof (cases "vs = []")
    case True
    obtain g where "f = Suc g" using l by (cases f) auto
    with True 3 show ?thesis by (simp add: parse_value.simps)
  next
    case False
    obtain g where g: "f = Suc g" using l by (cases f) auto
    let ?t = "commas (map (json_text fmt) vs) @ CHR '']'' # s"
    have "parse_elements g (d - 1) ?t = Some (map go_decoded vs, s)"
      using 3 False l by (intro elements_read_back) (auto simp: g)
    moreover have "starts_value ?t"
    proof -
      obtain v ws where vs: "vs = v # ws" using False by (cases vs) auto
      then have "starts_value (json_text fmt v)" using 3 starts_value_text[of fmt "d - 1" v] by simp
      then show ?thesis by (auto simp: vs commas_cons starts_value_def)
    qed
    then obtain c r where "?t = c # r" "c \<noteq> CHR '']''" "skip_space ?t = ?t"
      using skip_space_value[of ?t "[]"] by (cases ?t) (auto simp: starts_value_def)
    ultimately show ?thesis using 3 by (simp add: g parse_value.simps)
  qed
  then show ?case by (simp add: read_back_def)
next
  case (4 fmt d ms)
  have mt: "(\<lambda>(k, v). json_string k @ CHR '':'' # json_text fmt v) = member_text fmt"
    by (auto simp: member_text_def)
  have md: "(\<lambda>(k, v). (utf8_fix k, go_decoded v)) = (\<lambda>m. (utf8_fix (fst m), go_decoded (snd m)))" by auto
  have "parse_value f d (json_text fmt (GObj ms) @ s) = Some (go_decoded (GObj ms), s)"
    if l: "2 * length (json_text fmt (GObj ms) @ s) + 1 \<le> f" for f s
  proof (cases "ms = []")
    case True
    obtain g where "f = Suc g" using l by (cases f) auto
    with True 4 show ?thesis by (simp add: parse_value.simps)
  next
    case False
    obtain g where g: "f = Suc g" using l by (cases f) auto
    let ?t = "commas (map (member_text fmt) ms) @ CHR ''}'' # s"
    have "parse_members g (d - 1) [] ?t = Some ([] @ map (\<lambda>m. (utf8_fix (fst m), go_decoded (snd m))) ms, s)"
      using 4 False l by (intro members_read_back) (auto simp: g mt)
    moreover have "\<exists>r. ?t = CHR 0x22 # r"
      using False by (cases ms) (simp_all add: commas_cons member_text_def json_string_def)
    then obtain r where "?t = CHR 0x22 # r" ..
    ultimately show ?thesis using 4 by (simp add: g parse_value.simps mt md)
  qed
  then show ?case by (simp add: read_back_def)
next
  case (5 fmt d)
  have "parse_value f d (''null'' @ s) = Some (JNull, s)" if "2 * length (''null'' @ s) + 1 \<le> f" for f s
    using that literal_self[of "''null''" s] by (cases f) (auto simp: parse_value.simps)
  then show ?case by (simp add: read_back_def)
next
  case (6 fmt d b)
  have "parse_value f d (json_text fmt (GBool b) @ s) = Some (JBool b, s)" if "2 * length (json_text fmt (GBool b) @ s) + 1 \<le> f" for f s
    using that literal_self[of "''true''" s] literal_self[of "''false''" s] by (cases f) (auto simp: parse_value.simps)
  then show ?case by (simp add: read_back_def)
next
  case (7 fmt d t)
  have "parse_value f d (json_string t @ s) = Some (JStr (utf8_fix t), s)" if "2 * length (json_string t @ s) + 1 \<le> f" for f s
    using that parse_value_string by (cases f) auto
  then show ?case by (simp add: read_back_def)
qed

text \<open>What the encoder writes, possibly with a line end behind it, the decoder reads as the value.\<close>

lemma unmarshal_json_text:
  assumes "encodable fmt max_nesting v" "ends_number s" "skip_space s = []"
  shows "unmarshal (json_text fmt v @ s) = Inr (go_decoded v)"
  using value_read_back[OF assms(1)] assms(2,3) by (simp add: read_back_def unmarshal_def)

subsection \<open>The text stays on one line\<close>

definition one_line :: "gostring \<Rightarrow> bool" where
  "one_line t \<longleftrightarrow> (\<forall>c \<in> set t. 32 \<le> code c)"

lemma one_line_simps [simp]:
  "one_line []" "one_line (c # t) \<longleftrightarrow> 32 \<le> code c \<and> one_line t" "one_line (s @ t) \<longleftrightarrow> one_line s \<and> one_line t"
  by (auto simp: one_line_def)

lemma hex_char_line: "d < 16 \<Longrightarrow> 32 \<le> code (hex_char d)"
  by (auto simp: hex_char_def)

lemma escape_codes:
  "code CHR 0x5C = 92" "code CHR 0x22 = 34" "code CHR ''0'' = 48" "code CHR ''b'' = 98" "code CHR ''d'' = 100" "code CHR ''f'' = 102"
  "code CHR ''n'' = 110" "code CHR ''r'' = 114" "code CHR ''t'' = 116" "code CHR ''u'' = 117"
  by (simp_all add: code_def)

lemma hex_two_line: "one_line (hex_text 2 n)"
  by (simp add: hex_text_two hex_char_line)

lemma json_ascii_line: "code c < 128 \<Longrightarrow> one_line (json_ascii c)"
  by (auto simp: json_ascii_def hex_two_line escape_codes)

lemma utf8_bytes_high:
  assumes "128 \<le> code a" "a # rest = s"
  shows "\<forall>c \<in> set (take (utf8_length s) s). 128 \<le> code c"
proof -
  consider "s = [a]" | b where "s = [a, b]" | b c where "s = [a, b, c]" | b c d r where "s = a # b # c # d # r"
    using assms(2) by (metis list.exhaust)
  then show ?thesis
    using assms(1) by cases (auto simp: tail_byte_def in_range_def)
qed

lemma json_rune_line:
  assumes "128 \<le> code c"
  shows "one_line (json_rune (take (utf8_length (c # s)) (c # s)))"
proof -
  have "one_line (take (utf8_length (c # s)) (c # s))"
    using utf8_bytes_high[OF assms refl, of s] by (fastforce simp: one_line_def)
  then show ?thesis by (auto simp: json_rune_def code_def)
qed

lemma json_body_line: "one_line (json_body s)"
proof (induction s rule: json_body.induct)
  case (2 c s)
  then show ?case
    using json_ascii_line[of c] json_rune_line[of c s] by (auto simp: Let_def escape_codes simp del: utf8_length.simps)
qed simp

lemma json_string_line: "one_line (json_string s)"
  using json_body_line by (simp add: json_string_def code_def)

lemma decimal_line: "one_line (decimal n)"
proof -
  have "one_line (decimal_digits m)" for m
    using decimal_digits_digit[of _ m] by (fastforce simp: one_line_def is_digit_def in_range_def)
  then show ?thesis by (simp add: decimal_def code_def)
qed

lemma commas_line: "\<forall>t \<in> set ts. one_line t \<Longrightarrow> one_line (commas ts)"
  by (induction ts rule: commas.induct) (auto simp: code_def)

lemma json_text_line: "(\<And>x. one_line (fmt x)) \<Longrightarrow> one_line (json_text fmt v)"
proof (induction fmt v rule: json_text.induct)
  case (6 fmt vs)
  then have "one_line (commas (map (json_text fmt) vs))" by (intro commas_line) auto
  then show ?case by (simp add: code_def)
next
  case (7 fmt ms)
  have "one_line (commas (map (\<lambda>(k, v). json_string k @ CHR '':'' # json_text fmt v) ms))"
    using 7 by (intro commas_line) (auto simp: json_string_line code_def)
  then show ?case by (simp add: code_def)
qed (simp_all add: code_def decimal_line json_string_line)

text \<open>Values without floats.\<close>

definition json_plain :: "go_value \<Rightarrow> gostring" where
  "json_plain = json_text (\<lambda>x. [])"

lemma json_plain_line: "one_line (json_plain v)"
  by (simp add: json_plain_def json_text_line)

lemma utf8_fix_ascii: "\<forall>c \<in> set s. code c < 128 \<Longrightarrow> utf8_fix s = s"
  by (induction s rule: utf8_fix.induct) auto

declare utf8_fix.simps [simp del] json_body.simps [simp del]

end
