(* ===== verification/Dashboard.thy ===== *)
theory Dashboard
  imports Engine Json_Encode Complex_Main
begin

section \<open>dashboard/server.go: the dashboard server\<close>

text \<open>
  \<open>Server\<close>: the log buffer, the subscribers and the handlers with what they write to the response.
  The log stream as a whole is in the next theory, the decoding of a configuration's text in
  \<open>Config_Text\<close>. The decoded body of a request and the file system are arguments; the configuration the server shares with the engine is not nil.
\<close>

subsection \<open>State\<close>

record log_entry =
  le_timestamp :: int
  le_level :: gostring
  le_message :: gostring

record metrics_payload =
  mp_timestamp :: int
  mp_total :: "64 word"
  mp_success :: "64 word"
  mp_failed :: "64 word"
  mp_rps :: rat
  mp_sessions :: int
  mp_cookie_jar_size :: int

record node_status =
  nd_id :: gostring
  nd_role :: gostring
  nd_status :: gostring
  nd_memory_mb :: nat
  nd_goroutines :: int
  nd_grpc_status :: gostring

record config_payload =
  cp_target_url :: gostring
  cp_number_of_sessions :: int
  cp_max_retries :: int

text \<open>Channels are numbered; a subscriber set is the set of the numbers of its channels.\<close>

record dashboard =
  db_metrics :: metrics
  db_cfg :: config
  db_active_sessions :: int
  db_cookie_jar_size :: int
  db_logs :: "log_entry list"
  db_log_subs :: "nat set"
  db_log_chan :: "nat \<Rightarrow> log_entry list"
  db_metrics_subs :: "nat set"
  db_metrics_chan :: "nat \<Rightarrow> metrics_payload list"
  db_next :: nat

definition max_logs :: nat where
  "max_logs = 10000"

definition new_dashboard :: "metrics \<Rightarrow> config \<Rightarrow> dashboard" where
  "new_dashboard m cfg =
     \<lparr>db_metrics = m, db_cfg = cfg, db_active_sessions = 0, db_cookie_jar_size = 0, db_logs = [], db_log_subs = {},
      db_log_chan = (\<lambda>_. []), db_metrics_subs = {}, db_metrics_chan = (\<lambda>_. []), db_next = 0\<rparr>"

definition set_active_sessions :: "int \<Rightarrow> dashboard \<Rightarrow> dashboard" where
  "set_active_sessions n s = s\<lparr>db_active_sessions := n\<rparr>"

definition set_cookie_jar_size :: "int \<Rightarrow> dashboard \<Rightarrow> dashboard" where
  "set_cookie_jar_size n s = s\<lparr>db_cookie_jar_size := n\<rparr>"

subsection \<open>The log\<close>

text \<open>The two sections of \<open>AddLog\<close>: the buffer under one lock, the subscribers under another.\<close>

definition log_append :: "log_entry \<Rightarrow> dashboard \<Rightarrow> dashboard" where
  "log_append entry s =
     (let logs = db_logs s @ [entry] in
      s\<lparr>db_logs := (if length logs > max_logs then drop (length logs - max_logs) logs else logs)\<rparr>)"

definition log_buffer :: nat where
  "log_buffer = 256"

text \<open>
  The sends go to different channels and none waits, so they are one step: a receive between two of
  them commutes with the sends to the other channels.
\<close>

definition log_fan_out :: "log_entry \<Rightarrow> dashboard \<Rightarrow> dashboard" where
  "log_fan_out entry s =
     s\<lparr>db_log_chan := (\<lambda>ch. if ch \<in> db_log_subs s then try_send log_buffer entry (db_log_chan s ch) else db_log_chan s ch)\<rparr>"

definition add_log :: "int \<Rightarrow> gostring \<Rightarrow> gostring \<Rightarrow> dashboard \<Rightarrow> dashboard" where
  "add_log now level message s =
     (let entry = \<lparr>le_timestamp = now, le_level = level, le_message = message\<rparr> in log_fan_out entry (log_append entry s))"

subsection \<open>Metrics\<close>

definition dashboard_snapshot :: "int \<Rightarrow> rat \<Rightarrow> dashboard \<Rightarrow> metrics_payload" where
  "dashboard_snapshot now rps s =
     (let (total, success, failed) = metrics_snapshot (db_metrics s) in
      \<lparr>mp_timestamp = now, mp_total = total, mp_success = success, mp_failed = failed, mp_rps = rps,
       mp_sessions = db_active_sessions s, mp_cookie_jar_size = db_cookie_jar_size s\<rparr>)"

definition metrics_buffer :: nat where
  "metrics_buffer = 16"

definition metrics_push :: "metrics_payload \<Rightarrow> dashboard \<Rightarrow> dashboard" where
  "metrics_push snap s =
     s\<lparr>db_metrics_chan := (\<lambda>ch. if ch \<in> db_metrics_subs s then try_send metrics_buffer snap (db_metrics_chan s ch)
                               else db_metrics_chan s ch)\<rparr>"

definition metrics_tick :: "int \<Rightarrow> rat \<Rightarrow> dashboard \<Rightarrow> dashboard" where
  "metrics_tick now rps s = (let snap = dashboard_snapshot now rps s in metrics_push snap s)"

text \<open>The handler of the metrics stream: its subscription, one round of its loop, and its end.\<close>

definition metrics_subscribe :: "dashboard \<Rightarrow> nat \<times> dashboard" where
  "metrics_subscribe s =
     (db_next s, s\<lparr>db_metrics_subs := insert (db_next s) (db_metrics_subs s),
                   db_metrics_chan := (db_metrics_chan s)(db_next s := []), db_next := Suc (db_next s)\<rparr>)"

definition metrics_unsubscribe :: "nat \<Rightarrow> dashboard \<Rightarrow> dashboard" where
  "metrics_unsubscribe ch s = s\<lparr>db_metrics_subs := db_metrics_subs s - {ch}\<rparr>"

definition metrics_receive :: "nat \<Rightarrow> dashboard \<Rightarrow> (metrics_payload \<times> dashboard) option" where
  "metrics_receive ch s =
     (case db_metrics_chan s ch of
        [] \<Rightarrow> None
      | snap # rest \<Rightarrow> Some (snap, s\<lparr>db_metrics_chan := (db_metrics_chan s)(ch := rest)\<rparr>))"

subsection \<open>Responses\<close>

record http_writer =
  wr_status :: int
  wr_header :: http_header
  wr_body :: gostring

text \<open>A handler that never sets a status answers with 200.\<close>

definition new_writer :: http_writer where
  "new_writer = \<lparr>wr_status = 200, wr_header = Map.empty, wr_body = []\<rparr>"

definition write_header :: "gostring \<Rightarrow> gostring \<Rightarrow> http_writer \<Rightarrow> http_writer" where
  "write_header k v w = w\<lparr>wr_header := header_set k v (wr_header w)\<rparr>"

definition write_body :: "gostring \<Rightarrow> http_writer \<Rightarrow> http_writer" where
  "write_body t w = w\<lparr>wr_body := wr_body w @ t\<rparr>"

definition http_error :: "gostring \<Rightarrow> int \<Rightarrow> http_writer \<Rightarrow> http_writer" where
  "http_error msg status w =
     write_body (msg @ [newline])
       ((write_header ''X-Content-Type-Options'' ''nosniff''
          (write_header ''Content-Type'' ''text/plain; charset=utf-8'' w))\<lparr>wr_status := status\<rparr>)"

definition with_cors :: "gostring \<Rightarrow> (http_writer \<Rightarrow> 's \<Rightarrow> http_writer \<times> 's) \<Rightarrow> http_writer \<Rightarrow> 's \<Rightarrow> http_writer \<times> 's" where
  "with_cors request_method h w s =
     (let w1 = write_header ''Access-Control-Allow-Origin'' ''*'' w;
          w2 = write_header ''Access-Control-Allow-Methods'' ''GET, POST, OPTIONS'' w1;
          w3 = write_header ''Access-Control-Allow-Headers'' ''Content-Type'' w2
      in if request_method = ''OPTIONS'' then (w3\<lparr>wr_status := 204\<rparr>, s) else h w3 s)"

text \<open>The JSON forms of the data types, field by field in the order of the structs.\<close>

definition log_entry_value :: "log_entry \<Rightarrow> go_value" where
  "log_entry_value e =
     GObj [(''ts'', GInt (le_timestamp e)), (''level'', GStr (le_level e)), (''message'', GStr (le_message e))]"

definition metrics_value :: "metrics_payload \<Rightarrow> go_value" where
  "metrics_value p =
     GObj [(''timestamp'', GInt (mp_timestamp p)), (''total'', GInt (uint (mp_total p))), (''success'', GInt (uint (mp_success p))),
       (''failed'', GInt (uint (mp_failed p))), (''rps'', GFloat (mp_rps p)), (''sessions'', GInt (mp_sessions p)),
       (''cookie_jar_size'', GInt (mp_cookie_jar_size p))]"

definition node_value :: "node_status \<Rightarrow> go_value" where
  "node_value n =
     GObj [(''id'', GStr (nd_id n)), (''role'', GStr (nd_role n)), (''status'', GStr (nd_status n)),
       (''memory_mb'', GInt (int (nd_memory_mb n))), (''goroutines'', GInt (nd_goroutines n)), (''grpc_status'', GStr (nd_grpc_status n))]"

definition config_value :: "config_payload \<Rightarrow> go_value" where
  "config_value p =
     GObj [(''target_url'', GStr (cp_target_url p)), (''number_of_sessions'', GInt (cp_number_of_sessions p)),
       (''max_retries'', GInt (cp_max_retries p))]"

text \<open>
  One event: the value on a line of its own, then an empty line. The encoder has no errors for these
  types, the write may fail. \<open>fmt\<close> gives the text of a \<open>float64\<close>.
\<close>

definition sse_event :: "(rat \<Rightarrow> gostring) \<Rightarrow> go_value \<Rightarrow> gostring" where
  "sse_event fmt v = ''data: '' @ json_text fmt v @ [newline, newline]"

definition sse_write :: "(rat \<Rightarrow> gostring) \<Rightarrow> goerror option \<Rightarrow> go_value \<Rightarrow> http_writer \<Rightarrow> goerror option \<times> http_writer" where
  "sse_write fmt write_err v w =
     (case write_err of
        Some e \<Rightarrow> (Some e, w)
      | None \<Rightarrow> (None, write_body (sse_event fmt v) w))"

text \<open>A round of the metrics stream with something to receive; here the outcome of the write is ignored.\<close>

definition metrics_round ::
  "(rat \<Rightarrow> gostring) \<Rightarrow> goerror option \<Rightarrow> nat \<Rightarrow> http_writer \<Rightarrow> dashboard \<Rightarrow> (http_writer \<times> dashboard) option" where
  "metrics_round fmt write_err ch w s =
     (case metrics_receive ch s of
        None \<Rightarrow> None
      | Some (snap, s1) \<Rightarrow>
          (case write_err of
             Some e \<Rightarrow> Some (w, s1)
           | None \<Rightarrow> Some (write_body (sse_event fmt (metrics_value snap)) w, s1)))"

definition stream_headers :: "http_writer \<Rightarrow> http_writer" where
  "stream_headers w =
     write_header ''Connection'' ''keep-alive''
       (write_header ''Cache-Control'' ''no-cache'' (write_header ''Content-Type'' ''text/event-stream'' w))"

text \<open>How both streaming handlers begin; \<open>flusher\<close>: the writer can be flushed.\<close>

definition open_stream :: "bool \<Rightarrow> http_writer \<Rightarrow> bool \<times> http_writer" where
  "open_stream flusher w =
     (if \<not> flusher then (False, http_error ''streaming unsupported'' 500 w) else (True, stream_headers w))"

subsection \<open>Configuration, nodes and proxies\<close>

definition config_payload_of :: "config \<Rightarrow> config_payload" where
  "config_payload_of cfg =
     \<lparr>cp_target_url = cf_target_url cfg, cp_number_of_sessions = cf_number_of_sessions cfg, cp_max_retries = cf_max_retries cfg\<rparr>"

definition config_json :: "config_payload \<Rightarrow> gostring" where
  "config_json p = json_plain (config_value p)"

definition update_config :: "config_payload \<Rightarrow> config \<Rightarrow> config" where
  "update_config p cfg =
     (let cfg1 = (if cp_target_url p \<noteq> [] then cfg\<lparr>cf_target_url := cp_target_url p\<rparr> else cfg);
          cfg2 = (if cp_number_of_sessions p > 0 \<and> cp_number_of_sessions p \<le> 2000
                  then cfg1\<lparr>cf_number_of_sessions := cp_number_of_sessions p\<rparr> else cfg1)
      in if cp_max_retries p > 0 \<and> cp_max_retries p \<le> 100
         then cfg2\<lparr>cf_max_retries := cp_max_retries p\<rparr> else cfg2)"

text \<open>\<open>quote\<close> is the verb \<open>%q\<close>.\<close>

definition config_log :: "(gostring \<Rightarrow> gostring) \<Rightarrow> config_payload \<Rightarrow> gostring" where
  "config_log quote p =
     ''config updated via dashboard: target_url='' @ quote (cp_target_url p) @ '' sessions='' @ decimal (cp_number_of_sessions p)
     @ '' retries='' @ decimal (cp_max_retries p)"

text \<open>\<open>body\<close> is what the decoder makes of the request body; a field that is absent is zero.\<close>

definition handle_config ::
  "(gostring \<Rightarrow> gostring) \<Rightarrow> int \<Rightarrow> gostring \<Rightarrow> goerror + config_payload
   \<Rightarrow> http_writer \<Rightarrow> dashboard \<Rightarrow> http_writer \<times> dashboard" where
  "handle_config quote now request_method body w s =
     (if request_method = ''GET'' then
        (write_body (config_json (config_payload_of (db_cfg s)) @ [newline])
           (write_header ''Content-Type'' ''application/json'' w), s)
      else if request_method = ''POST'' then
        (case body of
           Inl e \<Rightarrow> (http_error ''invalid JSON'' 400 w, s)
         | Inr payload \<Rightarrow>
             (let s1 = s\<lparr>db_cfg := update_config payload (db_cfg s)\<rparr>;
                  s2 = add_log now ''INFO'' (config_log quote payload) s1
              in (write_body ''{\"ok\":true}'' (write_header ''Content-Type'' ''application/json'' w), s2)))
      else (http_error ''method not allowed'' 405 w, s))"

definition worker_statuses :: "gostring list" where
  "worker_statuses = [''online'', ''online'', ''online'', ''online'', ''syncing'', ''online'']"

fun worker_nodes :: "nat \<Rightarrow> gostring list \<Rightarrow> node_status list" where
  "worker_nodes i [] = []"
| "worker_nodes i (st # sts) =
     (let grpc = (if st = ''syncing'' then ''syncing'' else ''online'') in
      \<lparr>nd_id = ''worker-'' @ decimal (int (i + 1)), nd_role = ''worker'', nd_status = st, nd_memory_mb = 0,
       nd_goroutines = 0, nd_grpc_status = grpc\<rparr> # worker_nodes (i + 1) sts)"

text \<open>\<open>alloc\<close> and \<open>goroutines\<close> are read from the runtime.\<close>

definition cluster_nodes :: "nat \<Rightarrow> int \<Rightarrow> node_status list" where
  "cluster_nodes alloc goroutines =
     \<lparr>nd_id = ''master-1'', nd_role = ''master'', nd_status = ''online'', nd_memory_mb = alloc div 1024 div 1024,
      nd_goroutines = goroutines, nd_grpc_status = ''online''\<rparr> # worker_nodes 0 worker_statuses"

definition handle_nodes ::
  "nat \<Rightarrow> int \<Rightarrow> http_writer \<Rightarrow> 's \<Rightarrow> http_writer \<times> 's" where
  "handle_nodes alloc goroutines w s =
     (write_body (json_plain (GArr (map node_value (cluster_nodes alloc goroutines))) @ [newline]) (write_header ''Content-Type'' ''application/json'' w), s)"

text \<open>What the library makes of an upload: each call of the handler in turn may fail.\<close>

record upload =
  up_form :: "goerror option"
  up_file :: "goerror + gostring \<times> gostring"
  up_temp :: "goerror + gostring"
  up_copy :: "goerror + nat"

definition handle_proxy ::
  "(gostring \<Rightarrow> gostring) \<Rightarrow> int \<Rightarrow> gostring \<Rightarrow> upload \<Rightarrow> http_writer \<Rightarrow> dashboard \<Rightarrow> http_writer \<times> dashboard" where
  "handle_proxy quote now request_method u w s =
     (if request_method \<noteq> ''POST'' then (http_error ''method not allowed'' 405 w, s)
      else
        (case up_form u of
           Some e \<Rightarrow> (http_error ''request too large or not multipart'' 400 w, s)
         | None \<Rightarrow>
             (case up_file u of
                Inl e \<Rightarrow> (http_error (''missing '' @ [CHR 0x27] @ ''proxies'' @ [CHR 0x27] @ '' field'') 400 w, s)
              | Inr (filename, content) \<Rightarrow>
                  (case up_temp u of
                     Inl e \<Rightarrow> (http_error ''server error'' 500 w, s)
                   | Inr name \<Rightarrow>
                       (case up_copy u of
                          Inl e \<Rightarrow> (http_error ''server error'' 500 w, s)
                        | Inr n \<Rightarrow>
                            (let s1 = s\<lparr>db_cfg := (db_cfg s)\<lparr>cf_proxy_file := name\<rparr>\<rparr>;
                                 s2 = add_log now ''INFO''
                                   (''proxy list uploaded: file='' @ quote name @ '' size='' @ decimal (int n)
                                    @ '' bytes original='' @ quote filename) s1
                             in (write_body (''{\"ok\":true,\"path\":'' @ quote name @ '',\"bytes\":'' @ decimal (int n) @ ''}'')
                                   (write_header ''Content-Type'' ''application/json'' w), s2)))))))"

subsection \<open>The configuration endpoint\<close>

definition config_in_bounds :: "config \<Rightarrow> bool" where
  "config_in_bounds cfg \<longleftrightarrow> 1 \<le> cf_number_of_sessions cfg \<and> cf_number_of_sessions cfg \<le> 2000
     \<and> 1 \<le> cf_max_retries cfg \<and> cf_max_retries cfg \<le> 100"

lemma write_header_get:
  "header_get (wr_header (write_header k v w)) k' = (if canonical_key k' = canonical_key k then v else header_get (wr_header w) k')"
  by (simp add: write_header_def header_get_def header_first_def header_set_def)

lemma writer_frame [simp]:
  "wr_status (write_header k v w) = wr_status w" "wr_status (write_body t w) = wr_status w"
  "wr_header (write_body t w) = wr_header w" "wr_status (http_error msg st w) = st"
  by (simp_all add: write_header_def write_body_def http_error_def)

lemma add_log_frame [simp]: "db_cfg (add_log now level msg s) = db_cfg s"
  by (simp add: add_log_def log_append_def log_fan_out_def Let_def)

lemma update_config_fields:
  "update_config p cfg = cfg\<lparr>cf_target_url := if cp_target_url p = [] then cf_target_url cfg else cp_target_url p,
     cf_number_of_sessions := if 1 \<le> cp_number_of_sessions p \<and> cp_number_of_sessions p \<le> 2000
       then cp_number_of_sessions p else cf_number_of_sessions cfg,
     cf_max_retries := if 1 \<le> cp_max_retries p \<and> cp_max_retries p \<le> 100 then cp_max_retries p else cf_max_retries cfg\<rparr>"
  by (simp add: update_config_def Let_def)

lemma config_json_decodes:
  assumes "\<bar>cp_number_of_sessions p\<bar> < 2 ^ 53" "\<bar>cp_max_retries p\<bar> < 2 ^ 53"
  shows "unmarshal (config_json p @ [newline]) = Inr (JObj [(''target_url'', JStr (utf8_fix (cp_target_url p))),
    (''number_of_sessions'', JNum (of_int (cp_number_of_sessions p))), (''max_retries'', JNum (of_int (cp_max_retries p)))])"
proof -
  have keys: "utf8_fix ''target_url'' = ''target_url''" "utf8_fix ''number_of_sessions'' = ''number_of_sessions''"
    "utf8_fix ''max_retries'' = ''max_retries''"
    by (rule utf8_fix_ascii, simp add: code_def)+
  have "encodable (\<lambda>x. []) max_nesting (config_value p)"
    using assms by (simp add: config_value_def max_nesting_def keys)
  from unmarshal_json_text[OF this, of "[newline]"] show ?thesis
    by (simp add: config_json_def json_plain_def newline_def config_value_def keys)
qed

text \<open>
  C21: The configuration endpoint behind its CORS wrapper: every answer carries the wildcard origin;
  the answer to a GET is a JSON text that decodes to the current target URL and the two numbers;
  only a POST whose body decodes changes the server; it replaces a non-empty target URL and the
  numbers that are in range and leaves every other field, so a configuration within bounds stays
  within bounds whatever is posted; the statuses are 204, 400 and 405 in the cases that call for them.
\<close>

theorem config_endpoint_spec:
  assumes "with_cors request_method (handle_config quote now request_method body) w s = (w', s')"
  shows "header_get (wr_header w') ''Access-Control-Allow-Origin'' = ''*''
    \<and> (request_method \<noteq> ''POST'' \<or> isl body \<longrightarrow> s' = s)
    \<and> (request_method = ''POST'' \<longrightarrow> (\<forall>p. body = Inr p \<longrightarrow>
        db_cfg s' = (db_cfg s)\<lparr>cf_target_url := if cp_target_url p = [] then cf_target_url (db_cfg s) else cp_target_url p,
          cf_number_of_sessions := if 1 \<le> cp_number_of_sessions p \<and> cp_number_of_sessions p \<le> 2000
            then cp_number_of_sessions p else cf_number_of_sessions (db_cfg s),
          cf_max_retries := if 1 \<le> cp_max_retries p \<and> cp_max_retries p \<le> 100
            then cp_max_retries p else cf_max_retries (db_cfg s)\<rparr>))
    \<and> (request_method = ''GET'' \<longrightarrow> wr_body w = [] \<longrightarrow> \<bar>cf_number_of_sessions (db_cfg s)\<bar> < 2 ^ 53
        \<longrightarrow> \<bar>cf_max_retries (db_cfg s)\<bar> < 2 ^ 53 \<longrightarrow>
        unmarshal (wr_body w') = Inr (JObj [(''target_url'', JStr (utf8_fix (cf_target_url (db_cfg s)))),
          (''number_of_sessions'', JNum (of_int (cf_number_of_sessions (db_cfg s)))),
          (''max_retries'', JNum (of_int (cf_max_retries (db_cfg s))))]))
    \<and> (config_in_bounds (db_cfg s) \<longrightarrow> config_in_bounds (db_cfg s'))
    \<and> wr_status w' = (if request_method = ''OPTIONS'' then 204
        else if request_method = ''GET'' then wr_status w
        else if request_method = ''POST'' then (if isl body then 400 else wr_status w) else 405)"
proof -
  have keys: "canonical_key ''Access-Control-Allow-Origin'' \<noteq> canonical_key ''Access-Control-Allow-Methods''"
    "canonical_key ''Access-Control-Allow-Origin'' \<noteq> canonical_key ''Access-Control-Allow-Headers''"
    "canonical_key ''Access-Control-Allow-Origin'' \<noteq> canonical_key ''Content-Type''"
    "canonical_key ''Access-Control-Allow-Origin'' \<noteq> canonical_key ''X-Content-Type-Options''" by code_simp+
  have origin: "header_get (wr_header w') ''Access-Control-Allow-Origin'' = ''*''"
    using assms keys
    by (auto simp: with_cors_def handle_config_def http_error_def Let_def write_header_get split: if_splits sum.splits)
  have cfg: "db_cfg s' = (case body of Inr p \<Rightarrow> if request_method = ''POST'' then update_config p (db_cfg s) else db_cfg s | Inl e \<Rightarrow> db_cfg s)"
    using assms by (auto simp: with_cors_def handle_config_def Let_def split: if_splits sum.splits)
  have same: "s' = s" if "request_method \<noteq> ''POST'' \<or> isl body"
    using assms that by (auto simp: with_cors_def handle_config_def Let_def split: if_splits sum.splits)
  have status: "wr_status w' = (if request_method = ''OPTIONS'' then 204
        else if request_method = ''GET'' then wr_status w
        else if request_method = ''POST'' then (if isl body then 400 else wr_status w) else 405)"
    using assms by (auto simp: with_cors_def handle_config_def Let_def split: if_splits sum.splits)
  have "config_in_bounds (update_config p (db_cfg s))" if "config_in_bounds (db_cfg s)" for p
    using that by (simp add: config_in_bounds_def update_config_fields)
  then have bounds: "config_in_bounds (db_cfg s) \<longrightarrow> config_in_bounds (db_cfg s')"
    by (simp add: cfg split: sum.split)
  have posted: "request_method = ''POST'' \<longrightarrow> (\<forall>p. body = Inr p \<longrightarrow> db_cfg s' = update_config p (db_cfg s))"
    using cfg by auto
  have got: "unmarshal (wr_body w') = Inr (JObj [(''target_url'', JStr (utf8_fix (cf_target_url (db_cfg s)))),
      (''number_of_sessions'', JNum (of_int (cf_number_of_sessions (db_cfg s)))),
      (''max_retries'', JNum (of_int (cf_max_retries (db_cfg s))))])"
    if "request_method = ''GET''" "wr_body w = []" "\<bar>cf_number_of_sessions (db_cfg s)\<bar> < 2 ^ 53" "\<bar>cf_max_retries (db_cfg s)\<bar> < 2 ^ 53"
  proof -
    have "wr_body w' = config_json (config_payload_of (db_cfg s)) @ [newline]"
      using assms that(1,2) by (auto simp: with_cors_def handle_config_def Let_def write_header_def write_body_def)
    then show ?thesis using config_json_decodes[of "config_payload_of (db_cfg s)"] that(3,4) by (simp add: config_payload_of_def)
  qed
  show ?thesis
    using origin same posted got bounds status unfolding update_config_fields by blast
qed

lemma config_endpoint_spec_witness:
  "\<exists>w' s'. with_cors ''POST'' (handle_config id 0 ''POST''
        (Inr \<lparr>cp_target_url = [], cp_number_of_sessions = 2001, cp_max_retries = 7\<rparr>))
      new_writer (new_dashboard (new_metrics ZeroTime) default_config) = (w', s')
    \<and> cf_number_of_sessions (db_cfg s') = 500 \<and> cf_max_retries (db_cfg s') = 7 \<and> wr_status w' = 200"
proof -
  let ?p = "\<lparr>cp_target_url = [], cp_number_of_sessions = 2001, cp_max_retries = 7\<rparr>"
  obtain w' s' where r: "with_cors ''POST'' (handle_config id 0 ''POST'' (Inr ?p))
      new_writer (new_dashboard (new_metrics ZeroTime) default_config) = (w', s')" by fastforce
  from config_endpoint_spec[OF r]
  have "db_cfg s' = default_config\<lparr>cf_max_retries := 7\<rparr>" "wr_status w' = 200"
    by (simp_all add: new_dashboard_def default_config_def new_writer_def)
  with r show ?thesis by (simp add: default_config_def)
qed

end
