(* ===== verification/Startup.thy ===== *)
theory Startup
  imports Engine Dashboard
begin

section \<open>main.go and config/config.go: starting up\<close>

text \<open>
  What \<open>main\<close> does before the engine runs: the configuration, the proxies, the sessions, the pool.
  What a file holds is an argument (\<open>Config_Text\<close> decodes it), as is the wall clock; the lines it logs are in \<open>Console\<close>.
\<close>

subsection \<open>Configuration\<close>

text \<open>A configuration file: an error on opening it, or one of the decoder, or what it holds.\<close>

datatype config_file = Unopened goerror | Undecoded goerror | Decoded config

definition load_config :: "(gostring \<Rightarrow> gostring) \<Rightarrow> gostring \<Rightarrow> config_file \<Rightarrow> goerror + config" where
  "load_config quote filename f =
     (case f of
        Unopened e \<Rightarrow> Inl (''config: open '' @ quote filename @ '': '' @ path_error ''open'' filename e)
      | Undecoded e \<Rightarrow> Inl (''config: decode '' @ quote filename @ '': '' @ e)
      | Decoded cfg \<Rightarrow> Inr cfg)"

definition choose_config :: "(gostring \<Rightarrow> gostring) \<Rightarrow> gostring \<Rightarrow> config_file \<Rightarrow> goerror + config" where
  "choose_config quote config_flag f = (if config_flag \<noteq> [] then load_config quote config_flag f else Inr default_config)"

definition choose_proxies :: "(gostring \<Rightarrow> gostring) \<Rightarrow> config \<Rightarrow> text_file \<Rightarrow> goerror + proxy_manager" where
  "choose_proxies quote cfg f =
     (if cf_proxy_file cfg \<noteq> [] then
        (case load_proxies quote (cf_proxy_file cfg) f new_proxy_manager of (Some e, pm) \<Rightarrow> Inl e | (None, pm) \<Rightarrow> Inr pm)
      else Inr new_proxy_manager)"

subsection \<open>Rates\<close>

text \<open>\<open>RequestsPerSecond\<close> for a time elapsed, a fraction of seconds; \<open>float64\<close> as exact fractions.\<close>

definition requests_per_second :: "rat \<Rightarrow> metrics \<Rightarrow> rat" where
  "requests_per_second elapsed m = (if elapsed = 0 then 0 else of_nat (unat (mt_total m)) / elapsed)"

text \<open>One tick of the metrics monitor: the session count shown on the dashboard.\<close>

definition monitor_tick :: "session_manager \<Rightarrow> dashboard \<Rightarrow> dashboard" where
  "monitor_tick sm d = set_active_sessions (session_count sm) d"

subsection \<open>The start of main\<close>

text \<open>The error of \<open>CreateSessions\<close>: how many sessions failed, and the first error received.\<close>

definition create_error :: "nat \<Rightarrow> goerror \<Rightarrow> goerror" where
  "create_error n e =
     ''session manager: '' @ decimal (int n) @ '' session(s) failed to create; first error: '' @ e"

datatype ('u, 'h, 'j) startup =
    ExitsWith gostring
  | StartPanics
  | Started "('u, 'h, 'j) engine"

definition main_start ::
  "(gostring \<Rightarrow> gostring) \<Rightarrow> gostring \<Rightarrow> config_file \<Rightarrow> text_file \<Rightarrow> ('u, 'j) session_env \<Rightarrow> int list
   \<Rightarrow> ((int \<times> (goerror + sref)) list \<Rightarrow> (int \<times> (goerror + sref)) list) \<Rightarrow> (session_manager \<Rightarrow> (int \<times> sref) list)
   \<Rightarrow> gotime \<Rightarrow> ('u, 'h, 'j) session_heap \<Rightarrow> ('u, 'h, 'j) startup" where
  "main_start quote config_flag cfile pfile env draws received order now h =
     (case choose_config quote config_flag cfile of
        Inl e \<Rightarrow> ExitsWith (''failed to load config from '' @ quote config_flag @ '': '' @ e)
      | Inr cfg \<Rightarrow>
          (case choose_proxies quote cfg pfile of
             Inl e \<Rightarrow> ExitsWith (''failed to load proxies from '' @ quote (cf_proxy_file cfg) @ '': '' @ e)
           | Inr pm \<Rightarrow>
               (case create_sessions quote env draws received (cf_number_of_sessions cfg) (Some pm) (new_session_manager (Some cfg)) h of
                  None \<Rightarrow> StartPanics
                | Some (CreateFailed n e, pm1, sm, h1) \<Rightarrow> ExitsWith (''session creation failed: '' @ create_error n e)
                | Some (CreateOk, pm1, sm, h1) \<Rightarrow>
                    Started (engine_new (cf_number_of_sessions cfg) sm (start_all (order sm) h1) (cf_target_url cfg) now))))"

lemma choose_proxies_ok: "choose_proxies quote cfg f = Inr pm \<Longrightarrow> proxy_ok pm"
proof -
  have "proxy_ok new_proxy_manager" by (simp add: proxy_ok_def new_proxy_manager_def)
  then show "choose_proxies quote cfg f = Inr pm \<Longrightarrow> proxy_ok pm"
    using load_proxies_ok[of new_proxy_manager quote "cf_proxy_file cfg" f] by (auto simp: choose_proxies_def split: if_splits prod.splits option.splits)
qed

text \<open>A map from a subset of the first \<open>n\<close> numbers that has \<open>n\<close> entries has them all.\<close>

lemma all_ids:
  assumes "dom m \<subseteq> {0..<n}" "int (card (dom m)) = n"
  shows "dom m = {0..<n :: int}"
proof (rule card_subset_eq)
  show "card (dom m) = card {0..<n}" using assms(2) by simp
qed (use assms(1) in auto)

lemma main_starts_result:
  assumes "main_start quote config_flag cfile pfile env draws received order now h = Started e"
    and "choose_config quote config_flag cfile = Inr cfg"
    and "mset draws = mset [0..cf_number_of_sessions cfg - 1]" "\<And>rs. mset (received rs) = mset rs"
    and "\<And>sm. dom (mg_sessions sm) = {0..<cf_number_of_sessions cfg} \<Longrightarrow> enumerates (mg_sessions sm) (order sm)"
  shows "0 \<le> cf_number_of_sessions cfg
    \<and> engine_initial (cf_number_of_sessions cfg) (en_manager e) (en_heap e) e
    \<and> session_count (en_manager e) = cf_number_of_sessions cfg
    \<and> dom (mg_sessions (en_manager e)) = {0..<cf_number_of_sessions cfg}
    \<and> (\<forall>i r. get_session i (en_manager e) = Some r \<longrightarrow>
        ss_id (sh_mem (en_heap e) r) = i \<and> ss_state (sh_mem (en_heap e) r) = ''active'')
    \<and> (\<forall>i j r. get_session i (en_manager e) = Some r \<longrightarrow> get_session j (en_manager e) = Some r \<longrightarrow> i = j)
    \<and> en_target_url e = cf_target_url cfg"
proof -
  let ?n = "cf_number_of_sessions cfg"
  obtain pm where pm: "choose_proxies quote cfg pfile = Inr pm"
    using assms(1,2) by (auto simp: main_start_def split: sum.splits)
  obtain pm1 sm h1 where c: "create_sessions quote env draws received ?n (Some pm) (new_session_manager (Some cfg)) h = Some (CreateOk, pm1, sm, h1)"
    and e: "e = engine_new ?n sm (start_all (order sm) h1) (cf_target_url cfg) now"
    using assms(1,2) pm by (auto simp: main_start_def split: option.splits prod.splits create_outcome.splits)
  have n: "0 \<le> ?n" using c by (auto simp: create_sessions_def split: if_splits)
  have new: "mg_config (new_session_manager (Some cfg)) = Some cfg" "mg_sessions (new_session_manager (Some cfg)) = Map.empty"
    by (simp_all add: new_session_manager_def)
  obtain ps where ps: "session_count sm = ?n - int (length (filter (client_fails env) ps))" "filter (client_fails env) ps = []"
    and ids: "\<forall>i r. get_session i sm = Some r \<longrightarrow> 0 \<le> i \<and> i < ?n \<and> ss_id (sh_mem h1 r) = i
         \<and> ss_state (sh_mem h1 r) = ''idle'' \<and> sh_next h \<le> r \<and> r < sh_next h1"
    and inj: "\<forall>i j r. get_session i sm = Some r \<longrightarrow> get_session j sm = Some r \<longrightarrow> i = j"
    using create_sessions_result[OF choose_proxies_ok[OF pm] new n assms(3,4), of quote env h] c by auto
  have cnt: "session_count sm = ?n" using ps by simp
  have "dom (mg_sessions sm) \<subseteq> {0..<?n}" using ids by (auto simp: get_session_def)
  moreover from this have "finite (dom (mg_sessions sm))" by (rule finite_subset) simp
  moreover have "int (card (dom (mg_sessions sm))) = ?n" using cnt by (simp add: session_count_def)
  ultimately have dom: "dom (mg_sessions sm) = {0..<?n}" using all_ids by blast
  have active: "ss_id (sh_mem (start_all (order sm) h1) r) = i \<and> ss_state (sh_mem (start_all (order sm) h1) r) = ''active''"
    if "get_session i sm = Some r" for i r
  proof -
    have "(i, r) \<in> set (order sm)" using that enumerates_set[OF assms(5)[OF dom]] by (simp add: get_session_def)
    then have "r \<in> snd ` set (order sm)" by force
    with ids that show ?thesis by (auto simp: start_all_mem)
  qed
  have fields: "en_manager e = sm" "en_heap e = start_all (order sm) h1" "en_target_url e = cf_target_url cfg"
    by (simp_all add: e engine_new_def Let_def split_def)
  have "engine_initial ?n (en_manager e) (en_heap e) e"
    unfolding engine_initial_def fields by (intro exI) (rule e)
  with n cnt dom active inj show ?thesis by (simp add: fields)
qed

text \<open>
  When \<open>main\<close> gets as far as starting the scheduler, the engine is in an initial state of the
  engine's step relation with as many sessions as configured: one for every id below that number,
  each with an object of its own, all of them active; the proxies, if any, are rotated over them.
  So the scheduler's loop over the ids below the session count visits every session.
\<close>

theorem main_starts_engine:
  assumes "main_start quote config_flag cfile pfile env draws received order now h = Started e"
    and "choose_config quote config_flag cfile = Inr cfg"
    and "mset draws = mset [0..cf_number_of_sessions cfg - 1]" "\<And>rs. mset (received rs) = mset rs"
    and "\<And>sm. dom (mg_sessions sm) = {0..<cf_number_of_sessions cfg} \<Longrightarrow> enumerates (mg_sessions sm) (order sm)"
  shows "0 \<le> cf_number_of_sessions cfg
    \<and> engine_initial (cf_number_of_sessions cfg) (en_manager e) (en_heap e) e
    \<and> session_count (en_manager e) = cf_number_of_sessions cfg
    \<and> dom (mg_sessions (en_manager e)) = {0..<cf_number_of_sessions cfg}
    \<and> (\<forall>i r. get_session i (en_manager e) = Some r \<longrightarrow>
        ss_id (sh_mem (en_heap e) r) = i \<and> ss_state (sh_mem (en_heap e) r) = ''active'')
    \<and> (\<forall>i j r. get_session i (en_manager e) = Some r \<longrightarrow> get_session j (en_manager e) = Some r \<longrightarrow> i = j)
    \<and> en_target_url e = cf_target_url cfg"
  by (rule main_starts_result[OF assms])

text \<open>Two sessions without proxies, goroutines and iteration in descending order of the ids.\<close>

theorem main_starts_engine_witness:
  "let cfg = default_config\<lparr>cf_number_of_sessions := 2\<rparr>;
       order = (\<lambda>sm. map (\<lambda>i. (i, the (mg_sessions sm i))) [1, 0])
   in \<exists>e. main_start id ''c'' (Decoded cfg) (Inr ([], None)) sample_env [1, 0] rev order (At 0 0) sample_heap = Started e
     \<and> session_count (en_manager e) = 2"
proof -
  let ?cfg = "default_config\<lparr>cf_number_of_sessions := 2\<rparr>"
  let ?order = "\<lambda>sm. map (\<lambda>i. (i, the (mg_sessions sm i))) [1, 0]"
  have cfg: "choose_config id ''c'' (Decoded ?cfg) = Inr ?cfg" by (simp add: choose_config_def load_config_def)
  have draws: "mset [1, 0] = mset [0..cf_number_of_sessions ?cfg - 1]" by (simp add: upto_rec1)
  have order: "enumerates (mg_sessions sm) (?order sm)" if "dom (mg_sessions sm) = {0..<cf_number_of_sessions ?cfg}" for sm
  proof -
    have "mg_sessions sm k \<noteq> None \<longleftrightarrow> k = 0 \<or> k = 1" for k
      using that by (auto simp: dom_def set_eq_iff)
    then have dom: "\<And>k. k \<noteq> 0 \<Longrightarrow> k \<noteq> 1 \<Longrightarrow> mg_sessions sm k = None" "mg_sessions sm 0 \<noteq> None" "mg_sessions sm 1 \<noteq> None" by blast+
    from dom(1) show ?thesis using dom(2,3) by (auto simp: enumerates_def fun_eq_iff)
  qed
  have pm: "choose_proxies id ?cfg (Inr ([], None)) = Inr new_proxy_manager"
    by (simp add: choose_proxies_def default_config_def)
  obtain pm1 sm h1 where c: "create_sessions id sample_env [1, 0] rev 2 (Some new_proxy_manager)
      (new_session_manager (Some ?cfg)) sample_heap = Some (CreateOk, pm1, sm, h1)"
    by (simp add: create_sessions_def new_session_manager_def get_next_proxy_def new_proxy_manager_def
        new_session_def new_http_client_cases sample_env_def Let_def)
  obtain e where e: "main_start id ''c'' (Decoded ?cfg) (Inr ([], None)) sample_env [1, 0] rev ?order (At 0 0) sample_heap = Started e"
    using c by (simp add: main_start_def cfg pm)
  from main_starts_engine[OF e cfg draws _ order] show ?thesis using e by (auto simp: Let_def)
qed

end
