(* ===== verification/Dashboard_Log.thy ===== *)
theory Dashboard_Log
  imports Dashboard
begin

section \<open>dashboard/server.go: the log stream\<close>

text \<open>
  The log buffer and its streams as a step relation in which calls of \<open>AddLog\<close> and any number of
  streaming handlers interleave.
\<close>

subsection \<open>The log stream\<close>

text \<open>
  A call of \<open>handleLogsStream\<close> writes the history it has copied, then subscribes, then forwards what
  its channel holds. The rest of the record is not in the code: the entries written so far, the
  history copied, and how many entries had been fanned out when it subscribed.
\<close>

datatype stream_pc = Writing "log_entry list" | Subscribing | Live nat | Gone

record log_stream =
  lg_pc :: stream_pc
  lg_sent :: "log_entry list"
  lg_history :: "log_entry list"
  lg_since :: nat

text \<open>
  \<open>lw_adding\<close>: calls of \<open>AddLog\<close> between their two sections. \<open>lw_all\<close> and \<open>lw_fanned\<close>: all entries in
  the order of the first section, and of the second; \<open>lw_dropped\<close>: channels that were full once.
\<close>

record log_world =
  lw_dash :: dashboard
  lw_adding :: "log_entry multiset"
  lw_streams :: "log_stream list"
  lw_all :: "log_entry list"
  lw_fanned :: "log_entry list"
  lw_dropped :: "nat set"

definition log_subscribe :: "dashboard \<Rightarrow> nat \<times> dashboard" where
  "log_subscribe s =
     (db_next s, s\<lparr>db_log_subs := insert (db_next s) (db_log_subs s),
                   db_log_chan := (db_log_chan s)(db_next s := []), db_next := Suc (db_next s)\<rparr>)"

definition log_unsubscribe :: "nat \<Rightarrow> dashboard \<Rightarrow> dashboard" where
  "log_unsubscribe ch s = s\<lparr>db_log_subs := db_log_subs s - {ch}\<rparr>"

definition log_receive :: "nat \<Rightarrow> dashboard \<Rightarrow> (log_entry \<times> dashboard) option" where
  "log_receive ch s =
     (case db_log_chan s ch of
        [] \<Rightarrow> None
      | entry # rest \<Rightarrow> Some (entry, s\<lparr>db_log_chan := (db_log_chan s)(ch := rest)\<rparr>))"

definition put_stream :: "nat \<Rightarrow> log_stream \<Rightarrow> log_world \<Rightarrow> log_world" where
  "put_stream i st w = w\<lparr>lw_streams := (lw_streams w)[i := st]\<rparr>"

definition at_stream :: "log_world \<Rightarrow> nat \<Rightarrow> log_stream \<Rightarrow> bool" where
  "at_stream w i st \<longleftrightarrow> i < length (lw_streams w) \<and> lw_streams w ! i = st"

inductive log_step :: "log_world \<Rightarrow> log_world \<Rightarrow> bool" where
  lg_append: "log_step w (w\<lparr>lw_dash := log_append e (lw_dash w), lw_adding := add_mset e (lw_adding w),
     lw_all := lw_all w @ [e]\<rparr>)"
| lg_fan: "lw_adding w = add_mset e M \<Longrightarrow>
     log_step w (w\<lparr>lw_dash := log_fan_out e (lw_dash w), lw_adding := M, lw_fanned := lw_fanned w @ [e],
       lw_dropped := lw_dropped w \<union> {ch \<in> db_log_subs (lw_dash w). log_buffer \<le> length (db_log_chan (lw_dash w) ch)}\<rparr>)"
| lg_open: "log_step w (w\<lparr>lw_streams := lw_streams w @
     [\<lparr>lg_pc = Writing (db_logs (lw_dash w)), lg_sent = [], lg_history = db_logs (lw_dash w), lg_since = 0\<rparr>]\<rparr>)"
| lg_write: "at_stream w i st \<Longrightarrow> lg_pc st = Writing (e # es) \<Longrightarrow>
     log_step w (put_stream i (st\<lparr>lg_pc := Writing es, lg_sent := lg_sent st @ [e]\<rparr>) w)"
| lg_write_fails: "at_stream w i st \<Longrightarrow> lg_pc st = Writing (e # es) \<Longrightarrow>
     log_step w (put_stream i (st\<lparr>lg_pc := Gone\<rparr>) w)"
| lg_flush: "at_stream w i st \<Longrightarrow> lg_pc st = Writing [] \<Longrightarrow>
     log_step w (put_stream i (st\<lparr>lg_pc := Subscribing\<rparr>) w)"
| lg_subscribe: "at_stream w i st \<Longrightarrow> lg_pc st = Subscribing \<Longrightarrow> log_subscribe (lw_dash w) = (ch, d) \<Longrightarrow>
     log_step w ((put_stream i (st\<lparr>lg_pc := Live ch, lg_since := length (lw_fanned w)\<rparr>) w)\<lparr>lw_dash := d\<rparr>)"
| lg_receive: "at_stream w i st \<Longrightarrow> lg_pc st = Live ch \<Longrightarrow> log_receive ch (lw_dash w) = Some (e, d) \<Longrightarrow>
     log_step w ((put_stream i (st\<lparr>lg_sent := lg_sent st @ [e]\<rparr>) w)\<lparr>lw_dash := d\<rparr>)"
| lg_receive_fails: "at_stream w i st \<Longrightarrow> lg_pc st = Live ch \<Longrightarrow> log_receive ch (lw_dash w) = Some (e, d) \<Longrightarrow>
     log_step w ((put_stream i (st\<lparr>lg_pc := Gone\<rparr>) w)\<lparr>lw_dash := log_unsubscribe ch d\<rparr>)"
| lg_close: "at_stream w i st \<Longrightarrow> lg_pc st = Live ch \<Longrightarrow>
     log_step w ((put_stream i (st\<lparr>lg_pc := Gone\<rparr>) w)\<lparr>lw_dash := log_unsubscribe ch (lw_dash w)\<rparr>)"

definition log_world_new :: "metrics \<Rightarrow> config \<Rightarrow> log_world" where
  "log_world_new m cfg = \<lparr>lw_dash = new_dashboard m cfg, lw_adding = {#}, lw_streams = [], lw_all = [], lw_fanned = [],
     lw_dropped = {}\<rparr>"

definition log_initial :: "log_world \<Rightarrow> bool" where
  "log_initial w \<longleftrightarrow> (\<exists>m cfg. w = log_world_new m cfg)"

subsection \<open>The invariant of the log\<close>

definition last_logs :: "log_entry list \<Rightarrow> log_entry list" where
  "last_logs es = drop (length es - max_logs) es"

lemma last_logs_snoc: "last_logs (es @ [e]) = (let l = last_logs es @ [e] in if length l > max_logs then drop (length l - max_logs) l else l)"
  by (auto simp: last_logs_def Let_def Suc_diff_le)

text \<open>What a stream has written, given the channel contents and the entries fanned out.\<close>

fun stream_ok :: "(nat \<Rightarrow> log_entry list) \<Rightarrow> log_entry list \<Rightarrow> nat set \<Rightarrow> log_stream \<Rightarrow> stream_pc \<Rightarrow> bool" where
  "stream_ok chan fanned dropped st (Writing es) \<longleftrightarrow> lg_sent st @ es = lg_history st"
| "stream_ok chan fanned dropped st Subscribing \<longleftrightarrow> lg_sent st = lg_history st"
| "stream_ok chan fanned dropped st (Live ch) \<longleftrightarrow> lg_since st \<le> length fanned
     \<and> (ch \<notin> dropped \<longrightarrow> lg_sent st @ chan ch = lg_history st @ drop (lg_since st) fanned)"
| "stream_ok chan fanned dropped st Gone \<longleftrightarrow> True"

text \<open>The channels of live streams: in use, and each of one stream.\<close>

definition live_ok :: "log_world \<Rightarrow> bool" where
  "live_ok w \<longleftrightarrow> (\<forall>i st ch. at_stream w i st \<longrightarrow> lg_pc st = Live ch \<longrightarrow> ch \<in> db_log_subs (lw_dash w) \<and> ch < db_next (lw_dash w))
    \<and> (\<forall>i j st st' ch. at_stream w i st \<longrightarrow> at_stream w j st' \<longrightarrow> lg_pc st = Live ch \<longrightarrow> lg_pc st' = Live ch \<longrightarrow> i = j)
    \<and> (\<forall>ch \<in> lw_dropped w \<union> db_log_subs (lw_dash w). ch < db_next (lw_dash w))"

definition log_inv :: "log_world \<Rightarrow> bool" where
  "log_inv w \<longleftrightarrow> db_logs (lw_dash w) = last_logs (lw_all w) \<and> live_ok w
    \<and> (\<forall>i st. at_stream w i st \<longrightarrow> stream_ok (db_log_chan (lw_dash w)) (lw_fanned w) (lw_dropped w) st (lg_pc st))"

lemma at_put: "at_stream (put_stream i st w) j st' \<longleftrightarrow> (if j = i then i < length (lw_streams w) \<and> st' = st else at_stream w j st')"
  by (cases "j = i") (auto simp: at_stream_def put_stream_def)

lemma at_stream_simps [simp]:
  "at_stream (w\<lparr>lw_dash := d\<rparr>) = at_stream w" "at_stream (w\<lparr>lw_adding := M\<rparr>) = at_stream w"
  "at_stream (w\<lparr>lw_all := es\<rparr>) = at_stream w" "at_stream (w\<lparr>lw_fanned := es\<rparr>) = at_stream w"
  "at_stream (w\<lparr>lw_dropped := ds\<rparr>) = at_stream w"
  by (auto simp: at_stream_def fun_eq_iff)

lemma put_stream_simps [simp]:
  "lw_dash (put_stream i st w) = lw_dash w" "lw_adding (put_stream i st w) = lw_adding w" "lw_all (put_stream i st w) = lw_all w"
  "lw_fanned (put_stream i st w) = lw_fanned w" "lw_dropped (put_stream i st w) = lw_dropped w"
  by (simp_all add: put_stream_def)

lemma at_open: "at_stream (w\<lparr>lw_streams := lw_streams w @ [st]\<rparr>) j st' \<longleftrightarrow> at_stream w j st' \<or> j = length (lw_streams w) \<and> st' = st"
  by (auto simp: at_stream_def nth_append less_Suc_eq)

lemma at_stream_index: "at_stream w i st \<Longrightarrow> i < length (lw_streams w)"
  by (simp add: at_stream_def)

lemma at_stream_unique: "at_stream w i st \<Longrightarrow> at_stream w i st' \<Longrightarrow> st' = st"
  by (simp add: at_stream_def)

lemma log_inv_stream: "log_inv w \<Longrightarrow> at_stream w i st \<Longrightarrow>
  stream_ok (db_log_chan (lw_dash w)) (lw_fanned w) (lw_dropped w) st (lg_pc st)"
  by (simp add: log_inv_def)

lemma log_inv_live: "log_inv w \<Longrightarrow> at_stream w i st \<Longrightarrow> lg_pc st = Live ch \<Longrightarrow>
  ch \<in> db_log_subs (lw_dash w) \<and> ch < db_next (lw_dash w)"
  unfolding log_inv_def live_ok_def by blast

lemma log_inv_one: "log_inv w \<Longrightarrow> at_stream w i st \<Longrightarrow> at_stream w j st' \<Longrightarrow> lg_pc st = Live ch \<Longrightarrow> lg_pc st' = Live ch \<Longrightarrow> i = j"
  unfolding log_inv_def live_ok_def by blast

text \<open>A step of one stream that does not touch the channels.\<close>

lemma log_inv_put:
  assumes "log_inv w" "at_stream w i st"
    and "stream_ok (db_log_chan (lw_dash w)) (lw_fanned w) (lw_dropped w) st' (lg_pc st')"
    and "\<And>ch. lg_pc st' = Live ch \<Longrightarrow> lg_pc st = Live ch"
  shows "log_inv (put_stream i st' w)"
proof -
  have live: "\<exists>s. at_stream w j s \<and> lg_pc s = Live ch" if "at_stream (put_stream i st' w) j s'" "lg_pc s' = Live ch" for j s' ch
    using that assms(2,4) by (auto simp: at_put split: if_splits)
  have "live_ok (put_stream i st' w)"
    unfolding live_ok_def put_stream_simps
  proof (intro conjI allI impI)
    fix j s ch assume "at_stream (put_stream i st' w) j s" "lg_pc s = Live ch"
    from live[OF this] log_inv_live[OF assms(1)] show "ch \<in> db_log_subs (lw_dash w)" "ch < db_next (lw_dash w)" by blast+
  next
    fix j k s s' ch
    assume "at_stream (put_stream i st' w) j s" "at_stream (put_stream i st' w) k s'" "lg_pc s = Live ch" "lg_pc s' = Live ch"
    with live log_inv_one[OF assms(1)] show "j = k" by meson
  qed (use assms(1) in \<open>auto simp: log_inv_def live_ok_def\<close>)
  with assms(1,3) show ?thesis by (auto simp: log_inv_def at_put split: if_splits)
qed

text \<open>A stream that has left its loop, and its channel the subscribers.\<close>

lemma log_inv_gone:
  assumes "log_inv w" "at_stream w i st" "lg_pc st = Live ch"
    and "\<And>c. c \<noteq> ch \<Longrightarrow> chan c = db_log_chan (lw_dash w) c"
  shows "log_inv ((put_stream i (st\<lparr>lg_pc := Gone\<rparr>) w)\<lparr>lw_dash := log_unsubscribe ch ((lw_dash w)\<lparr>db_log_chan := chan\<rparr>)\<rparr>)"
proof -
  let ?w = "(put_stream i (st\<lparr>lg_pc := Gone\<rparr>) w)\<lparr>lw_dash := log_unsubscribe ch ((lw_dash w)\<lparr>db_log_chan := chan\<rparr>)\<rparr>"
  have other: "c \<noteq> ch" if "at_stream w j s" "lg_pc s = Live c" "j \<noteq> i" for j s c
    using that log_inv_one[OF assms(1)] assms(2,3) by metis
  have at: "at_stream ?w j s \<longleftrightarrow> (if j = i then i < length (lw_streams w) \<and> s = st\<lparr>lg_pc := Gone\<rparr> else at_stream w j s)" for j s
    by (simp add: at_put)
  have "live_ok ?w"
    unfolding live_ok_def at
  proof (intro conjI allI impI)
    fix j s c assume "if j = i then i < length (lw_streams w) \<and> s = st\<lparr>lg_pc := Gone\<rparr> else at_stream w j s" "lg_pc s = Live c"
    then have j: "j \<noteq> i" "at_stream w j s" "lg_pc s = Live c" by (auto split: if_splits)
    with other log_inv_live[OF assms(1) j(2,3)] show "c \<in> db_log_subs (lw_dash ?w)" "c < db_next (lw_dash ?w)"
      by (auto simp: log_unsubscribe_def)
  next
    fix j k s s' c
    assume "if j = i then i < length (lw_streams w) \<and> s = st\<lparr>lg_pc := Gone\<rparr> else at_stream w j s"
      "if k = i then i < length (lw_streams w) \<and> s' = st\<lparr>lg_pc := Gone\<rparr> else at_stream w k s'"
      "lg_pc s = Live c" "lg_pc s' = Live c"
    then show "j = k" using log_inv_one[OF assms(1)] by (auto split: if_splits)
  qed (use assms(1) in \<open>auto simp: log_inv_def live_ok_def log_unsubscribe_def\<close>)
  moreover have "stream_ok (db_log_chan (lw_dash ?w)) (lw_fanned ?w) (lw_dropped ?w) s (lg_pc s)" if "at_stream ?w j s" for j s
  proof (cases "j = i")
    case False
    with that have j: "at_stream w j s" by (simp add: at_put)
    note ok = log_inv_stream[OF assms(1) j]
    have "chan c = db_log_chan (lw_dash w) c" if "lg_pc s = Live c" for c using other[OF j that False] assms(4) by blast
    with ok show ?thesis by (cases "lg_pc s") (simp_all add: log_unsubscribe_def)
  qed (use that in \<open>simp add: at_put\<close>)
  moreover have "db_logs (lw_dash ?w) = last_logs (lw_all ?w)" using assms(1) by (simp add: log_inv_def log_unsubscribe_def)
  ultimately show ?thesis unfolding log_inv_def by blast
qed

lemma log_inv_fan:
  assumes "log_inv w" "lw_adding w = add_mset e M"
  shows "log_inv (w\<lparr>lw_dash := log_fan_out e (lw_dash w), lw_adding := M, lw_fanned := lw_fanned w @ [e],
       lw_dropped := lw_dropped w \<union> {ch \<in> db_log_subs (lw_dash w). log_buffer \<le> length (db_log_chan (lw_dash w) ch)}\<rparr>)"
    (is "log_inv ?w")
proof -
  have "stream_ok (db_log_chan (lw_dash ?w)) (lw_fanned ?w) (lw_dropped ?w) s (lg_pc s)" if "at_stream w j s" for j s
  proof (cases "lg_pc s")
    case (Live ch)
    have ok: "lg_since s \<le> length (lw_fanned w)"
      "ch \<notin> lw_dropped w \<Longrightarrow> lg_sent s @ db_log_chan (lw_dash w) ch = lg_history s @ drop (lg_since s) (lw_fanned w)"
      using log_inv_stream[OF assms(1) that] Live by simp_all
    have "ch \<in> db_log_subs (lw_dash w)" using log_inv_live[OF assms(1) that Live] by simp
    then have "db_log_chan (log_fan_out e (lw_dash w)) ch = db_log_chan (lw_dash w) ch @ [e]"
      if "ch \<notin> lw_dropped ?w" using that by (simp add: log_fan_out_def try_send_room)
    with ok Live show ?thesis by auto
  qed (use log_inv_stream[OF assms(1) that] in simp_all)
  moreover have "live_ok ?w" using assms(1) by (auto simp: log_inv_def live_ok_def log_fan_out_def)
  moreover have "db_logs (lw_dash ?w) = last_logs (lw_all ?w)" using assms(1) by (simp add: log_inv_def log_fan_out_def)
  ultimately show ?thesis unfolding log_inv_def by simp
qed

lemma log_inv_subscribe:
  assumes "log_inv w" "at_stream w i st" "lg_pc st = Subscribing" "log_subscribe (lw_dash w) = (ch, d)"
  shows "log_inv ((put_stream i (st\<lparr>lg_pc := Live ch, lg_since := length (lw_fanned w)\<rparr>) w)\<lparr>lw_dash := d\<rparr>)" (is "log_inv ?w")
proof -
  let ?st = "st\<lparr>lg_pc := Live ch, lg_since := length (lw_fanned w)\<rparr>"
  have d: "ch = db_next (lw_dash w)" "db_log_subs d = insert ch (db_log_subs (lw_dash w))"
    "db_log_chan d = (db_log_chan (lw_dash w))(ch := [])" "db_next d = Suc ch" "db_logs d = db_logs (lw_dash w)"
    using assms(4) by (auto simp: log_subscribe_def)
  have at: "at_stream ?w j s \<longleftrightarrow> (if j = i then i < length (lw_streams w) \<and> s = ?st else at_stream w j s)" for j s
    by (simp add: at_put)
  have new: "c \<noteq> ch" if "at_stream w j s" "lg_pc s = Live c" for j s c
    using log_inv_live[OF assms(1) that] d(1) by auto
  have "live_ok ?w"
    unfolding live_ok_def at
  proof (intro conjI allI impI ballI)
    fix j s c assume "if j = i then i < length (lw_streams w) \<and> s = ?st else at_stream w j s" "lg_pc s = Live c"
    then show "c \<in> db_log_subs (lw_dash ?w)" "c < db_next (lw_dash ?w)"
      using log_inv_live[OF assms(1), of j s c] d by (auto split: if_splits)
  next
    fix j k s s' c
    assume "if j = i then i < length (lw_streams w) \<and> s = ?st else at_stream w j s"
      "if k = i then i < length (lw_streams w) \<and> s' = ?st else at_stream w k s'" "lg_pc s = Live c" "lg_pc s' = Live c"
    then show "j = k"
      using log_inv_one[OF assms(1), of j s k s' c] new[of j s c] new[of k s' c] by (auto split: if_splits)
  next
    fix c assume "c \<in> lw_dropped ?w \<union> db_log_subs (lw_dash ?w)"
    moreover have "\<forall>c \<in> lw_dropped w \<union> db_log_subs (lw_dash w). c < db_next (lw_dash w)"
      using assms(1) by (simp add: log_inv_def live_ok_def)
    ultimately show "c < db_next (lw_dash ?w)" using d by (auto simp: less_Suc_eq)
  qed
  moreover have "stream_ok (db_log_chan (lw_dash ?w)) (lw_fanned ?w) (lw_dropped ?w) s (lg_pc s)" if "at_stream ?w j s" for j s
  proof (cases "j = i")
    case True
    with that log_inv_stream[OF assms(1,2)] assms(3) show ?thesis by (simp add: at_put d)
  next
    case False
    with that have j: "at_stream w j s" by (simp add: at_put)
    from log_inv_stream[OF assms(1) j] new[OF j] show ?thesis by (cases "lg_pc s") (auto simp: d)
  qed
  moreover have "db_logs (lw_dash ?w) = last_logs (lw_all ?w)" using assms(1) d by (simp add: log_inv_def)
  ultimately show ?thesis unfolding log_inv_def by blast
qed

lemma log_inv_receive:
  assumes "log_inv w" "at_stream w i st" "lg_pc st = Live ch" "log_receive ch (lw_dash w) = Some (e, d)"
  shows "log_inv ((put_stream i (st\<lparr>lg_sent := lg_sent st @ [e]\<rparr>) w)\<lparr>lw_dash := d\<rparr>)" (is "log_inv ?w")
proof -
  let ?st = "st\<lparr>lg_sent := lg_sent st @ [e]\<rparr>"
  obtain rest where d: "db_log_chan (lw_dash w) ch = e # rest" "d = (lw_dash w)\<lparr>db_log_chan := (db_log_chan (lw_dash w))(ch := rest)\<rparr>"
    using assms(4) by (auto simp: log_receive_def split: list.splits)
  have at: "at_stream ?w j s \<longleftrightarrow> (if j = i then i < length (lw_streams w) \<and> s = ?st else at_stream w j s)" for j s
    by (simp add: at_put)
  have live: "at_stream w j (if j = i then st else s) \<and> lg_pc (if j = i then st else s) = Live c"
    if "at_stream ?w j s" "lg_pc s = Live c" for j s c
    using that assms(2) by (auto simp: at_put split: if_splits)
  have "live_ok ?w"
    unfolding live_ok_def
  proof (intro conjI allI impI)
    fix j s c assume "at_stream ?w j s" "lg_pc s = Live c"
    from live[OF this] log_inv_live[OF assms(1)] d(2) show "c \<in> db_log_subs (lw_dash ?w)" "c < db_next (lw_dash ?w)" by auto
  next
    fix j k s s' c assume "at_stream ?w j s" "at_stream ?w k s'" "lg_pc s = Live c" "lg_pc s' = Live c"
    with live log_inv_one[OF assms(1)] show "j = k" by meson
  qed (use assms(1) d(2) in \<open>auto simp: log_inv_def live_ok_def\<close>)
  moreover have "stream_ok (db_log_chan (lw_dash ?w)) (lw_fanned ?w) (lw_dropped ?w) s (lg_pc s)" if "at_stream ?w j s" for j s
  proof (cases "j = i")
    case True
    with that log_inv_stream[OF assms(1,2)] assms(3) d show ?thesis by (simp add: at_put)
  next
    case False
    with that have j: "at_stream w j s" by (simp add: at_put)
    have "c \<noteq> ch" if "lg_pc s = Live c" for c using log_inv_one[OF assms(1) j assms(2) that] assms(3) False by blast
    with log_inv_stream[OF assms(1) j] d show ?thesis by (cases "lg_pc s") auto
  qed
  moreover have "db_logs (lw_dash ?w) = last_logs (lw_all ?w)" using assms(1) d by (simp add: log_inv_def)
  ultimately show ?thesis unfolding log_inv_def by blast
qed

lemma log_inv_append:
  "log_inv w \<Longrightarrow> log_inv (w\<lparr>lw_dash := log_append e (lw_dash w), lw_adding := add_mset e (lw_adding w),
     lw_all := lw_all w @ [e]\<rparr>)"
proof -
  assume inv: "log_inv w"
  have "db_logs (log_append e (lw_dash w)) = last_logs (lw_all w @ [e])"
    using inv by (simp add: log_inv_def log_append_def last_logs_snoc Let_def)
  moreover have "db_log_chan (log_append e (lw_dash w)) = db_log_chan (lw_dash w)"
    "db_log_subs (log_append e (lw_dash w)) = db_log_subs (lw_dash w)" "db_next (log_append e (lw_dash w)) = db_next (lw_dash w)"
    by (simp_all add: log_append_def Let_def)
  ultimately show ?thesis using inv by (auto simp: log_inv_def live_ok_def)
qed

lemma log_inv_open:
  assumes "log_inv w" "lg_pc st = Writing es" "lg_sent st @ es = lg_history st"
  shows "log_inv (w\<lparr>lw_streams := lw_streams w @ [st]\<rparr>)"
proof -
  have "at_stream w j s" if "at_stream (w\<lparr>lw_streams := lw_streams w @ [st]\<rparr>) j s" "lg_pc s = Live ch" for j s ch
    using that assms(2) by (auto simp: at_open)
  then have "live_ok (w\<lparr>lw_streams := lw_streams w @ [st]\<rparr>)"
    using assms(1) unfolding log_inv_def live_ok_def by simp blast
  then show ?thesis using assms by (auto simp: log_inv_def at_open)
qed

lemma log_inv_step: "log_step w w' \<Longrightarrow> log_inv w \<Longrightarrow> log_inv w'"
proof (induction rule: log_step.induct)
  case (lg_append w e)
  then show ?case by (rule log_inv_append)
next
  case (lg_fan w e M)
  then show ?case by (intro log_inv_fan)
next
  case (lg_open w)
  then show ?case by (intro log_inv_open) simp_all
next
  case (lg_write w i st e es)
  then show ?case using log_inv_stream[OF lg_write.prems lg_write.hyps(1)] by (intro log_inv_put) auto
next
  case (lg_write_fails w i st e es)
  then show ?case by (intro log_inv_put) auto
next
  case (lg_flush w i st)
  then show ?case using log_inv_stream[OF lg_flush.prems lg_flush.hyps(1)] by (intro log_inv_put) auto
next
  case (lg_subscribe w i st ch d)
  then show ?case by (intro log_inv_subscribe)
next
  case (lg_receive w i st ch e d)
  then show ?case by (intro log_inv_receive)
next
  case (lg_receive_fails w i st ch e d)
  then obtain rest where "d = (lw_dash w)\<lparr>db_log_chan := (db_log_chan (lw_dash w))(ch := rest)\<rparr>"
    by (auto simp: log_receive_def split: list.splits)
  with log_inv_gone[OF lg_receive_fails.prems lg_receive_fails.hyps(1,2), of "(db_log_chan (lw_dash w))(ch := rest)"]
  show ?case by simp
next
  case (lg_close w i st ch)
  from log_inv_gone[OF lg_close.prems lg_close.hyps, of "db_log_chan (lw_dash w)"] show ?case by simp
qed

interpretation log: invariant_machine log_initial log_step log_inv
proof unfold_locales
  fix w assume "log_initial w"
  then show "log_inv w"
    by (auto simp: log_initial_def log_world_new_def log_inv_def live_ok_def at_stream_def new_dashboard_def last_logs_def)
qed (rule log_inv_step)

text \<open>
  The buffer always holds the last ten thousand entries, in order. A stream in its loop whose
  channel was never full has written or holds, in order and without a gap, the buffer it copied
  when it was opened and then every entry fanned out since it subscribed.
\<close>

theorem log_stream_complete:
  assumes "reach log_initial log_step w"
  shows "db_logs (lw_dash w) = drop (length (lw_all w) - 10000) (lw_all w)
    \<and> (at_stream w i st \<longrightarrow> lg_pc st = Live ch \<longrightarrow> ch \<notin> lw_dropped w \<longrightarrow>
        lg_sent st @ db_log_chan (lw_dash w) ch = lg_history st @ drop (lg_since st) (lw_fanned w))"
proof (intro conjI impI)
  have inv: "log_inv w" by (rule log.reach_inv[OF assms])
  then show "db_logs (lw_dash w) = drop (length (lw_all w) - 10000) (lw_all w)"
    by (simp add: log_inv_def last_logs_def max_logs_def)
  assume "at_stream w i st" "lg_pc st = Live ch" "ch \<notin> lw_dropped w"
  with log_inv_stream[OF inv this(1)]
  show "lg_sent st @ db_log_chan (lw_dash w) ch = lg_history st @ drop (lg_since st) (lw_fanned w)" by simp
qed

subsection \<open>Entries missed and repeated\<close>

lemma log_reach_step: "reach log_initial log_step w \<Longrightarrow> log_step w w' \<Longrightarrow> reach log_initial log_step w'"
  by (rule reach_step)

definition entry_at :: "int \<Rightarrow> log_entry" where
  "entry_at n = \<lparr>le_timestamp = n, le_level = ''INFO'', le_message = []\<rparr>"

text \<open>
  The copy of the buffer and the subscription are apart: an entry added in between reaches
  neither, and the stream never shows it; an entry in the buffer when it is copied but fanned out
  only after the subscription is shown twice.
\<close>

theorem log_stream_misses_and_repeats:
  "\<exists>w st. reach log_initial log_step w \<and> lw_dropped w = {} \<and> lw_adding w = {#} \<and> at_stream w 0 st \<and> lg_pc st = Live 0
    \<and> db_log_chan (lw_dash w) 0 = [] \<and> lw_all w = [entry_at 1, entry_at 2] \<and> lg_sent st = [entry_at 1, entry_at 1]"
proof -
  let ?a = "entry_at 1" and ?b = "entry_at 2"
  define W where "W logs subs chan next add sts all fan = \<lparr>lw_dash = \<lparr>db_metrics = new_metrics ZeroTime, db_cfg = default_config,
      db_active_sessions = 0, db_cookie_jar_size = 0, db_logs = logs, db_log_subs = subs, db_log_chan = chan,
      db_metrics_subs = {}, db_metrics_chan = (\<lambda>_. []), db_next = next\<rparr>, lw_adding = add, lw_streams = sts,
      lw_all = all, lw_fanned = fan, lw_dropped = {}\<rparr>"
    for logs subs chan and "next" :: nat and add sts all fan
  let ?st = "\<lambda>pc sent since. \<lparr>lg_pc = pc, lg_sent = sent, lg_history = [?a], lg_since = since\<rparr>"
  let ?none = "\<lambda>_ :: nat. [] :: log_entry list" and ?one = "\<lambda>ch :: nat. if ch = 0 then [?a] else []"
  have one: "?one(0 := []) = ?none" by (simp add: fun_eq_iff)
  note defs = W_def put_stream_def log_append_def log_fan_out_def log_subscribe_def log_receive_def max_logs_def
    try_send_def log_buffer_def at_stream_def Let_def
  have "W [] {} ?none 0 {#} [] [] [] = log_world_new (new_metrics ZeroTime) default_config"
    by (simp add: W_def log_world_new_def new_dashboard_def)
  then have 0: "reach log_initial log_step (W [] {} ?none 0 {#} [] [] [])"
    by (intro reach_initial) (auto simp: log_initial_def)
  have "log_step (W [] {} ?none 0 {#} [] [] []) (W [?a] {} ?none 0 {#?a#} [] [?a] [])"
    using lg_append[of "W [] {} ?none 0 {#} [] [] []" ?a] by (simp add: defs)
  note 1 = log_reach_step[OF 0 this]
  have "log_step (W [?a] {} ?none 0 {#?a#} [] [?a] []) (W [?a] {} ?none 0 {#?a#} [?st (Writing [?a]) [] 0] [?a] [])"
    using lg_open[of "W [?a] {} ?none 0 {#?a#} [] [?a] []"] by (simp add: defs)
  note 2 = log_reach_step[OF 1 this]
  have "log_step (W [?a] {} ?none 0 {#?a#} [?st (Writing [?a]) [] 0] [?a] []) (W [?a] {} ?none 0 {#?a#} [?st (Writing []) [?a] 0] [?a] [])"
    using lg_write[of "W [?a] {} ?none 0 {#?a#} [?st (Writing [?a]) [] 0] [?a] []" 0 "?st (Writing [?a]) [] 0" ?a "[]"] by (simp add: defs)
  note 3 = log_reach_step[OF 2 this]
  have "log_step (W [?a] {} ?none 0 {#?a#} [?st (Writing []) [?a] 0] [?a] []) (W [?a] {} ?none 0 {#?a#} [?st Subscribing [?a] 0] [?a] [])"
    using lg_flush[of "W [?a] {} ?none 0 {#?a#} [?st (Writing []) [?a] 0] [?a] []" 0 "?st (Writing []) [?a] 0"] by (simp add: defs)
  note 4 = log_reach_step[OF 3 this]
  have "log_step (W [?a] {} ?none 0 {#?a#} [?st Subscribing [?a] 0] [?a] []) (W [?a, ?b] {} ?none 0 {#?b, ?a#} [?st Subscribing [?a] 0] [?a, ?b] [])"
    using lg_append[of "W [?a] {} ?none 0 {#?a#} [?st Subscribing [?a] 0] [?a] []" ?b] by (simp add: defs)
  note 5 = log_reach_step[OF 4 this]
  have "log_step (W [?a, ?b] {} ?none 0 {#?b, ?a#} [?st Subscribing [?a] 0] [?a, ?b] []) (W [?a, ?b] {} ?none 0 {#?a#} [?st Subscribing [?a] 0] [?a, ?b] [?b])"
    using lg_fan[of "W [?a, ?b] {} ?none 0 {#?b, ?a#} [?st Subscribing [?a] 0] [?a, ?b] []" ?b "{#?a#}"] by (simp add: defs)
  note 6 = log_reach_step[OF 5 this]
  have "log_step (W [?a, ?b] {} ?none 0 {#?a#} [?st Subscribing [?a] 0] [?a, ?b] [?b]) (W [?a, ?b] {0} ?none 1 {#?a#} [?st (Live 0) [?a] 1] [?a, ?b] [?b])"
    using lg_subscribe[of "W [?a, ?b] {} ?none 0 {#?a#} [?st Subscribing [?a] 0] [?a, ?b] [?b]" 0 "?st Subscribing [?a] 0"] by (simp add: defs fun_upd_idem)
  note 7 = log_reach_step[OF 6 this]
  have "log_step (W [?a, ?b] {0} ?none 1 {#?a#} [?st (Live 0) [?a] 1] [?a, ?b] [?b]) (W [?a, ?b] {0} ?one 1 {#} [?st (Live 0) [?a] 1] [?a, ?b] [?b, ?a])"
    using lg_fan[of "W [?a, ?b] {0} ?none 1 {#?a#} [?st (Live 0) [?a] 1] [?a, ?b] [?b]" ?a "{#}"] by (simp add: defs cong: if_cong)
  note 8 = log_reach_step[OF 7 this]
  have "log_step (W [?a, ?b] {0} ?one 1 {#} [?st (Live 0) [?a] 1] [?a, ?b] [?b, ?a]) (W [?a, ?b] {0} ?none 1 {#} [?st (Live 0) [?a, ?a] 1] [?a, ?b] [?b, ?a])"
    using lg_receive[of "W [?a, ?b] {0} ?one 1 {#} [?st (Live 0) [?a] 1] [?a, ?b] [?b, ?a]" 0 "?st (Live 0) [?a] 1" 0 ?a] by (simp add: defs one)
  note 9 = log_reach_step[OF 8 this]
  let ?w = "W [?a, ?b] {0} ?none 1 {#} [?st (Live 0) [?a, ?a] 1] [?a, ?b] [?b, ?a]"
  have "at_stream ?w 0 (?st (Live 0) [?a, ?a] 1)" "lw_dropped ?w = {}" "lw_adding ?w = {#}" "lw_all ?w = [?a, ?b]"
    "db_log_chan (lw_dash ?w) 0 = []" "lg_pc (?st (Live 0) [?a, ?a] 1) = Live 0" "lg_sent (?st (Live 0) [?a, ?a] 1) = [?a, ?a]"
    by (simp_all add: W_def at_stream_def)
  with 9 show ?thesis by blast
qed

text \<open>A stream opened on an empty buffer, up to its subscription.\<close>

lemma quiet_stream:
  "\<exists>w st. reach log_initial log_step w \<and> at_stream w 0 st \<and> lg_pc st = Live 0 \<and> lw_dropped w = {} \<and> lw_fanned w = [] \<and> lg_history st = []"
proof -
  define W where "W subs next sts = \<lparr>lw_dash = \<lparr>db_metrics = new_metrics ZeroTime, db_cfg = default_config,
      db_active_sessions = 0, db_cookie_jar_size = 0, db_logs = [], db_log_subs = subs, db_log_chan = (\<lambda>_. []),
      db_metrics_subs = {}, db_metrics_chan = (\<lambda>_. []), db_next = next\<rparr>, lw_adding = {#}, lw_streams = sts,
      lw_all = [], lw_fanned = [], lw_dropped = {}\<rparr>" for subs and "next" :: nat and sts
  let ?st = "\<lambda>pc. \<lparr>lg_pc = pc, lg_sent = [], lg_history = [], lg_since = 0\<rparr>"
  note defs = W_def put_stream_def log_subscribe_def at_stream_def
  have "W {} 0 [] = log_world_new (new_metrics ZeroTime) default_config"
    by (simp add: W_def log_world_new_def new_dashboard_def)
  then have 0: "reach log_initial log_step (W {} 0 [])" by (intro reach_initial) (auto simp: log_initial_def)
  have "log_step (W {} 0 []) (W {} 0 [?st (Writing [])])" using lg_open[of "W {} 0 []"] by (simp add: defs)
  note 1 = log_reach_step[OF 0 this]
  have "log_step (W {} 0 [?st (Writing [])]) (W {} 0 [?st Subscribing])"
    using lg_flush[of "W {} 0 [?st (Writing [])]" 0 "?st (Writing [])"] by (simp add: defs)
  note 2 = log_reach_step[OF 1 this]
  have "log_step (W {} 0 [?st Subscribing]) (W {0} 1 [?st (Live 0)])"
    using lg_subscribe[of "W {} 0 [?st Subscribing]" 0 "?st Subscribing"] by (simp add: defs fun_upd_idem)
  note 3 = log_reach_step[OF 2 this]
  have "at_stream (W {0} 1 [?st (Live 0)]) 0 (?st (Live 0))" "lg_pc (?st (Live 0)) = Live 0" "lg_history (?st (Live 0)) = []"
    "lw_dropped (W {0} 1 [?st (Live 0)]) = {}" "lw_fanned (W {0} 1 [?st (Live 0)]) = []"
    by (simp_all add: defs)
  with 3 show ?thesis by blast
qed

lemma log_stream_complete_witness:
  "\<exists>w st. reach log_initial log_step w \<and> at_stream w 0 st \<and> lg_sent st @ db_log_chan (lw_dash w) 0 = []"
proof -
  obtain w st where w: "reach log_initial log_step w" "at_stream w 0 st" "lg_pc st = Live 0" "lw_dropped w = {}"
    "lw_fanned w = []" "lg_history st = []" using quiet_stream by blast
  from log_stream_complete[OF w(1), of 0 st 0] w show ?thesis by auto
qed

end
