(* ===== verification/Dashboard_Events.thy ===== *)
theory Dashboard_Events
  imports Dashboard_Log
begin

section \<open>dashboard/server.go: the event streams on the wire\<close>

text \<open>
  What the bytes of an event stream mean to a client. The text of a value contains no line end, so a
  log message, whatever bytes it has, is exactly one event, and the events of a stream decode to the
  entries that were written.
\<close>

subsection \<open>Reading an event stream\<close>

text \<open>
  The client's side, as the HTML standard describes it: lines end in a line feed, a carriage return
  or both; a line with the field \<open>data\<close> adds to the event, an empty line ends it, other lines are
  ignored here.
\<close>

definition carriage_return :: char where
  "carriage_return = CHR 0x0D"

fun stream_lines :: "gostring \<Rightarrow> gostring \<Rightarrow> gostring list" where
  "stream_lines line [] = []"
| "stream_lines line [c] = (if c = newline \<or> c = carriage_return then [line] else [])"
| "stream_lines line (c # d # s) =
     (if c = newline then line # stream_lines [] (d # s)
      else if c = carriage_return then line # stream_lines [] (if d = newline then s else d # s)
      else stream_lines (line @ [c]) (d # s))"

definition data_of_line :: "gostring \<Rightarrow> gostring option" where
  "data_of_line l =
     (if is_prefix ''data:'' l then
        Some (if is_prefix '' '' (drop 5 l) then drop 6 l else drop 5 l)
      else None)"

fun stream_events :: "gostring option \<Rightarrow> gostring list \<Rightarrow> gostring list" where
  "stream_events data [] = []"
| "stream_events data (l # ls) =
     (if l = [] then (case data of None \<Rightarrow> stream_events None ls | Some t \<Rightarrow> t # stream_events None ls)
      else
        (case data_of_line l of
           None \<Rightarrow> stream_events data ls
         | Some t \<Rightarrow> stream_events (Some (case data of None \<Rightarrow> t | Some u \<Rightarrow> u @ [newline] @ t)) ls))"

definition client_events :: "gostring \<Rightarrow> gostring list" where
  "client_events body = stream_events None (stream_lines [] body)"

lemma stream_lines_line:
  assumes "one_line t"
  shows "stream_lines line (t @ newline # s) = (line @ t) # stream_lines [] s"
  using assms
proof (induction t arbitrary: line)
  case Nil
  then show ?case by (cases s) simp_all
next
  case (Cons c t)
  then have c: "c \<noteq> newline" "c \<noteq> carriage_return" by (auto simp: newline_def carriage_return_def code_def)
  obtain d r where d: "t @ newline # s = d # r" by (cases "t @ newline # s") auto
  from Cons.IH[of "line @ [c]"] Cons.prems c d show ?case by simp
qed

lemma client_events_event:
  assumes "one_line (json_text fmt v)"
  shows "client_events (sse_event fmt v @ s) = json_text fmt v # client_events s"
proof -
  let ?l = "''data: '' @ json_text fmt v"
  have "one_line ?l" using assms by (simp add: code_def)
  then have "stream_lines [] (sse_event fmt v @ s) = ?l # [] # stream_lines [] s"
    using stream_lines_line[of ?l "[]" "newline # s"] stream_lines_line[of "[]" "[]" s] by (simp add: sse_event_def)
  moreover have "data_of_line ?l = Some (json_text fmt v)" by (simp add: data_of_line_def is_prefix_def)
  ultimately show ?thesis by (simp add: client_events_def)
qed

subsection \<open>The log stream\<close>

text \<open>The writes of \<open>handleLogsStream\<close> that succeed, one per entry.\<close>

definition log_writes :: "log_entry list \<Rightarrow> http_writer \<Rightarrow> http_writer" where
  "log_writes es w = fold (\<lambda>e w. snd (sse_write (\<lambda>x. []) None (log_entry_value e) w)) es w"

lemma log_writes_body: "wr_body (log_writes es w) = wr_body w @ concat (map (\<lambda>e. sse_event (\<lambda>x. []) (log_entry_value e)) es)"
  by (induction es arbitrary: w) (simp_all add: log_writes_def sse_write_def write_body_def)

lemma client_events_log:
  "client_events (concat (map (\<lambda>e. sse_event (\<lambda>x. []) (log_entry_value e)) es)) = map (\<lambda>e. json_plain (log_entry_value e)) es"
proof (induction es)
  case Nil
  then show ?case by (simp add: client_events_def)
next
  case (Cons e es)
  then show ?case using client_events_event[of "\<lambda>x. []" "log_entry_value e"] json_text_line[of "\<lambda>x. []"]
    by (simp add: json_plain_def)
qed

definition decoded_entry :: "log_entry \<Rightarrow> json" where
  "decoded_entry e = JObj [(''ts'', JNum (of_int (le_timestamp e))), (''level'', JStr (utf8_fix (le_level e))),
     (''message'', JStr (utf8_fix (le_message e)))]"

lemma log_entry_decodes:
  assumes "\<bar>le_timestamp e\<bar> < 2 ^ 53"
  shows "unmarshal (json_plain (log_entry_value e)) = Inr (decoded_entry e)"
proof -
  have keys: "utf8_fix ''ts'' = ''ts''" "utf8_fix ''level'' = ''level''" "utf8_fix ''message'' = ''message''"
    by (rule utf8_fix_ascii, simp add: code_def)+
  have "encodable (\<lambda>x. []) max_nesting (log_entry_value e)"
    using assms by (simp add: log_entry_value_def max_nesting_def keys)
  from unmarshal_json_text[OF this, of "[]"] show ?thesis
    by (simp add: json_plain_def log_entry_value_def decoded_entry_def keys)
qed

text \<open>
  What a client of the log stream reads. From an empty response, the entries a stream has written
  arrive as exactly as many events, each the JSON of its entry, which decodes to the entry's time,
  level and message; no message, whatever line ends, quotes or bytes it contains, ends an event early
  or adds one. Bytes that are not UTF-8 arrive as U+FFFD.
\<close>

theorem log_events_faithful:
  assumes "wr_body w = []" "\<forall>e \<in> set es. \<bar>le_timestamp e\<bar> < 2 ^ 53"
  shows "client_events (wr_body (log_writes es w)) = map (\<lambda>e. json_plain (log_entry_value e)) es
    \<and> map unmarshal (client_events (wr_body (log_writes es w))) = map (\<lambda>e. Inr (decoded_entry e)) es"
  using assms(2) by (simp add: log_writes_body assms(1) client_events_log log_entry_decodes)

text \<open>A message that looks like two events of its own.\<close>

theorem log_events_faithful_witness:
  "let e = \<lparr>le_timestamp = 1700000000000, le_level = ''INFO'', le_message = ''x'' @ [newline, newline] @ ''data: forged'' @ [newline, newline]\<rparr>
   in client_events (wr_body (log_writes [e, e] new_writer)) = [json_plain (log_entry_value e), json_plain (log_entry_value e)]
      \<and> unmarshal (json_plain (log_entry_value e)) = Inr (decoded_entry e)"
proof -
  let ?e = "\<lparr>le_timestamp = 1700000000000, le_level = ''INFO'', le_message = ''x'' @ [newline, newline] @ ''data: forged'' @ [newline, newline]\<rparr>"
  have "wr_body new_writer = []" by (simp add: new_writer_def)
  moreover have "\<forall>e \<in> set [?e, ?e]. \<bar>le_timestamp e\<bar> < 2 ^ 53" by simp
  ultimately have "client_events (wr_body (log_writes [?e, ?e] new_writer)) = map (\<lambda>e. json_plain (log_entry_value e)) [?e, ?e]
    \<and> map unmarshal (client_events (wr_body (log_writes [?e, ?e] new_writer))) = map (\<lambda>e. Inr (decoded_entry e)) [?e, ?e]"
    by (rule log_events_faithful)
  then show ?thesis by (auto simp: Let_def)
qed

subsection \<open>A live stream, from the calls of AddLog to the client\<close>

text \<open>
  C17: The log stream end to end, with any number of calls of \<open>AddLog\<close> and of streams interleaved. The
  buffer always holds the last ten thousand entries, in order. What a stream has written so far reads
  as one event for each entry it has sent, decoding to that entry. If the stream is in its loop and
  its channel was never full, these events and then those of the entries in its channel are, in order
  and without a gap, the buffer it copied when it was opened and every entry fanned out since it subscribed.
\<close>

theorem log_stream_read:
  assumes "reach log_initial log_step w" "at_stream w i st"
    and "wr_body w0 = []" "\<forall>e \<in> set (lg_sent st). \<bar>le_timestamp e\<bar> < 2 ^ 53"
    and "received = client_events (wr_body (log_writes (lg_sent st) w0))"
  shows "db_logs (lw_dash w) = drop (length (lw_all w) - 10000) (lw_all w)
    \<and> received = map (\<lambda>e. json_plain (log_entry_value e)) (lg_sent st)
    \<and> map unmarshal received = map (\<lambda>e. Inr (decoded_entry e)) (lg_sent st)
    \<and> (lg_pc st = Live ch \<longrightarrow> ch \<notin> lw_dropped w \<longrightarrow>
        received @ map (\<lambda>e. json_plain (log_entry_value e)) (db_log_chan (lw_dash w) ch) =
          map (\<lambda>e. json_plain (log_entry_value e)) (lg_history st @ drop (lg_since st) (lw_fanned w)))"
proof -
  have inv: "log_inv w" by (rule log.reach_inv[OF assms(1)])
  have "lg_sent st @ db_log_chan (lw_dash w) ch = lg_history st @ drop (lg_since st) (lw_fanned w)"
    if "lg_pc st = Live ch" "ch \<notin> lw_dropped w"
    using log_inv_stream[OF inv assms(2)] that by simp
  then show ?thesis
    using inv log_events_faithful[OF assms(3,4)] assms(5)
    by (auto simp: log_inv_def last_logs_def max_logs_def simp flip: map_append)
qed

theorem log_stream_read_witness:
  "\<exists>w st. reach log_initial log_step w \<and> at_stream w 0 st \<and> lg_pc st = Live 0
    \<and> client_events (wr_body (log_writes (lg_sent st) new_writer)) =
        [json_plain (log_entry_value (entry_at 1)), json_plain (log_entry_value (entry_at 1))]
    \<and> db_logs (lw_dash w) = [entry_at 1, entry_at 2]"
proof -
  obtain w st where w: "reach log_initial log_step w" "at_stream w 0 st" "lg_pc st = Live 0"
    "lw_all w = [entry_at 1, entry_at 2]" "lg_sent st = [entry_at 1, entry_at 1]"
    using log_stream_misses_and_repeats by blast
  have "wr_body new_writer = []" "\<forall>e \<in> set (lg_sent st). \<bar>le_timestamp e\<bar> < 2 ^ 53"
    by (simp_all add: new_writer_def w(5) entry_at_def)
  from log_stream_read[OF w(1,2) this refl] w(4,5)
  have "db_logs (lw_dash w) = [entry_at 1, entry_at 2]" "client_events (wr_body (log_writes (lg_sent st) new_writer)) =
      [json_plain (log_entry_value (entry_at 1)), json_plain (log_entry_value (entry_at 1))]"
    by simp_all
  with w(1-3) show ?thesis by blast
qed

end
