(* ===== verification/Dashboard_Routes.thy ===== *)
theory Dashboard_Routes
  imports Dashboard_Events
begin

section \<open>dashboard/server.go: the routes and the life of the server\<close>

text \<open>
  The routing table, the dispatch of a request through the CORS wrapper to its handler, and what
  any sequence of requests, log calls, ticks and receives does to the server. A request for a
  stream is cut at its subscription: what follows are receives and the end of the stream, events
  of their own. The path of a request is the one \<open>net/http\<close> matches, after its cleaning.
\<close>

subsection \<open>Requests\<close>

datatype endpoint = MetricsStream | LogsStream | ConfigEndpoint | NodesEndpoint | ProxyEndpoint

definition registered_routes :: "(gostring \<times> endpoint) list" where
  "registered_routes =
     [(''/api/metrics/stream'', MetricsStream), (''/api/logs/stream'', LogsStream), (''/api/config'', ConfigEndpoint),
      (''/api/nodes'', NodesEndpoint), (''/api/proxy'', ProxyEndpoint)]"

text \<open>
  A request with what the library makes of it and what the environment gives while it is served:
  whether the writer flushes, the decoded body, the upload, the outcomes of the writes of a stream,
  the clock and the runtime's numbers.
\<close>

record http_call =
  hq_method :: gostring
  hq_path :: gostring
  hq_flusher :: bool
  hq_body :: "goerror + config_payload"
  hq_upload :: upload
  hq_writes :: "goerror option list"
  hq_now :: int
  hq_alloc :: nat
  hq_goroutines :: int

text \<open>\<open>handleMetricsStream\<close> up to its loop.\<close>

definition begin_metrics_stream :: "bool \<Rightarrow> http_writer \<Rightarrow> dashboard \<Rightarrow> http_writer \<times> dashboard" where
  "begin_metrics_stream flusher w s =
     (case open_stream flusher w of
        (False, w1) \<Rightarrow> (w1, s)
      | (True, w1) \<Rightarrow> (let (ch, s1) = metrics_subscribe s in (w1, s1)))"

text \<open>The loop over the history in \<open>handleLogsStream\<close>; whether it got to the end.\<close>

fun write_history :: "goerror option list \<Rightarrow> log_entry list \<Rightarrow> http_writer \<Rightarrow> bool \<times> http_writer" where
  "write_history errs [] w = (True, w)"
| "write_history errs (entry # es) w =
     (let (write_err, rest) = (case errs of [] \<Rightarrow> (None, []) | e # r \<Rightarrow> (e, r)) in
      case sse_write (\<lambda>x. []) write_err (log_entry_value entry) w of
        (Some e, w1) \<Rightarrow> (False, w1)
      | (None, w1) \<Rightarrow> write_history rest es w1)"

definition begin_logs_stream :: "bool \<Rightarrow> goerror option list \<Rightarrow> http_writer \<Rightarrow> dashboard \<Rightarrow> http_writer \<times> dashboard" where
  "begin_logs_stream flusher errs w s =
     (case open_stream flusher w of
        (False, w1) \<Rightarrow> (w1, s)
      | (True, w1) \<Rightarrow>
          (let history = db_logs s in
           case write_history errs history w1 of
             (False, w2) \<Rightarrow> (w2, s)
           | (True, w2) \<Rightarrow> (let (ch, s1) = log_subscribe s in (w2, s1))))"

definition endpoint_handler ::
  "(gostring \<Rightarrow> gostring) \<Rightarrow> http_call \<Rightarrow> endpoint \<Rightarrow> http_writer \<Rightarrow> dashboard \<Rightarrow> http_writer \<times> dashboard" where
  "endpoint_handler quote r ep =
     (case ep of
        MetricsStream \<Rightarrow> begin_metrics_stream (hq_flusher r)
      | LogsStream \<Rightarrow> begin_logs_stream (hq_flusher r) (hq_writes r)
      | ConfigEndpoint \<Rightarrow> handle_config quote (hq_now r) (hq_method r) (hq_body r)
      | NodesEndpoint \<Rightarrow> handle_nodes (hq_alloc r) (hq_goroutines r)
      | ProxyEndpoint \<Rightarrow> handle_proxy quote (hq_now r) (hq_method r) (hq_upload r))"

text \<open>The multiplexer: exact paths, and the library's answer for any other.\<close>

definition serve_call :: "(gostring \<Rightarrow> gostring) \<Rightarrow> http_call \<Rightarrow> http_writer \<Rightarrow> dashboard \<Rightarrow> http_writer \<times> dashboard" where
  "serve_call quote r w s =
     (case map_of registered_routes (hq_path r) of
        None \<Rightarrow> (http_error ''404 page not found'' 404 w, s)
      | Some ep \<Rightarrow> with_cors (hq_method r) (endpoint_handler quote r ep) w s)"

subsection \<open>What every request is answered\<close>

text \<open>The headers a handler sets are none of those of the CORS wrapper.\<close>

definition handler_headers :: "gostring list" where
  "handler_headers = [''Content-Type'', ''X-Content-Type-Options'', ''Cache-Control'', ''Connection'']"

lemma write_header_other:
  "canonical_key k \<notin> canonical_key ` set handler_headers \<Longrightarrow> h \<in> set handler_headers \<Longrightarrow>
     header_get (wr_header (write_header h v w)) k = header_get (wr_header w) k"
  by (auto simp: write_header_get)

lemma handler_header_names [simp]:
  "''Content-Type'' \<in> set handler_headers" "''X-Content-Type-Options'' \<in> set handler_headers"
  "''Cache-Control'' \<in> set handler_headers" "''Connection'' \<in> set handler_headers"
  by (simp_all add: handler_headers_def)

lemma http_error_other:
  "canonical_key k \<notin> canonical_key ` set handler_headers \<Longrightarrow>
     header_get (wr_header (http_error msg st w)) k = header_get (wr_header w) k"
  by (simp add: http_error_def write_header_other)

lemma write_history_cons:
  "write_history [] (e # es) w = write_history [] es (write_body (sse_event (\<lambda>x. []) (log_entry_value e)) w)"
  "write_history (None # errs) (e # es) w = write_history errs es (write_body (sse_event (\<lambda>x. []) (log_entry_value e)) w)"
  "write_history (Some er # errs) (e # es) w = (False, w)"
  by (simp_all add: sse_write_def)

lemma write_history_header: "write_history errs es w = (ok, w') \<Longrightarrow> wr_header w' = wr_header w"
proof (induction es arbitrary: errs w)
  case (Cons e es)
  consider "errs = []" | er rest where "errs = Some er # rest" | rest where "errs = None # rest"
    by (metis list.exhaust option.exhaust)
  then show ?case
    using Cons by cases (fastforce simp: write_history_cons simp del: write_history.simps(2))+
qed simp

lemma begin_streams_other:
  assumes "canonical_key k \<notin> canonical_key ` set handler_headers"
  shows "header_get (wr_header (fst (begin_metrics_stream flusher w s))) k = header_get (wr_header w) k"
    and "header_get (wr_header (fst (begin_logs_stream flusher errs w s))) k = header_get (wr_header w) k"
  using assms
  by (auto dest!: write_history_header simp: begin_metrics_stream_def begin_logs_stream_def open_stream_def stream_headers_def http_error_other write_header_other
      metrics_subscribe_def log_subscribe_def split: prod.splits bool.splits)

lemma endpoint_handler_other:
  assumes "canonical_key k \<notin> canonical_key ` set handler_headers"
  shows "header_get (wr_header (fst (endpoint_handler quote r ep w s))) k = header_get (wr_header w) k"
  using assms
  by (cases ep) (simp_all add: endpoint_handler_def begin_streams_other handle_config_def handle_nodes_def handle_proxy_def
      http_error_other write_header_other Let_def split: sum.split option.split prod.split)

text \<open>
  Only a POST to the configuration or the upload endpoint changes the configuration or logs a
  line: the other requests leave the server as it is, but for the subscription of a stream.
\<close>

lemma stream_frame:
  "db_cfg (snd (begin_metrics_stream flusher w s)) = db_cfg s" "db_logs (snd (begin_metrics_stream flusher w s)) = db_logs s"
  "db_cfg (snd (begin_logs_stream flusher errs w s)) = db_cfg s" "db_logs (snd (begin_logs_stream flusher errs w s)) = db_logs s"
  by (auto simp: begin_metrics_stream_def begin_logs_stream_def metrics_subscribe_def log_subscribe_def split: prod.splits bool.splits)

lemma handle_config_cfg:
  "db_cfg (snd (handle_config quote now request_method body w s)) =
     (case body of Inr p \<Rightarrow> if request_method = ''POST'' then update_config p (db_cfg s) else db_cfg s | Inl e \<Rightarrow> db_cfg s)"
  by (simp add: handle_config_def Let_def split: sum.split)

lemma no_post_logs:
  "request_method \<noteq> ''POST'' \<Longrightarrow> snd (handle_config quote now request_method body w s) = s"
  "request_method \<noteq> ''POST'' \<Longrightarrow> snd (handle_proxy quote now request_method u w s) = s"
  by (simp_all add: handle_config_def handle_proxy_def)

lemma serve_call_cases:
  obtains (unknown) "hq_path r \<notin> fst ` set registered_routes" "serve_call quote r w s = (http_error ''404 page not found'' 404 w, s)"
    | (routed) ep where "(hq_path r, ep) \<in> set registered_routes"
        "serve_call quote r w s = with_cors (hq_method r) (endpoint_handler quote r ep) w s"
proof (cases "map_of registered_routes (hq_path r)")
  case None
  then have "hq_path r \<notin> fst ` set registered_routes" by (simp add: map_of_eq_None_iff)
  then show ?thesis using None by (intro unknown) (simp_all add: serve_call_def)
next
  case (Some ep)
  then show ?thesis by (intro routed[of ep]) (simp_all add: serve_call_def map_of_SomeD)
qed

lemma stream_routes:
  "(p, ep) \<in> set registered_routes \<Longrightarrow> p \<in> {''/api/metrics/stream'', ''/api/logs/stream''} \<Longrightarrow> ep \<in> {MetricsStream, LogsStream}"
  by (auto simp: registered_routes_def)

lemma served: "map_of registered_routes (hq_path r) = Some ep \<Longrightarrow>
    serve_call quote r w s = with_cors (hq_method r) (endpoint_handler quote r ep) w s"
  by (simp add: serve_call_def)

lemma cors_keys:
  "canonical_key ''Access-Control-Allow-Origin'' \<notin> canonical_key ` set handler_headers"
  "canonical_key ''Access-Control-Allow-Origin'' \<noteq> canonical_key ''Access-Control-Allow-Methods''"
  "canonical_key ''Access-Control-Allow-Origin'' \<noteq> canonical_key ''Access-Control-Allow-Headers''"
  by code_simp+

lemma with_cors_origin:
  assumes "\<And>w. header_get (wr_header (fst (h w s))) ''Access-Control-Allow-Origin'' = header_get (wr_header w) ''Access-Control-Allow-Origin''"
  shows "header_get (wr_header (fst (with_cors method h w s))) ''Access-Control-Allow-Origin'' = ''*''"
  using cors_keys by (simp add: with_cors_def Let_def assms write_header_get)

text \<open>
  C19: Routing. A path that is not one of the five is answered 404; every answer of a registered path,
  errors included, lets any origin read it; a preflight is answered 204 and changes nothing; a
  stream that cannot be flushed is refused with 500 and not subscribed; and without POST neither
  the configuration nor the log changes.
\<close>

theorem routing_spec:
  assumes "serve_call quote r w s = (w', s')"
  shows "if hq_path r \<in> fst ` set registered_routes
    then header_get (wr_header w') ''Access-Control-Allow-Origin'' = ''*''
      \<and> (hq_method r = ''OPTIONS'' \<longrightarrow> wr_status w' = 204 \<and> s' = s)
      \<and> (hq_method r \<noteq> ''OPTIONS'' \<longrightarrow> hq_path r \<in> {''/api/metrics/stream'', ''/api/logs/stream''} \<longrightarrow> \<not> hq_flusher r
          \<longrightarrow> wr_status w' = 500 \<and> s' = s)
      \<and> (hq_method r \<noteq> ''POST'' \<longrightarrow> db_cfg s' = db_cfg s \<and> db_logs s' = db_logs s)
    else wr_status w' = 404 \<and> s' = s"
proof (cases rule: serve_call_cases[of r quote w s])
  case unknown
  then show ?thesis using assms by auto
next
  case (routed ep)
  have r: "w' = fst (with_cors (hq_method r) (endpoint_handler quote r ep) w s)"
    "s' = snd (with_cors (hq_method r) (endpoint_handler quote r ep) w s)"
    using routed(2) assms by (metis fst_conv, metis snd_conv)
  have origin: "header_get (wr_header w') ''Access-Control-Allow-Origin'' = ''*''"
    unfolding r(1) by (rule with_cors_origin, rule endpoint_handler_other, rule cors_keys)
  have path: "hq_path r \<in> fst ` set registered_routes" using routed(1) by force
  have preflight: "wr_status w' = 204 \<and> s' = s" if "hq_method r = ''OPTIONS''"
    using that by (simp add: r with_cors_def Let_def)
  have keep: "db_cfg s' = db_cfg s \<and> db_logs s' = db_logs s" if "hq_method r \<noteq> ''POST''"
    using that by (cases ep) (simp_all add: r with_cors_def endpoint_handler_def stream_frame no_post_logs handle_nodes_def Let_def)
  have refused: "wr_status w' = 500 \<and> s' = s"
    if "hq_method r \<noteq> ''OPTIONS''" "hq_path r \<in> {''/api/metrics/stream'', ''/api/logs/stream''}" "\<not> hq_flusher r"
    using stream_routes[OF routed(1) that(2)] that(1,3)
    by (auto simp: r with_cors_def endpoint_handler_def begin_metrics_stream_def begin_logs_stream_def open_stream_def Let_def)
  show ?thesis unfolding if_P[OF path] using origin preflight refused keep by blast
qed

theorem routing_spec_witness:
  "let r = \<lparr>hq_method = ''GET'', hq_path = ''/api/logs/stream'', hq_flusher = False, hq_body = Inl ''EOF'',
          hq_upload = \<lparr>up_form = None, up_file = Inl [], up_temp = Inl [], up_copy = Inl []\<rparr>, hq_writes = [], hq_now = 0,
          hq_alloc = 0, hq_goroutines = 1\<rparr>;
       (w', s') = serve_call id r new_writer (new_dashboard (new_metrics ZeroTime) default_config)
   in wr_status w' = 500 \<and> db_log_subs s' = {} \<and> header_get (wr_header w') ''Access-Control-Allow-Origin'' = ''*''"
proof -
  let ?r = "\<lparr>hq_method = ''GET'', hq_path = ''/api/logs/stream'', hq_flusher = False, hq_body = Inl ''EOF'',
          hq_upload = \<lparr>up_form = None, up_file = Inl [], up_temp = Inl [], up_copy = Inl []\<rparr>, hq_writes = [], hq_now = 0,
          hq_alloc = 0, hq_goroutines = 1\<rparr>" and ?s = "new_dashboard (new_metrics ZeroTime) default_config"
  obtain w' s' where e: "serve_call id ?r new_writer ?s = (w', s')" by fastforce
  have "hq_path ?r \<in> fst ` set registered_routes" by (simp add: registered_routes_def)
  then have "wr_status w' = 500 \<and> s' = ?s \<and> header_get (wr_header w') ''Access-Control-Allow-Origin'' = ''*''"
    using routing_spec[OF e] by simp
  with e show ?thesis by (simp add: Let_def new_dashboard_def)
qed

subsection \<open>The life of the server\<close>

text \<open>
  What happens to the server, one event after the other: a request, a call of one of the engine's
  entry points, a tick of the metrics, a receive on a channel or the end of a stream.
\<close>

datatype dash_event =
    Requested http_call
  | Logged int gostring gostring
  | Ticked int rat
  | ActiveSessions int
  | JarSize int
  | MetricsReceived nat
  | LogReceived nat
  | MetricsEnded nat
  | LogsEnded nat

fun dash_apply :: "(gostring \<Rightarrow> gostring) \<Rightarrow> dash_event \<Rightarrow> dashboard \<Rightarrow> dashboard" where
  "dash_apply quote (Requested r) s = snd (serve_call quote r new_writer s)"
| "dash_apply quote (Logged now level message) s = add_log now level message s"
| "dash_apply quote (Ticked now rps) s = metrics_tick now rps s"
| "dash_apply quote (ActiveSessions n) s = set_active_sessions n s"
| "dash_apply quote (JarSize n) s = set_cookie_jar_size n s"
| "dash_apply quote (MetricsReceived ch) s = (case metrics_receive ch s of None \<Rightarrow> s | Some (snap, s1) \<Rightarrow> s1)"
| "dash_apply quote (LogReceived ch) s = (case log_receive ch s of None \<Rightarrow> s | Some (entry, s1) \<Rightarrow> s1)"
| "dash_apply quote (MetricsEnded ch) s = metrics_unsubscribe ch s"
| "dash_apply quote (LogsEnded ch) s = log_unsubscribe ch s"

definition dash_run :: "(gostring \<Rightarrow> gostring) \<Rightarrow> dash_event list \<Rightarrow> dashboard \<Rightarrow> dashboard" where
  "dash_run quote evs s = fold (dash_apply quote) evs s"

lemma dash_run_preserves:
  assumes "\<And>ev t. ev \<in> set evs \<Longrightarrow> P t \<Longrightarrow> P (dash_apply quote ev t)" "P s"
  shows "P (dash_run quote evs s)"
  using assms by (induction evs arbitrary: s) (simp_all add: dash_run_def)

fun posts_to :: "gostring \<Rightarrow> dash_event \<Rightarrow> bool" where
  "posts_to path (Requested r) \<longleftrightarrow> hq_method r = ''POST'' \<and> hq_path r = path"
| "posts_to path _ \<longleftrightarrow> False"

text \<open>How a configuration may differ from another: by updates within their ranges, and the file of proxies.\<close>

inductive cfg_step :: "bool \<Rightarrow> bool \<Rightarrow> config \<Rightarrow> config \<Rightarrow> bool" for updates uploads :: bool where
  cfg_same: "cfg_step updates uploads c c"
| cfg_update: "updates \<Longrightarrow> cfg_step updates uploads c (update_config p c)"
| cfg_proxies: "uploads \<Longrightarrow> cfg_step updates uploads c (c\<lparr>cf_proxy_file := f\<rparr>)"

lemma stream_events_cfg [simp]:
  "db_cfg (metrics_tick now rps s) = db_cfg s" "db_cfg (metrics_unsubscribe ch s) = db_cfg s" "db_cfg (log_unsubscribe ch s) = db_cfg s"
  "db_cfg (set_active_sessions n s) = db_cfg s" "db_cfg (set_cookie_jar_size n s) = db_cfg s"
  "metrics_receive ch s = Some (snap, s1) \<Longrightarrow> db_cfg s1 = db_cfg s" "log_receive ch s = Some (entry, s1) \<Longrightarrow> db_cfg s1 = db_cfg s"
  by (auto simp: metrics_tick_def metrics_push_def metrics_unsubscribe_def log_unsubscribe_def set_active_sessions_def set_cookie_jar_size_def
      metrics_receive_def log_receive_def Let_def split: list.splits)

lemma config_route: "(p, ConfigEndpoint) \<in> set registered_routes \<longleftrightarrow> p = ''/api/config''"
  and proxy_route: "(p, ProxyEndpoint) \<in> set registered_routes \<longleftrightarrow> p = ''/api/proxy''"
  by (simp_all add: registered_routes_def)

lemma handle_proxy_cfg: "cfg_step False (request_method = ''POST'') (db_cfg s) (db_cfg (snd (handle_proxy quote now request_method u w s)))"
  by (auto simp: handle_proxy_def Let_def intro: cfg_step.intros split: sum.split option.split)

lemma dash_apply_cfg:
  "cfg_step (posts_to ''/api/config'' ev) (posts_to ''/api/proxy'' ev) (db_cfg s) (db_cfg (dash_apply quote ev s))"
proof (cases ev)
  case (Requested r)
  show ?thesis
  proof (cases rule: serve_call_cases[of r quote new_writer s])
    case (routed ep)
    then show ?thesis
      by (cases ep) (auto simp: Requested with_cors_def endpoint_handler_def stream_frame handle_nodes_def handle_config_cfg config_route proxy_route
          Let_def intro: cfg_step.intros handle_proxy_cfg split: sum.split)
  qed (simp add: Requested cfg_same)
qed (auto intro: cfg_same split: option.split)

text \<open>A configuration reached from \<open>c0\<close> by such updates, if any, and such uploads, if any.\<close>

definition cfg_within :: "bool \<Rightarrow> bool \<Rightarrow> config \<Rightarrow> config \<Rightarrow> bool" where
  "cfg_within updates uploads c0 c \<longleftrightarrow>
     c = c0\<lparr>cf_target_url := cf_target_url c, cf_number_of_sessions := cf_number_of_sessions c, cf_max_retries := cf_max_retries c,
            cf_proxy_file := cf_proxy_file c\<rparr>
     \<and> (\<not> uploads \<longrightarrow> cf_proxy_file c = cf_proxy_file c0)
     \<and> (\<not> updates \<longrightarrow> cf_target_url c = cf_target_url c0 \<and> cf_number_of_sessions c = cf_number_of_sessions c0
          \<and> cf_max_retries c = cf_max_retries c0)"

lemma cfg_within_step:
  assumes "cfg_step up pr c c'" "cfg_within updates uploads c0 c" "up \<longrightarrow> updates" "pr \<longrightarrow> uploads"
  shows "cfg_within updates uploads c0 c'"
  using assms by (cases c0; cases c) (auto simp: cfg_within_def update_config_fields elim!: cfg_step.cases)

text \<open>The buffers of the server: none is longer than the code allows, and channels are not reused.\<close>

definition buffers_ok :: "dashboard \<Rightarrow> bool" where
  "buffers_ok s \<longleftrightarrow> length (db_logs s) \<le> max_logs
     \<and> (\<forall>ch. length (db_log_chan s ch) \<le> log_buffer \<and> length (db_metrics_chan s ch) \<le> metrics_buffer)
     \<and> (\<forall>ch \<in> db_log_subs s \<union> db_metrics_subs s. ch < db_next s) \<and> db_log_subs s \<inter> db_metrics_subs s = {}"

lemma buffers_add_log: "buffers_ok s \<Longrightarrow> buffers_ok (add_log now level message s)"
  by (simp add: buffers_ok_def add_log_def log_fan_out_def log_append_def max_logs_def Let_def try_send_length)

lemma buffers_tick: "buffers_ok s \<Longrightarrow> buffers_ok (metrics_tick now rps s)"
  by (simp add: buffers_ok_def metrics_tick_def metrics_push_def Let_def try_send_length)

lemma buffers_cfg: "buffers_ok (s\<lparr>db_cfg := c\<rparr>) \<longleftrightarrow> buffers_ok s"
  by (simp add: buffers_ok_def)

lemma buffers_streams:
  "buffers_ok s \<Longrightarrow> buffers_ok (snd (begin_metrics_stream flusher w s))"
  "buffers_ok s \<Longrightarrow> buffers_ok (snd (begin_logs_stream flusher errs w s))"
  by (auto simp: buffers_ok_def begin_metrics_stream_def begin_logs_stream_def metrics_subscribe_def log_subscribe_def less_Suc_eq
      split: prod.splits bool.splits)

lemma buffers_receive:
  "buffers_ok s \<Longrightarrow> metrics_receive ch s = Some (snap, s1) \<Longrightarrow> buffers_ok s1"
  "buffers_ok s \<Longrightarrow> log_receive ch s = Some (entry, s1) \<Longrightarrow> buffers_ok s1"
  by (auto simp: buffers_ok_def metrics_receive_def log_receive_def split: list.splits; metis Suc_leD length_Cons)+

lemma buffers_other:
  "buffers_ok (set_active_sessions n s) \<longleftrightarrow> buffers_ok s" "buffers_ok (set_cookie_jar_size n s) \<longleftrightarrow> buffers_ok s"
  "buffers_ok s \<Longrightarrow> buffers_ok (metrics_unsubscribe ch s)" "buffers_ok s \<Longrightarrow> buffers_ok (log_unsubscribe ch s)"
  by (auto simp: buffers_ok_def set_active_sessions_def set_cookie_jar_size_def metrics_unsubscribe_def log_unsubscribe_def)

lemma buffers_apply: "buffers_ok s \<Longrightarrow> buffers_ok (dash_apply quote ev s)"
proof (cases ev)
  case (Requested r)
  assume ok: "buffers_ok s"
  show ?thesis
  proof (cases rule: serve_call_cases[of r quote new_writer s])
    case (routed ep)
    with ok show ?thesis
      by (cases ep) (auto simp: Requested with_cors_def endpoint_handler_def handle_nodes_def handle_config_def handle_proxy_def
          Let_def buffers_cfg intro!: buffers_streams buffers_add_log split: sum.split option.split)
  qed (simp add: Requested ok)
qed (auto simp: buffers_add_log buffers_tick buffers_other split: option.split intro: buffers_receive)

text \<open>
  C20: The server in the long run. Whatever requests, log calls, ticks, receives and ends of streams
  come in whatever order, a configuration that starts within bounds stays within bounds; the log
  never holds more than 10000 entries and no channel more than its capacity; the file of proxies
  changes only by a POST to the upload endpoint and the rest of the configuration only by one to
  the configuration endpoint, and then only in the target URL and the two numbers.
\<close>

theorem dashboard_invariant:
  assumes "s = dash_run quote evs (new_dashboard m cfg)"
  shows "(config_in_bounds cfg \<longrightarrow> config_in_bounds (db_cfg s))
    \<and> length (db_logs s) \<le> 10000 \<and> length (db_log_chan s ch) \<le> 256 \<and> length (db_metrics_chan s ch) \<le> 16
    \<and> (\<exists>t n r p. db_cfg s = cfg\<lparr>cf_target_url := t, cf_number_of_sessions := n, cf_max_retries := r, cf_proxy_file := p\<rparr>
        \<and> ((\<forall>ev \<in> set evs. \<not> posts_to ''/api/proxy'' ev) \<longrightarrow> p = cf_proxy_file cfg)
        \<and> ((\<forall>ev \<in> set evs. \<not> posts_to ''/api/config'' ev) \<longrightarrow>
            t = cf_target_url cfg \<and> n = cf_number_of_sessions cfg \<and> r = cf_max_retries cfg))"
proof -
  have "buffers_ok s" unfolding assms
    by (rule dash_run_preserves[where P = buffers_ok]) (simp_all add: buffers_apply, simp add: buffers_ok_def new_dashboard_def)
  then have buffers: "length (db_logs s) \<le> 10000" "length (db_log_chan s ch) \<le> 256" "length (db_metrics_chan s ch) \<le> 16"
    by (simp_all add: buffers_ok_def max_logs_def log_buffer_def metrics_buffer_def)
  have "config_in_bounds (db_cfg s)" if "config_in_bounds cfg" unfolding assms
  proof (rule dash_run_preserves[where P = "\<lambda>s. config_in_bounds (db_cfg s)"])
    fix ev and t :: dashboard assume "config_in_bounds (db_cfg t)"
    with dash_apply_cfg[of ev t quote] show "config_in_bounds (db_cfg (dash_apply quote ev t))"
      by cases (simp_all add: config_in_bounds_def update_config_fields)
  qed (simp add: new_dashboard_def that)
  moreover have "cfg_within (\<exists>ev \<in> set evs. posts_to ''/api/config'' ev) (\<exists>ev \<in> set evs. posts_to ''/api/proxy'' ev) cfg (db_cfg s)"
    unfolding assms
  proof (rule dash_run_preserves[where P = "\<lambda>s. cfg_within (\<exists>ev \<in> set evs. posts_to ''/api/config'' ev) (\<exists>ev \<in> set evs. posts_to ''/api/proxy'' ev) cfg (db_cfg s)"])
    fix ev and t :: dashboard
    assume "ev \<in> set evs" "cfg_within (\<exists>ev \<in> set evs. posts_to ''/api/config'' ev) (\<exists>ev \<in> set evs. posts_to ''/api/proxy'' ev) cfg (db_cfg t)"
    then show "cfg_within (\<exists>ev \<in> set evs. posts_to ''/api/config'' ev) (\<exists>ev \<in> set evs. posts_to ''/api/proxy'' ev) cfg (db_cfg (dash_apply quote ev t))"
      by (intro cfg_within_step[OF dash_apply_cfg]) auto
  qed (simp add: new_dashboard_def cfg_within_def)
  ultimately show ?thesis using buffers unfolding cfg_within_def by blast
qed

theorem dashboard_invariant_witness:
  "let r = \<lparr>hq_method = ''POST'', hq_path = ''/api/config'', hq_flusher = True,
          hq_body = Inr \<lparr>cp_target_url = ''http://t'', cp_number_of_sessions = 2001, cp_max_retries = 7\<rparr>,
          hq_upload = \<lparr>up_form = None, up_file = Inl [], up_temp = Inl [], up_copy = Inl []\<rparr>, hq_writes = [], hq_now = 0,
          hq_alloc = 0, hq_goroutines = 1\<rparr>;
       s = dash_run id [Requested r, Ticked 1 0] (new_dashboard (new_metrics ZeroTime) default_config)
   in config_in_bounds (db_cfg s) \<and> cf_proxy_file (db_cfg s) = cf_proxy_file default_config
      \<and> cf_target_url (db_cfg s) = ''http://t''"
proof -
  let ?r = "\<lparr>hq_method = ''POST'', hq_path = ''/api/config'', hq_flusher = True,
          hq_body = Inr \<lparr>cp_target_url = ''http://t'', cp_number_of_sessions = 2001, cp_max_retries = 7\<rparr>,
          hq_upload = \<lparr>up_form = None, up_file = Inl [], up_temp = Inl [], up_copy = Inl []\<rparr>, hq_writes = [], hq_now = 0,
          hq_alloc = 0, hq_goroutines = 1\<rparr>" and ?d = "new_dashboard (new_metrics ZeroTime) default_config"
  let ?s = "dash_run id [Requested ?r, Ticked 1 0] ?d"
  have b: "config_in_bounds default_config" by (simp add: config_in_bounds_def default_config_def)
  have "cf_target_url (db_cfg ?s) = ''http://t''"
    by (simp add: dash_run_def serve_call_def registered_routes_def endpoint_handler_def with_cors_def handle_config_def
        update_config_fields Let_def)
  moreover have "cf_proxy_file (db_cfg ?s) = cf_proxy_file default_config" "config_in_bounds (db_cfg ?s)"
    using dashboard_invariant[of ?s id "[Requested ?r, Ticked 1 0]" "new_metrics ZeroTime" default_config 0, OF refl] b by auto
  ultimately show ?thesis by (simp add: Let_def)
qed

end
