(* ===== verification/Program.thy ===== *)
theory Program
  imports Startup Dashboard_Routes
begin

section \<open>main.go: the engine and the dashboard together\<close>

text \<open>
  The whole process from the start of the scheduler on: the engine of \<open>Engine\<close>, the dashboard server
  with whatever requests come in, the goroutine that ticks the metrics streams, the metrics monitor
  of \<open>main\<close>, and the signal. The counters and the configuration are shared by pointers; both components hold a
  copy here, and every step that writes one writes the other. \<open>Snapshot\<close> is three loads with the
  engine at work in between, so the ticker has a state for each of them.
\<close>

subsection \<open>State and steps\<close>

text \<open>The values the ticker has loaded so far, in the order \<open>snapshot\<close> loads them; and the monitor's.\<close>

datatype ticker =
    TickWait
  | TickTotal "64 word"
  | TickSuccess "64 word" "64 word"
  | TickFailed "64 word" "64 word" "64 word"
  | TickRated "64 word" "64 word" "64 word" int rat
  | TickSessions "64 word" "64 word" "64 word" int rat int
  | TickReady metrics_payload

datatype monitor = MonitorWait | MonitorCount int

text \<open>\<open>pr_history\<close> is history: the counters after each step of the engine, with the requests then in flight.\<close>

record ('u, 'h, 'j) program =
  pr_engine :: "('u, 'h, 'j) engine"
  pr_dash :: dashboard
  pr_ticker :: ticker
  pr_monitor :: monitor
  pr_signalled :: bool
  pr_history :: "(metrics \<times> nat) list"

definition requests_in_flight :: "('u, 'h, 'j) engine \<Rightarrow> nat" where
  "requests_in_flight e = count_if in_flight (en_workers e)"

definition program_new :: "('u, 'h, 'j) engine \<Rightarrow> config \<Rightarrow> ('u, 'h, 'j) program" where
  "program_new e cfg = \<lparr>pr_engine = e, pr_dash = new_dashboard (en_metrics e) cfg, pr_ticker = TickWait,
     pr_monitor = MonitorWait, pr_signalled = False, pr_history = [(en_metrics e, requests_in_flight e)]\<rparr>"

text \<open>What the dashboard's clients do; the rest of \<open>dash_event\<close> the process does itself.\<close>

fun client_event :: "dash_event \<Rightarrow> bool" where
  "client_event (Requested r) \<longleftrightarrow> True"
| "client_event (MetricsReceived ch) \<longleftrightarrow> True"
| "client_event (LogReceived ch) \<longleftrightarrow> True"
| "client_event (MetricsEnded ch) \<longleftrightarrow> True"
| "client_event (LogsEnded ch) \<longleftrightarrow> True"
| "client_event _ \<longleftrightarrow> False"

inductive program_step ::
  "(gostring \<Rightarrow> gostring) \<Rightarrow> bool \<Rightarrow> ('u, 'h, 'j) program \<Rightarrow> ('u, 'h, 'j) program \<Rightarrow> bool"
  for quote :: "gostring \<Rightarrow> gostring" and joined :: bool where
  engine_moves: "\<lbrakk>engine_step joined (pr_engine p) e; en_target_url e = en_target_url (pr_engine p);
     en_main e \<noteq> MainRunning \<longrightarrow> pr_signalled p\<rbrakk> \<Longrightarrow>
     program_step quote joined p
       (p\<lparr>pr_engine := e, pr_dash := (pr_dash p)\<lparr>db_metrics := en_metrics e\<rparr>,
          pr_history := pr_history p @ [(en_metrics e, requests_in_flight e)]\<rparr>)"
| client_acts: "\<lbrakk>client_event ev; d = dash_apply quote ev (pr_dash p)\<rbrakk> \<Longrightarrow>
     program_step quote joined p
       (p\<lparr>pr_dash := d, pr_engine := (pr_engine p)\<lparr>en_target_url := cf_target_url (db_cfg d)\<rparr>\<rparr>)"
| signal: "\<lbrakk>en_main (pr_engine p) = MainRunning; \<not> pr_signalled p\<rbrakk> \<Longrightarrow>
     program_step quote joined p
       (p\<lparr>pr_dash := add_log now ''INFO'' (''received signal '' @ sig @ ''; shutting down'') (pr_dash p),
          pr_signalled := True\<rparr>)"
| tick_total: "pr_ticker p = TickWait \<Longrightarrow>
     program_step quote joined p (p\<lparr>pr_ticker := TickTotal (mt_total (db_metrics (pr_dash p)))\<rparr>)"
| tick_success: "pr_ticker p = TickTotal t \<Longrightarrow>
     program_step quote joined p (p\<lparr>pr_ticker := TickSuccess t (mt_success (db_metrics (pr_dash p)))\<rparr>)"
| tick_failed: "pr_ticker p = TickSuccess t s \<Longrightarrow>
     program_step quote joined p (p\<lparr>pr_ticker := TickFailed t s (mt_failed (db_metrics (pr_dash p)))\<rparr>)"
| tick_rate: "pr_ticker p = TickFailed t s f \<Longrightarrow>
     program_step quote joined p
       (p\<lparr>pr_ticker := TickRated t s f now (requests_per_second elapsed (db_metrics (pr_dash p)))\<rparr>)"
| tick_sessions: "pr_ticker p = TickRated t s f now rps \<Longrightarrow>
     program_step quote joined p (p\<lparr>pr_ticker := TickSessions t s f now rps (db_active_sessions (pr_dash p))\<rparr>)"
| tick_jar: "pr_ticker p = TickSessions t s f now rps n \<Longrightarrow>
     program_step quote joined p
       (p\<lparr>pr_ticker := TickReady \<lparr>mp_timestamp = now, mp_total = t, mp_success = s, mp_failed = f, mp_rps = rps,
           mp_sessions = n, mp_cookie_jar_size = db_cookie_jar_size (pr_dash p)\<rparr>\<rparr>)"
| tick_push: "pr_ticker p = TickReady snap \<Longrightarrow>
     program_step quote joined p (p\<lparr>pr_ticker := TickWait, pr_dash := metrics_push snap (pr_dash p)\<rparr>)"
| monitor_count: "pr_monitor p = MonitorWait \<Longrightarrow>
     program_step quote joined p (p\<lparr>pr_monitor := MonitorCount (session_count (en_manager (pr_engine p)))\<rparr>)"
| monitor_show: "pr_monitor p = MonitorCount n \<Longrightarrow>
     program_step quote joined p (p\<lparr>pr_monitor := MonitorWait, pr_dash := set_active_sessions n (pr_dash p)\<rparr>)"

subsection \<open>The dashboard does not disturb the engine\<close>

text \<open>Whatever the rest of the process does, the engine makes steps of its own.\<close>

lemma program_engine_step:
  "program_step quote j p p' \<Longrightarrow> pr_engine p' = pr_engine p \<or> engine_step j (pr_engine p) (pr_engine p')"
proof (induction rule: program_step.induct)
  case (client_acts ev d p)
  then show ?case using set_target[of j "pr_engine p" "cf_target_url (db_cfg d)"] by simp
qed simp_all

interpretation program_engine: simulation "\<lambda>p. p = program_new e0 cfg" "program_step quote j" "\<lambda>p. True"
    "\<lambda>e. e = e0" "engine_step j" pr_engine for e0 cfg quote j
  by unfold_locales (simp_all add: program_new_def program_engine_step)

subsection \<open>What the clients leave alone\<close>

lemma add_log_other [simp]:
  "db_metrics (add_log now l m d) = db_metrics d" "db_active_sessions (add_log now l m d) = db_active_sessions d"
  "db_cookie_jar_size (add_log now l m d) = db_cookie_jar_size d" "db_metrics_chan (add_log now l m d) = db_metrics_chan d"
  by (simp_all add: add_log_def log_append_def log_fan_out_def Let_def)

definition client_frame :: "dashboard \<Rightarrow> dashboard \<Rightarrow> bool" where
  "client_frame d d' \<longleftrightarrow> db_metrics d' = db_metrics d \<and> db_active_sessions d' = db_active_sessions d
     \<and> db_cookie_jar_size d' = db_cookie_jar_size d \<and> (\<forall>ch. set (db_metrics_chan d' ch) \<subseteq> set (db_metrics_chan d ch))"

lemma client_frame_refl [simp]: "client_frame d d"
  by (simp add: client_frame_def)

lemma client_frame_streams:
  "client_frame d (snd (begin_metrics_stream flusher w d))" "client_frame d (snd (begin_logs_stream flusher errs w d))"
  "client_frame d (metrics_unsubscribe ch d)" "client_frame d (log_unsubscribe ch d)"
  "metrics_receive ch d = Some (snap, d1) \<Longrightarrow> client_frame d d1" "log_receive ch d = Some (entry, d1) \<Longrightarrow> client_frame d d1"
  by (auto simp: client_frame_def begin_metrics_stream_def begin_logs_stream_def metrics_subscribe_def log_subscribe_def
      metrics_unsubscribe_def log_unsubscribe_def metrics_receive_def log_receive_def split: prod.splits bool.splits list.splits if_splits)

lemma client_frame_handlers:
  "client_frame d (snd (handle_config quote now q body w d))" "client_frame d (snd (handle_proxy quote now q u w d))"
  by (simp_all add: client_frame_def handle_config_def handle_proxy_def Let_def split: sum.split option.split)

lemma client_frame_apply: "client_event ev \<Longrightarrow> client_frame d (dash_apply quote ev d)"
proof (cases ev)
  case (Requested r)
  show ?thesis
  proof (cases rule: serve_call_cases[of r quote new_writer d])
    case (routed ep)
    then show ?thesis
      by (cases ep) (simp_all add: Requested with_cors_def endpoint_handler_def handle_nodes_def client_frame_streams
          client_frame_handlers Let_def)
  qed (simp add: Requested)
qed (auto simp: client_frame_streams split: option.split)

text \<open>A target once set stays set: an empty one in a posted configuration is ignored.\<close>

lemma target_kept: "cf_target_url (db_cfg d) \<noteq> [] \<Longrightarrow> cf_target_url (db_cfg (dash_apply quote ev d)) \<noteq> []"
  using dash_apply_cfg[of ev d quote] by cases (auto simp: update_config_fields)


subsection \<open>What a snapshot shows\<close>

text \<open>
  Three counters loaded one after the other: each is that of one moment of the run, and the moments
  are in the order of the loads.
\<close>

definition totals_read :: "(metrics \<times> nat) list \<Rightarrow> 64 word \<Rightarrow> nat \<Rightarrow> bool" where
  "totals_read h t i \<longleftrightarrow> i < length h \<and> t = mt_total (fst (h ! i))"

definition successes_read :: "(metrics \<times> nat) list \<Rightarrow> 64 word \<Rightarrow> 64 word \<Rightarrow> nat \<Rightarrow> bool" where
  "successes_read h t s j \<longleftrightarrow> j < length h \<and> s = mt_success (fst (h ! j)) \<and> (\<exists>i \<le> j. totals_read h t i)"

definition counters_read :: "(metrics \<times> nat) list \<Rightarrow> 64 word \<Rightarrow> 64 word \<Rightarrow> 64 word \<Rightarrow> bool" where
  "counters_read h t s f \<longleftrightarrow> (\<exists>k < length h. f = mt_failed (fst (h ! k)) \<and> (\<exists>j \<le> k. successes_read h t s j))"

definition shown_ok :: "(metrics \<times> nat) list \<Rightarrow> int \<Rightarrow> metrics_payload \<Rightarrow> bool" where
  "shown_ok h n snap \<longleftrightarrow> counters_read h (mp_total snap) (mp_success snap) (mp_failed snap)
     \<and> mp_sessions snap \<in> {0, n} \<and> mp_cookie_jar_size snap = 0"

fun ticker_ok :: "(metrics \<times> nat) list \<Rightarrow> int \<Rightarrow> ticker \<Rightarrow> bool" where
  "ticker_ok h n TickWait \<longleftrightarrow> True"
| "ticker_ok h n (TickTotal t) \<longleftrightarrow> (\<exists>i. totals_read h t i)"
| "ticker_ok h n (TickSuccess t s) \<longleftrightarrow> (\<exists>j. successes_read h t s j)"
| "ticker_ok h n (TickFailed t s f) \<longleftrightarrow> counters_read h t s f"
| "ticker_ok h n (TickRated t s f now rps) \<longleftrightarrow> counters_read h t s f"
| "ticker_ok h n (TickSessions t s f now rps k) \<longleftrightarrow> counters_read h t s f \<and> k \<in> {0, n}"
| "ticker_ok h n (TickReady snap) \<longleftrightarrow> shown_ok h n snap"

lemma reads_append:
  "totals_read h t i \<Longrightarrow> totals_read (h @ [x]) t i"
  "successes_read h t s j \<Longrightarrow> successes_read (h @ [x]) t s j"
  "counters_read h t s f \<Longrightarrow> counters_read (h @ [x]) t s f"
proof -
  show t: "totals_read h t i \<Longrightarrow> totals_read (h @ [x]) t i" for i by (simp add: totals_read_def nth_append)
  show s: "successes_read h t s j \<Longrightarrow> successes_read (h @ [x]) t s j" for j
    using t by (auto simp: successes_read_def nth_append)
  assume "counters_read h t s f"
  then obtain k j where k: "k < length h" "f = mt_failed (fst (h ! k))" "j \<le> k" "successes_read h t s j"
    by (auto simp: counters_read_def)
  then have "f = mt_failed (fst ((h @ [x]) ! k))" by (simp add: nth_append)
  with k s[OF k(4)] show "counters_read (h @ [x]) t s f" unfolding counters_read_def by (metis less_SucI length_append_singleton)
qed

lemma shown_append: "shown_ok h n snap \<Longrightarrow> shown_ok (h @ [x]) n snap"
  by (simp add: shown_ok_def reads_append)

lemma ticker_append: "ticker_ok h n tk \<Longrightarrow> ticker_ok (h @ [x]) n tk"
  by (cases tk) (auto intro: reads_append shown_append)

text \<open>A load now reads the last entry of the history.\<close>

lemma reads_now:
  assumes "h \<noteq> []" "fst (last h) = m"
  shows "\<exists>i. totals_read h (mt_total m) i"
    and "\<exists>i. totals_read h t i \<Longrightarrow> \<exists>j. successes_read h t (mt_success m) j"
    and "\<exists>j. successes_read h t s j \<Longrightarrow> counters_read h t s (mt_failed m)"
proof -
  have last: "fst (h ! (length h - 1)) = m" "length h - 1 < length h" using assms by (simp_all add: last_conv_nth)
  show "\<exists>i. totals_read h (mt_total m) i" using last by (auto simp: totals_read_def intro!: exI[of _ "length h - 1"])
  show "\<exists>j. successes_read h t (mt_success m) j" if "\<exists>i. totals_read h t i"
  proof -
    from that obtain i where "totals_read h t i" "i \<le> length h - 1" by (auto simp: totals_read_def)
    then have "successes_read h t (mt_success m) (length h - 1)" using last by (auto simp: successes_read_def)
    then show ?thesis ..
  qed
  show "counters_read h t s (mt_failed m)" if "\<exists>j. successes_read h t s j"
  proof -
    from that obtain j where j: "successes_read h t s j" by blast
    then have "j \<le> length h - 1" by (auto simp: successes_read_def)
    then show ?thesis using last j unfolding counters_read_def by metis
  qed
qed

subsection \<open>The invariant of the process\<close>

definition counters_balance :: "metrics \<times> nat \<Rightarrow> bool" where
  "counters_balance x \<longleftrightarrow> mt_total (fst x) = mt_success (fst x) + mt_failed (fst x) + word_of_nat (snd x)"

definition shared_ok :: "('u, 'h, 'j) program \<Rightarrow> bool" where
  "shared_ok p \<longleftrightarrow> db_metrics (pr_dash p) = en_metrics (pr_engine p)
     \<and> en_target_url (pr_engine p) = cf_target_url (db_cfg (pr_dash p))
     \<and> pr_history p \<noteq> [] \<and> last (pr_history p) = (en_metrics (pr_engine p), requests_in_flight (pr_engine p))
     \<and> (\<forall>x \<in> set (pr_history p). counters_balance x)"

fun monitor_ok :: "int \<Rightarrow> monitor \<Rightarrow> bool" where
  "monitor_ok n MonitorWait \<longleftrightarrow> True"
| "monitor_ok n (MonitorCount k) \<longleftrightarrow> k \<in> {0, n}"

definition sessions_ok :: "int \<Rightarrow> ('u, 'h, 'j) program \<Rightarrow> bool" where
  "sessions_ok n p \<longleftrightarrow> session_count (en_manager (pr_engine p)) \<in> {0, n} \<and> monitor_ok n (pr_monitor p)
     \<and> db_active_sessions (pr_dash p) \<in> {0, n} \<and> db_cookie_jar_size (pr_dash p) = 0"

definition shows_ok :: "int \<Rightarrow> ('u, 'h, 'j) program \<Rightarrow> bool" where
  "shows_ok n p \<longleftrightarrow> ticker_ok (pr_history p) n (pr_ticker p)
     \<and> (\<forall>ch. \<forall>snap \<in> set (db_metrics_chan (pr_dash p) ch). shown_ok (pr_history p) n snap)"

definition program_inv :: "int \<Rightarrow> ('u, 'h, 'j) program \<Rightarrow> bool" where
  "program_inv n p \<longleftrightarrow> shared_ok p \<and> sessions_ok n p \<and> shows_ok n p"


lemma shared_step:
  assumes "program_step quote j p p'" "shared_ok p"
  shows "shared_ok p'"
  using assms
proof (induction rule: program_step.induct)
  case (engine_moves p e)
  then have "metrics_ok (pr_engine p)"
    using last_in_set[of "pr_history p"] by (auto simp: shared_ok_def counters_balance_def metrics_ok_def requests_in_flight_def)
  from metrics_step[OF engine_moves(1) this] engine_moves show ?case
    by (auto simp: shared_ok_def counters_balance_def metrics_ok_def requests_in_flight_def)
next
  case (client_acts ev d p)
  then show ?case using client_frame_apply[OF client_acts(1), of "pr_dash p" quote]
    by (simp add: shared_ok_def client_frame_def requests_in_flight_def)
qed (simp_all add: shared_ok_def metrics_push_def set_active_sessions_def)

lemma stop_all_empty: "enumerates (mg_sessions sm) order \<Longrightarrow> session_count (fst (stop_all order sm h)) = 0"
  by (simp add: stop_all_manager session_count_def enumerates_dom)

lemma engine_sessions: "engine_step j e e' \<Longrightarrow> session_count (en_manager e') \<in> {0, session_count (en_manager e)}"
proof (induction rule: engine_step.induct)
  case (sessions_stop e order sm h)
  then show ?case using stop_all_empty[of "en_manager e" order "en_heap e"] by simp
qed simp_all

lemma sessions_step:
  assumes "program_step quote j p p'" "sessions_ok n p"
  shows "sessions_ok n p'"
  using assms
proof (induction rule: program_step.induct)
  case (engine_moves p e)
  then show ?case using engine_sessions[OF engine_moves(1)] by (auto simp: sessions_ok_def)
next
  case (client_acts ev d p)
  then show ?case using client_frame_apply[OF client_acts(1), of "pr_dash p" quote]
    by (simp add: sessions_ok_def client_frame_def)
qed (simp_all add: sessions_ok_def metrics_push_def set_active_sessions_def)

lemma pushed: "snap \<in> set (try_send cap x buf) \<Longrightarrow> snap = x \<or> snap \<in> set buf"
  by (auto simp: try_send_def split: if_splits)

lemma shows_step:
  assumes "program_step quote j p p'" "shared_ok p" "sessions_ok n p" "shows_ok n p"
  shows "shows_ok n p'"
  using assms
proof (induction rule: program_step.induct)
  case (engine_moves p e)
  then show ?case by (auto simp: shows_ok_def intro: ticker_append shown_append)
next
  case (client_acts ev d p)
  then show ?case using client_frame_apply[OF client_acts(1), of "pr_dash p" quote]
    by (auto simp: shows_ok_def client_frame_def)
next
  case (tick_total p)
  then show ?case using reads_now(1)[of "pr_history p"] by (simp add: shows_ok_def shared_ok_def)
next
  case (tick_success p t)
  then show ?case using reads_now(2)[of "pr_history p"] by (simp add: shows_ok_def shared_ok_def)
next
  case (tick_failed p t s)
  then show ?case using reads_now(3)[of "pr_history p"] by (simp add: shows_ok_def shared_ok_def)
next
  case (tick_push p snap)
  then show ?case by (auto simp: shows_ok_def metrics_push_def dest!: pushed split: if_splits)
qed (auto simp: shows_ok_def sessions_ok_def shown_ok_def set_active_sessions_def)

definition program_initial ::
  "config \<Rightarrow> int \<Rightarrow> session_manager \<Rightarrow> ('u, 'h, 'j) session_heap \<Rightarrow> ('u, 'h, 'j) program \<Rightarrow> bool" where
  "program_initial cfg n sm h p \<longleftrightarrow>
     (\<exists>e. engine_initial n sm h e \<and> en_target_url e = cf_target_url cfg \<and> p = program_new e cfg)"

lemma program_inv_new: "program_initial cfg n sm h p \<Longrightarrow> program_inv (session_count sm) p"
proof -
  assume "program_initial cfg n sm h p"
  then obtain e where e: "engine_initial n sm h e" "en_target_url e = cf_target_url cfg" "p = program_new e cfg"
    by (auto simp: program_initial_def)
  have "metrics_ok e" using e(1) by (auto simp: engine_initial_def metrics_new)
  moreover have "en_manager e = sm" using e(1) by (auto simp: engine_initial_def engine_new_def Let_def split_def)
  moreover note e
  ultimately show ?thesis
    by (simp add: program_inv_def program_new_def new_dashboard_def shared_ok_def sessions_ok_def shows_ok_def
        counters_balance_def metrics_ok_def requests_in_flight_def)
qed

interpretation program_machine: invariant_machine "program_initial cfg n sm h" "program_step quote j"
    "program_inv (session_count sm)" for cfg n sm h quote j
proof unfold_locales
  fix p p' :: "('a, 'b, 'c) program"
  show "program_initial cfg n sm h p \<Longrightarrow> program_inv (session_count sm) p" by (rule program_inv_new)
  show "program_step quote j p p' \<Longrightarrow> program_inv (session_count sm) p \<Longrightarrow> program_inv (session_count sm) p'"
    unfolding program_inv_def using shared_step sessions_step shows_step by blast
qed

lemma target_stays:
  assumes "reach (\<lambda>p. p = program_new e cfg) (program_step quote j) p" "cf_target_url cfg \<noteq> []"
  shows "cf_target_url (db_cfg (pr_dash p)) \<noteq> []"
  using assms(1)
proof (induction rule: reach.induct)
  case (reach_step p p')
  from this(2,3) show ?case
    by (induction rule: program_step.induct) (simp_all add: target_kept metrics_push_def)
qed (simp add: program_new_def new_dashboard_def assms(2))

lemma balanced_history:
  assumes "reach (program_initial cfg n sm h) (program_step quote j) p"
  shows "\<forall>x \<in> set (pr_history p). mt_total (fst x) = mt_success (fst x) + mt_failed (fst x) + word_of_nat (snd x)"
  using program_machine.reach_inv[OF assms] by (simp add: program_inv_def shared_ok_def counters_balance_def)

text \<open>
  C15: What the dashboard shows. In every state the process can reach, whatever its clients request: every
  snapshot that waits in a metrics stream has three counters that the engine had, one after the
  other, at moments of the run in which total, successes, failures and requests in flight balanced;
  its number of sessions is the one the process started with, or zero (before the monitor's first
  tick, or after the sessions were closed); its cookie-jar size is always zero. The engine's target is that
  of the configuration, and once set it stays set.
\<close>

theorem dashboard_shows_engine:
  assumes "engine_initial n sm h e" "en_target_url e = cf_target_url cfg"
    and "reach (\<lambda>p. p = program_new e cfg) (program_step quote j) p"
    and "snap \<in> set (db_metrics_chan (pr_dash p) ch)"
  shows "(\<exists>i1 i2 i3. i1 \<le> i2 \<and> i2 \<le> i3 \<and> i3 < length (pr_history p)
        \<and> mp_total snap = mt_total (fst (pr_history p ! i1)) \<and> mp_success snap = mt_success (fst (pr_history p ! i2))
        \<and> mp_failed snap = mt_failed (fst (pr_history p ! i3)))
    \<and> (\<forall>x \<in> set (pr_history p). mt_total (fst x) = mt_success (fst x) + mt_failed (fst x) + word_of_nat (snd x))
    \<and> mp_sessions snap \<in> {0, session_count sm} \<and> mp_cookie_jar_size snap = 0
    \<and> en_target_url (pr_engine p) = cf_target_url (db_cfg (pr_dash p))
    \<and> (cf_target_url cfg \<noteq> [] \<longrightarrow> en_target_url (pr_engine p) \<noteq> [])"
proof -
  have r: "reach (program_initial cfg n sm h) (program_step quote j) p"
    using assms(3) by (rule reach_from_initial) (use assms(1,2) in \<open>auto simp: program_initial_def\<close>)
  have inv: "shared_ok p" "shown_ok (pr_history p) (session_count sm) snap"
    using program_machine.reach_inv[OF r] assms(4) by (auto simp: program_inv_def shows_ok_def)
  from inv(2) have "\<exists>i1 i2 i3. i1 \<le> i2 \<and> i2 \<le> i3 \<and> i3 < length (pr_history p)
        \<and> mp_total snap = mt_total (fst (pr_history p ! i1)) \<and> mp_success snap = mt_success (fst (pr_history p ! i2))
        \<and> mp_failed snap = mt_failed (fst (pr_history p ! i3))"
    unfolding shown_ok_def counters_read_def successes_read_def totals_read_def by blast
  moreover have "mp_sessions snap \<in> {0, session_count sm} \<and> mp_cookie_jar_size snap = 0"
    using inv(2) by (simp add: shown_ok_def)
  moreover have "en_target_url (pr_engine p) = cf_target_url (db_cfg (pr_dash p))" using inv(1) by (simp add: shared_ok_def)
  ultimately show ?thesis using balanced_history[OF r] target_stays[OF assms(3)] by simp
qed


subsection \<open>A run with one request\<close>

text \<open>The engine runs on by itself, without a signal.\<close>

definition quiet_step :: "bool \<Rightarrow> ('u, 'h, 'j) engine \<Rightarrow> ('u, 'h, 'j) engine \<Rightarrow> bool" where
  "quiet_step j e e' \<longleftrightarrow> engine_step j e e' \<and> en_target_url e' = en_target_url e \<and> en_main e' = MainRunning"

lemma quiet_steps:
  assumes "(quiet_step j)\<^sup>*\<^sup>* e e'" "reach i (program_step quote j) p" "pr_engine p = e" "db_metrics (pr_dash p) = en_metrics e"
  shows "\<exists>p'. reach i (program_step quote j) p' \<and> pr_engine p' = e' \<and> pr_ticker p' = pr_ticker p
    \<and> pr_dash p' = (pr_dash p)\<lparr>db_metrics := en_metrics e'\<rparr>"
  using assms(1)
proof (induction rule: rtranclp_induct)
  case base
  with assms(2-4) show ?case by (intro exI[of _ p]) (simp flip: assms(4))
next
  case (step e1 e2)
  then obtain p1 where p1: "reach i (program_step quote j) p1" "pr_engine p1 = e1" "pr_ticker p1 = pr_ticker p"
    "pr_dash p1 = (pr_dash p)\<lparr>db_metrics := en_metrics e1\<rparr>" by blast
  from step(2) have "engine_step j (pr_engine p1) e2" "en_target_url e2 = en_target_url (pr_engine p1)" "en_main e2 = MainRunning"
    by (simp_all add: quiet_step_def p1(2))
  from reach_step[OF p1(1) engine_moves[OF this(1,2)]] this(3) show ?case
    by (force simp: p1(3,4))
qed

text \<open>Once the signal has come, the engine may also shut down by itself.\<close>

definition own_step :: "bool \<Rightarrow> ('u, 'h, 'j) engine \<Rightarrow> ('u, 'h, 'j) engine \<Rightarrow> bool" where
  "own_step j e e' \<longleftrightarrow> engine_step j e e' \<and> en_target_url e' = en_target_url e"

lemma own_steps:
  assumes "(own_step j)\<^sup>*\<^sup>* (pr_engine p) e" "reach i (program_step quote j) p" "pr_signalled p"
  shows "\<exists>p'. reach i (program_step quote j) p' \<and> pr_engine p' = e \<and> pr_signalled p'"
  using assms(1)
proof (induction rule: rtranclp_induct)
  case base
  with assms(2,3) show ?case by blast
next
  case (step e1 e2)
  then obtain p1 where p1: "reach i (program_step quote j) p1" "pr_engine p1 = e1" "pr_signalled p1" by blast
  from step(2) have "engine_step j (pr_engine p1) e2" "en_target_url e2 = en_target_url (pr_engine p1)"
    by (simp_all add: own_step_def p1(2))
  from reach_step[OF p1(1) engine_moves[OF this]] p1(3) show ?case by force
qed

text \<open>The ticker goes on from its first load to the push, with nothing else happening.\<close>

lemma ticker_goes_on:
  assumes "reach i (program_step quote j) p" "pr_ticker p = TickTotal t"
  shows "\<exists>p'. reach i (program_step quote j) p' \<and> pr_dash p' = metrics_push \<lparr>mp_timestamp = now, mp_total = t,
      mp_success = mt_success (db_metrics (pr_dash p)), mp_failed = mt_failed (db_metrics (pr_dash p)),
      mp_rps = requests_per_second elapsed (db_metrics (pr_dash p)), mp_sessions = db_active_sessions (pr_dash p),
      mp_cookie_jar_size = db_cookie_jar_size (pr_dash p)\<rparr> (pr_dash p)"
proof -
  let ?d = "pr_dash p"
  let ?s = "mt_success (db_metrics ?d)" and ?f = "mt_failed (db_metrics ?d)" and ?r = "requests_per_second elapsed (db_metrics ?d)"
  let ?I = "reach i (program_step quote j)"
  have "?I (p\<lparr>pr_ticker := TickSuccess t ?s\<rparr>)" by (rule reach_step[OF assms(1) tick_success[OF assms(2)]])
  then have "?I (p\<lparr>pr_ticker := TickFailed t ?s ?f\<rparr>)" using tick_failed[of "p\<lparr>pr_ticker := TickSuccess t ?s\<rparr>"] by (auto dest: reach_step)
  then have "?I (p\<lparr>pr_ticker := TickRated t ?s ?f now ?r\<rparr>)" 
    using tick_rate[of "p\<lparr>pr_ticker := TickFailed t ?s ?f\<rparr>" t ?s ?f quote j now elapsed] by (auto dest: reach_step)
  then have "?I (p\<lparr>pr_ticker := TickSessions t ?s ?f now ?r (db_active_sessions ?d)\<rparr>)"
    using tick_sessions[of "p\<lparr>pr_ticker := TickRated t ?s ?f now ?r\<rparr>"] by (auto dest: reach_step)
  from reach_step[OF this tick_jar] have ready: "?I (p\<lparr>pr_ticker := TickReady \<lparr>mp_timestamp = now, mp_total = t, mp_success = ?s,
      mp_failed = ?f, mp_rps = ?r, mp_sessions = db_active_sessions ?d, mp_cookie_jar_size = db_cookie_jar_size ?d\<rparr>\<rparr>)" by simp
  from reach_step[OF ready tick_push] show ?thesis by (intro exI conjI) (assumption | simp)+
qed

text \<open>A client opens a metrics stream.\<close>

definition stream_call :: http_call where
  "stream_call = \<lparr>hq_method = ''GET'', hq_path = ''/api/metrics/stream'', hq_flusher = True, hq_body = Inl [],
     hq_upload = \<lparr>up_form = None, up_file = Inl [], up_temp = Inl [], up_copy = Inl []\<rparr>, hq_writes = [], hq_now = 0,
     hq_alloc = 0, hq_goroutines = 1\<rparr>"

lemma stream_opened:
  "snd (serve_call quote stream_call new_writer (new_dashboard m cfg)) =
     (new_dashboard m cfg)\<lparr>db_metrics_subs := {0}, db_next := 1\<rparr>"
  by (simp add: stream_call_def serve_call_def registered_routes_def with_cors_def endpoint_handler_def begin_metrics_stream_def
      open_stream_def metrics_subscribe_def new_dashboard_def fun_upd_idem Let_def)

lemma one_request:
  "\<exists>e. (quiet_step j)\<^sup>*\<^sup>* (engine_at [] False 1 {#Idle#} SchedSelect False MainRunning one_session sample_heap (counts 0 0) [] [] {#}) e
    \<and> en_metrics e = counts 1 1"
proof -
  let ?at = "\<lambda>q W sc mt sent taken. engine_at q False 1 W sc False MainRunning one_session sample_heap mt sent taken {#}"
  let ?e = "engine_at [] False 1 {#Idle#} (SchedNext 1 1) False MainRunning one_session
      (request_done (Some 200) (At 2 0) 0 sample_heap) (counts 1 1) [0] [0] {#0#}"
  have "quiet_step j (?at [] {#Idle#} SchedSelect (counts 0 0) [] []) (?at [] {#Idle#} (SchedNext 0 1) (counts 0 0) [] [])"
    using select_default[of "?at [] {#Idle#} SchedSelect (counts 0 0) [] []" j]
    by (simp add: quiet_step_def engine_at_def session_count_one)
  moreover have "quiet_step j (?at [] {#Idle#} (SchedNext 0 1) (counts 0 0) [] []) (?at [] {#Idle#} (SchedSubmit 0 1 0) (counts 0 0) [] [])"
    using take_session[of "?at [] {#Idle#} (SchedNext 0 1) (counts 0 0) [] []" 0 1 0 j]
    by (simp add: quiet_step_def engine_at_def get_session_def one_session_def)
  moreover have "quiet_step j (?at [] {#Idle#} (SchedSubmit 0 1 0) (counts 0 0) [] []) (?at [0] {#Idle#} (SchedNext 1 1) (counts 0 0) [0] [])"
    using submit_job[of "?at [] {#Idle#} (SchedSubmit 0 1 0) (counts 0 0) [] []" 0 1 0 _ j]
    by (simp add: quiet_step_def engine_at_def submit_def pool_capacity_def)
  moreover have "quiet_step j (?at [0] {#Idle#} (SchedNext 1 1) (counts 0 0) [0] []) (?at [] {#engine_worker.Started 0#} (SchedNext 1 1) (counts 0 0) [0] [0])"
    using take_job[of "?at [0] {#Idle#} (SchedNext 1 1) (counts 0 0) [0] []" "{#}" 0 _ j]
    by (simp add: quiet_step_def engine_at_def next_job_def)
  moreover have "quiet_step j (?at [] {#engine_worker.Started 0#} (SchedNext 1 1) (counts 0 0) [0] [0]) (?at [] {#InFlight 0#} (SchedNext 1 1) (counts 1 0) [0] [0])"
    using begin_request[of "?at [] {#engine_worker.Started 0#} (SchedNext 1 1) (counts 0 0) [0] [0]" 0 "{#}" j]
    by (simp add: quiet_step_def engine_at_def counts_def increment_total_def)
  moreover have "quiet_step j (?at [] {#InFlight 0#} (SchedNext 1 1) (counts 1 0) [0] [0]) ?e"
    using end_request[of "?at [] {#InFlight 0#} (SchedNext 1 1) (counts 1 0) [0] [0]" 0 "{#}" j "Some 200" "At 2 0"]
    by (simp add: quiet_step_def engine_at_def counts_def job_outcome_def increment_success_def)
  ultimately have "(quiet_step j)\<^sup>*\<^sup>* (?at [] {#Idle#} SchedSelect (counts 0 0) [] []) ?e"
    by (meson converse_rtranclp_into_rtranclp rtranclp.rtrancl_refl)
  then show ?thesis by (intro exI[of _ ?e]) (simp add: engine_at_def)
qed


definition target_config :: config where
  "target_config = default_config\<lparr>cf_target_url := ''http://t/''\<rparr>"

definition sample_engine :: "(gostring, unit, unit) engine" where
  "sample_engine = engine_at [] False 1 {#Idle#} SchedSelect False MainRunning one_session sample_heap (counts 0 0) [] [] {#}"

lemma sample_engine_initial:
  "engine_initial 1 one_session sample_heap sample_engine" "en_target_url sample_engine = cf_target_url target_config"
  by (auto simp: engine_initial_def engine_new_def engine_at_def counts_def new_metrics_def sample_engine_def target_config_def
      pool_start_def start_loop_result new_worker_pool_def intro!: exI[of _ "''http://t/''"] exI[of _ "At 1 0"])

lemma push_opened: "db_metrics_subs d = {0} \<Longrightarrow> db_metrics_chan d 0 = [] \<Longrightarrow> db_metrics_chan (metrics_push snap d) 0 = [snap]"
  by (simp add: metrics_push_def try_send_def metrics_buffer_def)

lemma opened_ticking:
  "\<exists>p. reach (\<lambda>p. p = program_new sample_engine target_config) (program_step quote j) p \<and> pr_engine p = sample_engine
    \<and> pr_ticker p = TickTotal 0 \<and> db_metrics_subs (pr_dash p) = {0} \<and> db_metrics_chan (pr_dash p) 0 = []
    \<and> db_metrics (pr_dash p) = counts 0 0 \<and> db_active_sessions (pr_dash p) = 0 \<and> db_cookie_jar_size (pr_dash p) = 0"
proof -
  let ?p = "program_new sample_engine target_config"
  let ?I = "reach (\<lambda>p. p = ?p) (program_step quote j)"
  let ?d = "(new_dashboard (counts 0 0) target_config)\<lparr>db_metrics_subs := {0}, db_next := 1\<rparr>"
  have m: "en_metrics sample_engine = counts 0 0" by (simp add: sample_engine_def engine_at_def)
  have "?I ?p" by (rule reach_initial) simp
  moreover have "program_step quote j ?p (?p\<lparr>pr_dash := ?d\<rparr>)"
  proof -
    have d: "?d = dash_apply quote (Requested stream_call) (pr_dash ?p)" by (simp add: program_new_def stream_opened m)
    have "?p\<lparr>pr_dash := ?d, pr_engine := (pr_engine ?p)\<lparr>en_target_url := cf_target_url (db_cfg ?d)\<rparr>\<rparr> = ?p\<lparr>pr_dash := ?d\<rparr>"
      by (simp add: program_new_def sample_engine_def engine_at_def target_config_def new_dashboard_def)
    with client_acts[OF _ d, of j] show ?thesis by simp
  qed
  ultimately have "?I (?p\<lparr>pr_dash := ?d\<rparr>)" by (rule reach_step)
  moreover have "program_step quote j (?p\<lparr>pr_dash := ?d\<rparr>) (?p\<lparr>pr_dash := ?d, pr_ticker := TickTotal 0\<rparr>)"
    using tick_total[of "?p\<lparr>pr_dash := ?d\<rparr>" quote j] by (simp add: program_new_def new_dashboard_def counts_def)
  ultimately have "?I (?p\<lparr>pr_dash := ?d, pr_ticker := TickTotal 0\<rparr>)" by (rule reach_step)
  then show ?thesis by (intro exI conjI) (assumption | simp add: new_dashboard_def program_new_def)+
qed

text \<open>
  The three loads are not one: a request that ends between them makes a stream show a success
  more than there were requests.
\<close>

theorem torn_snapshot:
  "\<exists>p snap. reach (\<lambda>p. p = program_new sample_engine target_config) (program_step quote True) p
     \<and> snap \<in> set (db_metrics_chan (pr_dash p) 0) \<and> mp_total snap < mp_success snap + mp_failed snap"
proof -
  obtain p where p: "reach (\<lambda>p. p = program_new sample_engine target_config) (program_step quote True) p"
    "pr_engine p = sample_engine" "pr_ticker p = TickTotal 0" "db_metrics_subs (pr_dash p) = {0}"
    "db_metrics_chan (pr_dash p) 0 = []" "db_metrics (pr_dash p) = counts 0 0"
    using opened_ticking by blast
  obtain e where e: "(quiet_step True)\<^sup>*\<^sup>* sample_engine e" "en_metrics e = counts 1 1"
    using one_request by (auto simp: sample_engine_def)
  have "db_metrics (pr_dash p) = en_metrics sample_engine" by (simp add: p(6) sample_engine_def engine_at_def)
  from quiet_steps[OF e(1) p(1,2) this] obtain p1 where p1:
    "reach (\<lambda>p. p = program_new sample_engine target_config) (program_step quote True) p1" "pr_ticker p1 = TickTotal 0"
    "pr_dash p1 = (pr_dash p)\<lparr>db_metrics := counts 1 1\<rparr>"
    using p(3) e(2) by auto
  from ticker_goes_on[OF p1(1,2)] obtain p2 snap where p2:
    "reach (\<lambda>p. p = program_new sample_engine target_config) (program_step quote True) p2"
    "pr_dash p2 = metrics_push snap (pr_dash p1)" "mp_total snap = 0" "mp_success snap = 1" "mp_failed snap = 0"
    by (force simp: p1(3) counts_def)
  have "snap \<in> set (db_metrics_chan (pr_dash p2) 0)" using p(4,5) by (simp add: p2(2) p1(3) push_opened)
  with p2 show ?thesis by (intro exI conjI) (assumption | simp)+
qed

theorem dashboard_shows_engine_witness:
  "\<exists>p snap. reach (\<lambda>p. p = program_new sample_engine target_config) (program_step id True) p
     \<and> snap \<in> set (db_metrics_chan (pr_dash p) 0) \<and> mp_sessions snap \<in> {0, 1} \<and> mp_cookie_jar_size snap = 0
     \<and> en_target_url (pr_engine p) \<noteq> []"
proof -
  obtain p snap where p: "reach (\<lambda>p. p = program_new sample_engine target_config) (program_step id True) p"
    "snap \<in> set (db_metrics_chan (pr_dash p) 0)"
    using torn_snapshot by blast
  have "cf_target_url target_config \<noteq> []" by (simp add: target_config_def)
  with dashboard_shows_engine[OF sample_engine_initial p] p show ?thesis by (auto simp: session_count_one)
qed

end
