(* ===== verification/Json_Struct.thy ===== *)
theory Json_Struct
  imports Json_Encode
begin

section \<open>encoding/json: decoding into structs\<close>

text \<open>
  \<open>Decoder.Decode\<close> into a struct whose fields are integers and strings, as \<open>LoadConfig\<close> and the
  configuration endpoint use it. The text is scanned first, with numbers kept as they are written,
  for the decoder must tell an integer from another number; decoding into an interface value
  (\<open>Json\<close>) is shown to be the same scan with the numbers rounded. What follows the value in the
  stream is not looked at.
\<close>

subsection \<open>Scanning\<close>

text \<open>A number: its sign, its digits before and behind the point, its exponent if it has one.\<close>

datatype raw =
    RNull
  | RBool bool
  | RNum bool gostring gostring "int option"
  | RStr gostring
  | RArr "raw list"
  | RObj "(gostring \<times> raw) list"

definition has_exponent :: "gostring \<Rightarrow> bool" where
  "has_exponent s = (case s of c # r \<Rightarrow> c = CHR ''e'' \<or> c = CHR ''E'' | [] \<Rightarrow> False)"

definition scan_number :: "gostring \<Rightarrow> (raw \<times> gostring) option" where
  "scan_number s =
     (let (neg, s1) = (case s of c # r \<Rightarrow> if c = CHR ''-'' then (True, r) else (False, s) | [] \<Rightarrow> (False, s))
      in case parse_int_part s1 of
           None \<Rightarrow> None
         | Some (ip, s2) \<Rightarrow>
             (case parse_fraction s2 of
                None \<Rightarrow> None
              | Some (fp, s3) \<Rightarrow>
                  (case parse_exponent s3 of
                     None \<Rightarrow> None
                   | Some (e, s4) \<Rightarrow> Some (RNum neg ip fp (if has_exponent s3 then Some e else None), s4))))"

fun scan_value :: "nat \<Rightarrow> nat \<Rightarrow> gostring \<Rightarrow> (raw \<times> gostring) option"
  and scan_elements :: "nat \<Rightarrow> nat \<Rightarrow> gostring \<Rightarrow> (raw list \<times> gostring) option"
  and scan_members :: "nat \<Rightarrow> nat \<Rightarrow> gostring \<Rightarrow> ((gostring \<times> raw) list \<times> gostring) option" where
  "scan_value 0 d s = None"
| "scan_value (Suc f) d s =
     (case skip_space s of
        [] \<Rightarrow> None
      | c # rest \<Rightarrow>
          if c = CHR ''{'' then
            (if d = 0 then None
             else
               (case skip_space rest of
                  [] \<Rightarrow> None
                | c1 # rest1 \<Rightarrow>
                    if c1 = CHR ''}'' then Some (RObj [], rest1)
                    else map_option (\<lambda>(ms, s'). (RObj ms, s')) (scan_members f (d - 1) rest)))
          else if c = CHR ''['' then
            (if d = 0 then None
             else
               (case skip_space rest of
                  [] \<Rightarrow> None
                | c1 # rest1 \<Rightarrow>
                    if c1 = CHR '']'' then Some (RArr [], rest1)
                    else map_option (\<lambda>(es, s'). (RArr es, s')) (scan_elements f (d - 1) rest)))
          else if c = CHR 0x22 then
            map_option (\<lambda>(t, s'). (RStr t, s')) (parse_string (Suc (length rest)) rest)
          else if c = CHR ''t'' then map_option (Pair (RBool True)) (literal ''true'' (c # rest))
          else if c = CHR ''f'' then map_option (Pair (RBool False)) (literal ''false'' (c # rest))
          else if c = CHR ''n'' then map_option (Pair RNull) (literal ''null'' (c # rest))
          else scan_number (c # rest))"
| "scan_elements 0 d s = None"
| "scan_elements (Suc f) d s =
     (case scan_value f d s of
        None \<Rightarrow> None
      | Some (v, s1) \<Rightarrow>
          (case skip_space s1 of
             [] \<Rightarrow> None
           | c # rest \<Rightarrow>
               if c = CHR '']'' then Some ([v], rest)
               else if c = CHR '','' then map_option (\<lambda>(vs, s'). (v # vs, s')) (scan_elements f d rest)
               else None))"
| "scan_members 0 d s = None"
| "scan_members (Suc f) d s =
     (case skip_space s of
        [] \<Rightarrow> None
      | q # rest \<Rightarrow>
          if q \<noteq> CHR 0x22 then None
          else
            (case parse_string (Suc (length rest)) rest of
               None \<Rightarrow> None
             | Some (k, s1) \<Rightarrow>
                 (case skip_space s1 of
                    [] \<Rightarrow> None
                  | c # rest1 \<Rightarrow>
                      if c \<noteq> CHR '':'' then None
                      else
                        (case scan_value f d rest1 of
                           None \<Rightarrow> None
                         | Some (v, s2) \<Rightarrow>
                             (case skip_space s2 of
                                [] \<Rightarrow> None
                              | e # rest2 \<Rightarrow>
                                  if e = CHR ''}'' then Some ([(k, v)], rest2)
                                  else if e = CHR '','' then map_option (\<lambda>(ms, s'). ((k, v) # ms, s')) (scan_members f d rest2)
                                  else None)))))"

declare scan_value.simps(2) [simp del] scan_elements.simps(2) [simp del] scan_members.simps(2) [simp del]

definition scan_json :: "gostring \<Rightarrow> raw option" where
  "scan_json data = map_option fst (scan_value (2 * length data + 2) max_nesting data)"

subsection \<open>Decoding into an interface value is scanning and rounding\<close>

definition number_value :: "bool \<Rightarrow> gostring \<Rightarrow> gostring \<Rightarrow> int option \<Rightarrow> rat option" where
  "number_value neg ip fp e =
     (let m = digits_value 0 (ip @ fp) in
      float64_of (scale10 (if neg then - m else m) ((case e of None \<Rightarrow> 0 | Some x \<Rightarrow> x) - int (length fp))))"

fun convert :: "raw \<Rightarrow> json option"
  and convert_list :: "raw list \<Rightarrow> json list option"
  and convert_members :: "(gostring \<times> raw) list \<Rightarrow> (gostring \<times> json) list \<Rightarrow> (gostring \<times> json) list option" where
  "convert RNull = Some JNull"
| "convert (RBool b) = Some (JBool b)"
| "convert (RNum neg ip fp e) = map_option JNum (number_value neg ip fp e)"
| "convert (RStr t) = Some (JStr t)"
| "convert (RArr rs) = map_option JArr (convert_list rs)"
| "convert (RObj ms) = map_option JObj (convert_members ms [])"
| "convert_list [] = Some []"
| "convert_list (r # rs) = (case convert r of None \<Rightarrow> None | Some v \<Rightarrow> map_option (Cons v) (convert_list rs))"
| "convert_members [] ms = Some ms"
| "convert_members ((k, r) # rs) ms = (case convert r of None \<Rightarrow> None | Some v \<Rightarrow> convert_members rs (put_member k v ms))"

lemma no_exponent: "\<not> has_exponent s \<Longrightarrow> parse_exponent s = Some (0, s)"
  by (auto simp: parse_exponent_def has_exponent_def split: list.splits)

lemma scan_number_converts:
  "parse_number s = (case scan_number s of None \<Rightarrow> None | Some (r, s') \<Rightarrow> (case convert r of Some (JNum x) \<Rightarrow> Some (x, s') | _ \<Rightarrow> None))"
  by (auto simp: parse_number_def scan_number_def number_value_def Let_def no_exponent split: option.split prod.split list.split)

lemma scan_number_num: "scan_number s = Some (r, s') \<Longrightarrow> \<exists>neg ip fp e. r = RNum neg ip fp e"
  by (auto simp: scan_number_def Let_def split: option.splits prod.splits)

lemma scan_number_value:
  "map_option (\<lambda>(x, s'). (JNum x, s')) (parse_number s) =
     (case scan_number s of None \<Rightarrow> None | Some (r, s') \<Rightarrow> map_option (\<lambda>v. (v, s')) (convert r))"
  unfolding scan_number_converts[of s]
  by (auto split: option.split dest!: scan_number_num)

lemma scan_converts:
  "parse_value f d s = (case scan_value f d s of None \<Rightarrow> None | Some (r, s') \<Rightarrow> map_option (\<lambda>v. (v, s')) (convert r))"
  "parse_elements f d s = (case scan_elements f d s of None \<Rightarrow> None | Some (rs, s') \<Rightarrow> map_option (\<lambda>vs. (vs, s')) (convert_list rs))"
  "parse_members f d ms s = (case scan_members f d s of None \<Rightarrow> None | Some (rs, s') \<Rightarrow> map_option (\<lambda>ms'. (ms', s')) (convert_members rs ms))"
proof (induction f d s and f d s and f d ms s rule: parse_value_parse_elements_parse_members.induct)
  case (2 f d s)
  show ?case
  proof (cases "skip_space s")
    case (Cons c rest)
    note IH = "2.IH"[OF Cons]
    show ?thesis
    proof (cases "c = CHR ''{''")
      case True
      show ?thesis
      proof (cases "skip_space rest")
        case next_byte: (Cons c1 rest1)
        show ?thesis
          using IH(1)[OF True _ next_byte] by (cases "d = 0 \<or> c1 = CHR ''}''")
            (auto simp: parse_value.simps(2) scan_value.simps(2) Cons True next_byte option.map_comp comp_def split: option.split)
      qed (simp add: parse_value.simps(2) scan_value.simps(2) Cons True)
    next
      case False
      show ?thesis
      proof (cases "c = CHR ''[''")
        case True
        show ?thesis
        proof (cases "skip_space rest")
          case next_byte: (Cons c1 rest1)
          show ?thesis
            using IH(2)[OF False True _ next_byte] by (cases "d = 0 \<or> c1 = CHR '']''")
              (auto simp: parse_value.simps(2) scan_value.simps(2) Cons True next_byte option.map_comp comp_def split: option.split)
        qed (simp add: parse_value.simps(2) scan_value.simps(2) Cons True)
      next
        case inner: False
        show ?thesis
          by (simp add: parse_value.simps(2) scan_value.simps(2) Cons False inner scan_number_value split: option.split)
      qed
    qed
  qed (simp add: parse_value.simps(2) scan_value.simps(2))
next
  case (4 f d s)
  show ?case
  proof (cases "scan_value f d s")
    case None
    then show ?thesis by (simp add: parse_elements.simps(2) scan_elements.simps(2) "4.IH"(1))
  next
    case (Some p)
    obtain r s1 where p: "p = (r, s1)" by (cases p)
    show ?thesis
    proof (cases "convert r")
      case None
      then show ?thesis
        by (auto simp: parse_elements.simps(2) scan_elements.simps(2) "4.IH"(1) Some p split: list.split option.split)
    next
      case v: (Some v)
      have val: "parse_value f d s = Some (v, s1)" by (simp add: "4.IH"(1) Some p v)
      have rest: "parse_elements f d rest = (case scan_elements f d rest of None \<Rightarrow> None
          | Some (rs, s') \<Rightarrow> map_option (\<lambda>vs. (vs, s')) (convert_list rs))" if "skip_space s1 = CHR '','' # rest" for rest
        using "4.IH"(2)[OF val refl that] by simp
      show ?thesis
        by (auto simp: parse_elements.simps(2) scan_elements.simps(2) val Some p v rest option.map_comp comp_def split: list.split option.split)
    qed
  qed
next
  case (6 f d ms s)
  show ?case
  proof (cases "\<exists>rest k s1 rest1. skip_space s = CHR 0x22 # rest \<and> parse_string (Suc (length rest)) rest = Some (k, s1)
      \<and> skip_space s1 = CHR '':'' # rest1")
    case False
    then show ?thesis
      by (auto simp: parse_members.simps(2) scan_members.simps(2) split: list.split option.split)
  next
    case True
    then obtain rest k s1 rest1 where q: "skip_space s = CHR 0x22 # rest" "parse_string (Suc (length rest)) rest = Some (k, s1)"
      "skip_space s1 = CHR '':'' # rest1" by blast
    note IH = "6.IH"[OF q(1) _ q(2) refl q(3)]
    have val: "parse_value f d rest1 = (case scan_value f d rest1 of None \<Rightarrow> None | Some (r, s') \<Rightarrow> map_option (\<lambda>v. (v, s')) (convert r))"
      using IH(1) by simp
    show ?thesis
    proof (cases "scan_value f d rest1")
      case None
      then show ?thesis by (simp add: parse_members.simps(2) scan_members.simps(2) q val)
    next
      case (Some p)
      obtain r s2 where p: "p = (r, s2)" by (cases p)
      show ?thesis
      proof (cases "convert r")
        case None
        then show ?thesis
          by (auto simp: parse_members.simps(2) scan_members.simps(2) q val Some p split: list.split option.split)
      next
        case v: (Some v)
        have val: "parse_value f d rest1 = Some (v, s2)" by (simp add: val Some p v)
        have rest: "parse_members f d (put_member k v ms) rest2 = (case scan_members f d rest2 of None \<Rightarrow> None
            | Some (rs, s') \<Rightarrow> map_option (\<lambda>ms'. (ms', s')) (convert_members rs (put_member k v ms)))"
          if "skip_space s2 = CHR '','' # rest2" for rest2
          using IH(2)[OF _ _ val refl that] by simp
        show ?thesis
          by (auto simp: parse_members.simps(2) scan_members.simps(2) q val Some p v rest option.map_comp comp_def split: list.split option.split)
      qed
    qed
  qed
qed (simp_all add: parse_value.simps(1) parse_elements.simps(1) parse_members.simps(1))

text \<open>
  The decoder for interface values accepts what the scanner does and whose numbers are in range, and
  returns the scanned value with its numbers rounded.
\<close>

theorem unmarshal_scans:
  "unmarshal data =
     (case scan_value (2 * length data + 2) max_nesting data of
        None \<Rightarrow> Inl ''invalid JSON''
      | Some (r, rest) \<Rightarrow>
          (case convert r of
             None \<Rightarrow> Inl ''invalid JSON''
           | Some v \<Rightarrow> if skip_space rest = [] then Inr v else Inl ''invalid character after top-level value''))"
  by (auto simp: unmarshal_def scan_converts(1) split: option.split)

subsection \<open>Integers and field names\<close>

text \<open>\<open>strconv.ParseInt\<close> on a number as JSON writes it: no point, no exponent, within 64 bits.\<close>

definition parse_int64 :: "bool \<Rightarrow> gostring \<Rightarrow> gostring \<Rightarrow> int option \<Rightarrow> int option" where
  "parse_int64 neg ip fp e =
     (let m = digits_value 0 ip; n = (if neg then - m else m) in
      if fp = [] \<and> e = None \<and> - (2 ^ 63) \<le> n \<and> n < 2 ^ 63 then Some n else None)"

definition upper_byte :: "char \<Rightarrow> char" where
  "upper_byte c = (if in_range 97 122 c then byte (code c - 32) else c)"

text \<open>
  Names are compared with case folded: the letters of ASCII, and the two characters beyond it that
  fold to one of them, the long s and the sign of the kelvin.
\<close>

fun fold_name :: "gostring \<Rightarrow> gostring" where
  "fold_name [] = []"
| "fold_name (a # s) =
     (if a = CHR 0xC5 \<and> is_prefix [CHR 0xBF] s then CHR ''S'' # fold_name (drop 1 s)
      else if a = CHR 0xE2 \<and> is_prefix [CHR 0x84, CHR 0xAA] s then CHR ''K'' # fold_name (drop 2 s)
      else upper_byte a # fold_name s)"

subsection \<open>Structs\<close>

text \<open>A field of a struct of type \<open>'p\<close>: its name in the text, its type, how it is set.\<close>

datatype 'p field = IntField gostring "int \<Rightarrow> 'p \<Rightarrow> 'p" | StrField gostring "gostring \<Rightarrow> 'p \<Rightarrow> 'p"

fun field_name :: "'p field \<Rightarrow> gostring" where
  "field_name (IntField n upd) = n"
| "field_name (StrField n upd) = n"

text \<open>The field of an exact name, or else the first whose folded name is that of the key.\<close>

definition find_field :: "'p field list \<Rightarrow> gostring \<Rightarrow> 'p field option" where
  "find_field fs k =
     (case find (\<lambda>f. field_name f = k) fs of
        Some f \<Rightarrow> Some f
      | None \<Rightarrow> find (\<lambda>f. fold_name (field_name f) = fold_name k) fs)"

text \<open>A value of another type than the field is an error, \<open>null\<close> leaves the field as it is.\<close>

fun store_field :: "'p field \<Rightarrow> raw \<Rightarrow> 'p \<Rightarrow> goerror option \<times> 'p" where
  "store_field (IntField n upd) (RNum neg ip fp e) p =
     (case parse_int64 neg ip fp e of
        Some i \<Rightarrow> (None, upd i p)
      | None \<Rightarrow> (Some (''cannot unmarshal number into field '' @ n), p))"
| "store_field (StrField n upd) (RStr t) p = (None, upd t p)"
| "store_field f RNull p = (None, p)"
| "store_field f r p = (Some (''cannot unmarshal value into field '' @ field_name f), p)"

definition first_error :: "goerror option \<Rightarrow> goerror option \<Rightarrow> goerror option" where
  "first_error e e' = (case e of Some x \<Rightarrow> Some x | None \<Rightarrow> e')"

text \<open>The members one after the other; the decoder goes on after an error and reports the first.\<close>

fun store_members :: "bool \<Rightarrow> 'p field list \<Rightarrow> (gostring \<times> raw) list \<Rightarrow> goerror option \<Rightarrow> 'p \<Rightarrow> goerror option \<times> 'p" where
  "store_members strict fs [] err p = (err, p)"
| "store_members strict fs ((k, r) # ms) err p =
     (case find_field fs k of
        None \<Rightarrow>
          store_members strict fs ms (first_error err (if strict then Some (''unknown field '' @ k) else None)) p
      | Some f \<Rightarrow>
          (let (e, p1) = store_field f r p in store_members strict fs ms (first_error err e) p1))"

text \<open>\<open>strict\<close>: \<open>DisallowUnknownFields\<close> was called.\<close>

definition decode_struct :: "bool \<Rightarrow> 'p field list \<Rightarrow> gostring \<Rightarrow> 'p \<Rightarrow> goerror + 'p" where
  "decode_struct strict fs data p =
     (case scan_json data of
        None \<Rightarrow> Inl ''invalid JSON''
      | Some RNull \<Rightarrow> Inr p
      | Some (RObj ms) \<Rightarrow>
          (case store_members strict fs ms None p of
             (Some e, p1) \<Rightarrow> Inl e
           | (None, p1) \<Rightarrow> Inr p1)
      | Some r \<Rightarrow> Inl ''cannot unmarshal value into struct'')"

subsection \<open>What is accepted\<close>

fun accepts :: "'p field \<Rightarrow> raw \<Rightarrow> bool" where
  "accepts (IntField n upd) (RNum neg ip fp e) \<longleftrightarrow> parse_int64 neg ip fp e \<noteq> None"
| "accepts (StrField n upd) (RStr t) \<longleftrightarrow> True"
| "accepts f RNull \<longleftrightarrow> True"
| "accepts f r \<longleftrightarrow> False"

lemma store_field_error: "fst (store_field f r p) = None \<longleftrightarrow> accepts f r"
  by (induction f r p rule: store_field.induct) (auto split: option.split)

definition member_accepted :: "bool \<Rightarrow> 'p field list \<Rightarrow> gostring \<times> raw \<Rightarrow> bool" where
  "member_accepted strict fs m \<longleftrightarrow> (case find_field fs (fst m) of None \<Rightarrow> \<not> strict | Some f \<Rightarrow> accepts f (snd m))"

lemma first_error_None: "first_error e e' = None \<longleftrightarrow> e = None \<and> e' = None"
  by (simp add: first_error_def split: option.split)

lemma store_members_error:
  "fst (store_members strict fs ms err p) = None \<longleftrightarrow> err = None \<and> (\<forall>m \<in> set ms. member_accepted strict fs m)"
proof (induction ms arbitrary: err p)
  case (Cons m ms)
  obtain k r where m: "m = (k, r)" by (cases m)
  show ?case
  proof (cases "find_field fs k")
    case None
    then show ?thesis by (auto simp: m Cons.IH member_accepted_def first_error_None)
  next
    case (Some f)
    then show ?thesis using store_field_error[of f r p]
      by (auto simp: m Cons.IH member_accepted_def first_error_None split: prod.split)
  qed
qed simp

text \<open>A text is decoded exactly if it starts with \<open>null\<close> or with an object whose members are all accepted.\<close>

lemma decode_struct_ok:
  "(\<exists>q. decode_struct strict fs data p = Inr q) \<longleftrightarrow>
     scan_json data = Some RNull \<or> (\<exists>ms. scan_json data = Some (RObj ms) \<and> (\<forall>m \<in> set ms. member_accepted strict fs m))"
proof (cases "\<exists>ms. scan_json data = Some (RObj ms)")
  case True
  then obtain ms where ms: "scan_json data = Some (RObj ms)" by blast
  show ?thesis using store_members_error[of strict fs ms None p]
    by (cases "store_members strict fs ms None p") (auto simp: decode_struct_def ms split: option.split)
next
  case False
  then show ?thesis by (auto simp: decode_struct_def split: option.split raw.split)
qed

subsection \<open>Reading back a struct\<close>

text \<open>What the scanner makes of an integer or a string that the encoder wrote.\<close>

fun raw_of :: "go_value \<Rightarrow> raw" where
  "raw_of (GInt n) = RNum (n < 0) (decimal_digits (nat \<bar>n\<bar>)) [] None"
| "raw_of (GStr t) = RStr (utf8_fix t)"
| "raw_of v = RNull"

fun is_flat :: "go_value \<Rightarrow> bool" where
  "is_flat (GInt n) \<longleftrightarrow> True"
| "is_flat (GStr t) \<longleftrightarrow> True"
| "is_flat v \<longleftrightarrow> False"

lemma scan_number_decimal:
  assumes "ends_number s"
  shows "scan_number (decimal n @ s) = Some (raw_of (GInt n), s)"
proof -
  have e: "\<not> has_exponent s" using ends_number_cases[OF assms] by (auto simp: has_exponent_def)
  note parts = parse_int_part_decimal[OF assms] parse_rest_ends[OF assms] e
  show ?thesis
  proof (cases "n < 0")
    case True
    then show ?thesis using parts by (simp add: scan_number_def decimal_def Let_def)
  next
    case False
    obtain c t where c: "decimal_digits (nat n) = c # t" "is_digit c"
      using decimal_digits_digit[of _ "nat n"] decimal_digits_head[of "nat n"]
      by (cases "nat n = 0") (auto simp: decimal_digits.simps[of 0])
    then have "c \<noteq> CHR ''-''" by (auto simp: is_digit_def in_range_def code_def)
    then have "(case decimal_digits (nat n) @ s of c # r \<Rightarrow> if c = CHR ''-'' then (True, r) else (False, decimal_digits (nat n) @ s)
        | [] \<Rightarrow> (False, decimal_digits (nat n) @ s)) = (False, decimal_digits (nat n) @ s)" by (simp add: c(1))
    then show ?thesis using False parts by (simp add: scan_number_def decimal_def Let_def)
  qed
qed

lemma decimal_head: "\<exists>c r. decimal n = c # r \<and> (c = CHR ''-'' \<or> is_digit c)"
proof (cases "n < 0")
  case False
  then show ?thesis using decimal_digits_digit[of _ "nat n"] decimal_digits_head[of "nat n"]
    by (cases "nat n = 0") (auto simp: decimal_def decimal_digits.simps[of 0] is_digit_def in_range_def)
qed (simp add: decimal_def)

lemma scan_flat:
  assumes "is_flat v" "ends_number s"
  shows "scan_value (Suc f) d (json_text fmt v @ s) = Some (raw_of v, s)"
  using assms(1)
proof (cases v)
  case (GInt n)
  obtain c r where c: "decimal n = c # r" "c = CHR ''-'' \<or> is_digit c" using decimal_head by blast
  have "c \<notin> {CHR 0x20, CHR 0x09, CHR 0x0D, CHR 0x0A, CHR ''{'', CHR ''['', CHR 0x22, CHR ''t'', CHR ''f'', CHR ''n''}"
    using c(2) by (auto simp: is_digit_def in_range_def code_def)
  then show ?thesis
    using scan_number_decimal[OF assms(2), of n] by (simp add: GInt scan_value.simps(2) c(1) del: raw_of.simps)
next
  case (GStr t)
  have "parse_string (Suc (length (json_body t @ CHR 0x22 # s))) (json_body t @ CHR 0x22 # s) = Some (utf8_fix t, s)"
    by (rule parse_json_body) simp
  then show ?thesis by (simp add: GStr scan_value.simps(2) json_string_def)
qed simp_all

lemma scan_members_flat:
  assumes "ms \<noteq> []" "\<forall>m \<in> set ms. is_flat (snd m)" "length ms < f"
  shows "scan_members f d (commas (map (member_text fmt) ms) @ CHR ''}'' # s) = Some (map (\<lambda>m. (utf8_fix (fst m), raw_of (snd m))) ms, s)"
  using assms
proof (induction ms arbitrary: f)
  case (Cons m ms)
  obtain k v where m: "m = (k, v)" by fastforce
  let ?rest = "if ms = [] then CHR ''}'' # s else CHR '','' # commas (map (member_text fmt) ms) @ CHR ''}'' # s"
  let ?v = "json_text fmt v @ ?rest"
  let ?k = "json_body k @ CHR 0x22 # CHR '':'' # ?v"
  obtain g where g: "f = Suc (Suc g)" using Cons.prems(3) by (cases f; cases "f - 1") auto
  have t: "commas (map (member_text fmt) (m # ms)) @ CHR ''}'' # s = CHR 0x22 # ?k"
    by (simp add: commas_cons m member_text_def json_string_def)
  have key: "parse_string (Suc (length ?k)) ?k = Some (utf8_fix k, CHR '':'' # ?v)" by (rule parse_json_body) simp
  have v: "scan_value (Suc g) d ?v = Some (raw_of v, ?rest)" using Cons.prems(2) by (intro scan_flat) (simp_all add: m)
  show ?case
  proof (cases "ms = []")
    case True
    with key v show ?thesis unfolding t g by (simp add: m scan_members.simps(2))
  next
    case False
    then have "scan_members (Suc g) d (commas (map (member_text fmt) ms) @ CHR ''}'' # s) =
        Some (map (\<lambda>m. (utf8_fix (fst m), raw_of (snd m))) ms, s)"
      using Cons.IH[of "Suc g"] Cons.prems(2,3) unfolding g by simp
    with key v False show ?thesis unfolding t g by (simp add: m scan_members.simps(2))
  qed
qed simp

lemma commas_length: "\<forall>t \<in> set ts. t \<noteq> [] \<Longrightarrow> length ts \<le> length (commas ts)"
proof (induction ts rule: commas.induct)
  case (3 t u ts)
  then have "length (u # ts) \<le> length (commas (u # ts))" "t \<noteq> []" by simp_all
  then show ?case by (cases t) auto
qed (auto simp: Suc_le_eq)

text \<open>An object of integers and strings is scanned as it was written, whatever follows it.\<close>

lemma scan_flat_object:
  assumes "ms \<noteq> []" "\<forall>m \<in> set ms. is_flat (snd m)"
  shows "scan_json (json_text fmt (GObj ms) @ s) = Some (RObj (map (\<lambda>m. (utf8_fix (fst m), raw_of (snd m))) ms))"
proof -
  have mt: "(\<lambda>(k, v). json_string k @ CHR '':'' # json_text fmt v) = member_text fmt" by (auto simp: member_text_def)
  let ?t = "commas (map (member_text fmt) ms) @ CHR ''}'' # s"
  have "length ms \<le> length (commas (map (member_text fmt) ms))"
    using commas_length[of "map (member_text fmt) ms"] by (simp add: member_text_def)
  then have "scan_members (2 * length (json_text fmt (GObj ms) @ s) + 1) (max_nesting - 1) ?t
      = Some (map (\<lambda>m. (utf8_fix (fst m), raw_of (snd m))) ms, s)"
    by (intro scan_members_flat assms) (simp add: mt)
  moreover have "\<exists>r. ?t = CHR 0x22 # r"
    using assms(1) by (cases ms) (simp_all add: commas_cons member_text_def json_string_def)
  then obtain r where "?t = CHR 0x22 # r" ..
  ultimately show ?thesis by (simp add: scan_json_def scan_value.simps(2) mt max_nesting_def)
qed

lemma parse_int64_decimal:
  "- (2 ^ 63) \<le> n \<Longrightarrow> n < 2 ^ 63 \<Longrightarrow> parse_int64 (n < 0) (decimal_digits (nat \<bar>n\<bar>)) [] None = Some n"
  by (simp add: parse_int64_def Let_def digits_value_decimal)

end
