(* ===== verification/Config_Text.thy ===== *)
theory Config_Text
  imports Startup Json_Struct
begin

section \<open>Configurations as text\<close>

text \<open>
  \<open>LoadConfig\<close> (\<open>config/config.go\<close>) and the POST of the configuration endpoint (\<open>dashboard/server.go\<close>)
  from their bytes: the struct tags, the decoder, and what becomes of a text.
\<close>

subsection \<open>The structs and their tags\<close>

definition config_fields :: "config field list" where
  "config_fields =
     [IntField ''number_of_sessions'' (\<lambda>i c. c\<lparr>cf_number_of_sessions := i\<rparr>),
      IntField ''request_timeout'' (\<lambda>i c. c\<lparr>cf_request_timeout := i\<rparr>),
      IntField ''max_retries'' (\<lambda>i c. c\<lparr>cf_max_retries := i\<rparr>),
      StrField ''target_url'' (\<lambda>t c. c\<lparr>cf_target_url := t\<rparr>),
      StrField ''proxy_file'' (\<lambda>t c. c\<lparr>cf_proxy_file := t\<rparr>),
      IntField ''max_idle_conns'' (\<lambda>i c. c\<lparr>cf_max_idle_conns := i\<rparr>),
      IntField ''max_idle_conns_per_host'' (\<lambda>i c. c\<lparr>cf_max_idle_conns_per_host := i\<rparr>),
      IntField ''max_conns_per_host'' (\<lambda>i c. c\<lparr>cf_max_conns_per_host := i\<rparr>)]"

definition zero_config :: config where
  "zero_config =
     \<lparr>cf_number_of_sessions = 0, cf_request_timeout = 0, cf_max_retries = 0, cf_target_url = [], cf_proxy_file = [],
      cf_max_idle_conns = 0, cf_max_idle_conns_per_host = 0, cf_max_conns_per_host = 0\<rparr>"

text \<open>\<open>f\<close>: an error on opening the file, or its bytes.\<close>

definition config_file_of :: "goerror + gostring \<Rightarrow> config_file" where
  "config_file_of f =
     (case f of
        Inl e \<Rightarrow> Unopened e
      | Inr text \<Rightarrow> (case decode_struct True config_fields text zero_config of Inl e \<Rightarrow> Undecoded e | Inr cfg \<Rightarrow> Decoded cfg))"

definition payload_fields :: "config_payload field list" where
  "payload_fields =
     [StrField ''target_url'' (\<lambda>t p. p\<lparr>cp_target_url := t\<rparr>),
      IntField ''number_of_sessions'' (\<lambda>i p. p\<lparr>cp_number_of_sessions := i\<rparr>),
      IntField ''max_retries'' (\<lambda>i p. p\<lparr>cp_max_retries := i\<rparr>)]"

definition decode_payload :: "gostring \<Rightarrow> goerror + config_payload" where
  "decode_payload text = decode_struct False payload_fields text \<lparr>cp_target_url = [], cp_number_of_sessions = 0, cp_max_retries = 0\<rparr>"

subsection \<open>Fields by name\<close>

lemma find_config_field:
  "find_field config_fields ''number_of_sessions'' = Some (IntField ''number_of_sessions'' (\<lambda>i c. c\<lparr>cf_number_of_sessions := i\<rparr>))"
  "find_field config_fields ''request_timeout'' = Some (IntField ''request_timeout'' (\<lambda>i c. c\<lparr>cf_request_timeout := i\<rparr>))"
  "find_field config_fields ''max_retries'' = Some (IntField ''max_retries'' (\<lambda>i c. c\<lparr>cf_max_retries := i\<rparr>))"
  "find_field config_fields ''target_url'' = Some (StrField ''target_url'' (\<lambda>t c. c\<lparr>cf_target_url := t\<rparr>))"
  "find_field config_fields ''proxy_file'' = Some (StrField ''proxy_file'' (\<lambda>t c. c\<lparr>cf_proxy_file := t\<rparr>))"
  "find_field config_fields ''max_idle_conns'' = Some (IntField ''max_idle_conns'' (\<lambda>i c. c\<lparr>cf_max_idle_conns := i\<rparr>))"
  "find_field config_fields ''max_idle_conns_per_host'' = Some (IntField ''max_idle_conns_per_host'' (\<lambda>i c. c\<lparr>cf_max_idle_conns_per_host := i\<rparr>))"
  "find_field config_fields ''max_conns_per_host'' = Some (IntField ''max_conns_per_host'' (\<lambda>i c. c\<lparr>cf_max_conns_per_host := i\<rparr>))"
  by (simp_all add: find_field_def config_fields_def)

lemma find_payload_field:
  "find_field payload_fields ''target_url'' = Some (StrField ''target_url'' (\<lambda>t p. p\<lparr>cp_target_url := t\<rparr>))"
  "find_field payload_fields ''number_of_sessions'' = Some (IntField ''number_of_sessions'' (\<lambda>i p. p\<lparr>cp_number_of_sessions := i\<rparr>))"
  "find_field payload_fields ''max_retries'' = Some (IntField ''max_retries'' (\<lambda>i p. p\<lparr>cp_max_retries := i\<rparr>))"
  by (simp_all add: find_field_def payload_fields_def)

definition int64 :: "int \<Rightarrow> bool" where
  "int64 n \<longleftrightarrow> - (2 ^ 63) \<le> n \<and> n < 2 ^ 63"

lemma store_int: "int64 n \<Longrightarrow> store_field (IntField k upd) (raw_of (GInt n)) p = (None, upd n p)"
  using parse_int64_decimal[of n] by (simp add: int64_def)

subsection \<open>Configuration files\<close>

text \<open>A configuration as the text of a file, in the order of the struct.\<close>

definition config_text :: "config \<Rightarrow> gostring" where
  "config_text c = json_plain (GObj
     [(''number_of_sessions'', GInt (cf_number_of_sessions c)), (''request_timeout'', GInt (cf_request_timeout c)),
      (''max_retries'', GInt (cf_max_retries c)), (''target_url'', GStr (cf_target_url c)), (''proxy_file'', GStr (cf_proxy_file c)),
      (''max_idle_conns'', GInt (cf_max_idle_conns c)), (''max_idle_conns_per_host'', GInt (cf_max_idle_conns_per_host c)),
      (''max_conns_per_host'', GInt (cf_max_conns_per_host c))])"

definition config_int64 :: "config \<Rightarrow> bool" where
  "config_int64 c \<longleftrightarrow> int64 (cf_number_of_sessions c) \<and> int64 (cf_request_timeout c) \<and> int64 (cf_max_retries c)
     \<and> int64 (cf_max_idle_conns c) \<and> int64 (cf_max_idle_conns_per_host c) \<and> int64 (cf_max_conns_per_host c)"

lemma ascii_keys:
  "utf8_fix ''number_of_sessions'' = ''number_of_sessions''" "utf8_fix ''request_timeout'' = ''request_timeout''"
  "utf8_fix ''max_retries'' = ''max_retries''" "utf8_fix ''target_url'' = ''target_url''" "utf8_fix ''proxy_file'' = ''proxy_file''"
  "utf8_fix ''max_idle_conns'' = ''max_idle_conns''" "utf8_fix ''max_idle_conns_per_host'' = ''max_idle_conns_per_host''"
  "utf8_fix ''max_conns_per_host'' = ''max_conns_per_host''"
  by (rule utf8_fix_ascii, simp add: code_def)+

lemma config_text_decoded:
  assumes "config_int64 c"
  shows "decode_struct True config_fields (config_text c @ rest) zero_config =
    Inr (c\<lparr>cf_target_url := utf8_fix (cf_target_url c), cf_proxy_file := utf8_fix (cf_proxy_file c)\<rparr>)"
  using assms
  by (simp add: config_text_def json_plain_def decode_struct_def scan_flat_object ascii_keys find_config_field store_int first_error_def
      config_int64_def zero_config_def del: raw_of.simps(1) json_text.simps)

lemma strict_accepted: "member_accepted True fs m \<longleftrightarrow> (\<exists>f. find_field fs (fst m) = Some f \<and> accepts f (snd m))"
  by (simp add: member_accepted_def split: option.split)

lemma load_config_file:
  "load_config quote name (config_file_of (Inr text)) =
     (case decode_struct True config_fields text zero_config of
        Inl e \<Rightarrow> Inl (''config: decode '' @ quote name @ '': '' @ e) | Inr c \<Rightarrow> Inr c)"
  by (simp add: config_file_of_def load_config_def split: sum.split)

text \<open>
  C32: Configuration files. A configuration written as JSON is loaded as it was, whatever follows it in
  the file. In general a text is loaded exactly if it starts with \<open>null\<close> or with an object whose every
  name is, up to case, that of a field, with a value of its type or \<open>null\<close>: a string for a text field,
  a number of 64 bits without point and exponent for the others. So a timeout written as a string,
  such as "30s", is refused.
\<close>

theorem load_config_spec:
  assumes "config_int64 c" "utf8_fix (cf_target_url c) = cf_target_url c" "utf8_fix (cf_proxy_file c) = cf_proxy_file c"
  shows "load_config quote name (config_file_of (Inr (config_text c @ rest))) = Inr c
    \<and> ((\<exists>c'. load_config quote name (config_file_of (Inr text)) = Inr c') \<longleftrightarrow>
        scan_json text = Some RNull
        \<or> (\<exists>ms. scan_json text = Some (RObj ms) \<and> (\<forall>m \<in> set ms. \<exists>f. find_field config_fields (fst m) = Some f \<and> accepts f (snd m))))
    \<and> (\<exists>e. load_config quote name (config_file_of (Inr (json_plain (GObj [(''request_timeout'', GStr t)]) @ rest))) = Inl e)"
proof -
  have "load_config quote name (config_file_of (Inr (config_text c @ rest))) = Inr c"
    using assms by (simp add: load_config_file config_text_decoded)
  moreover have "(\<exists>c'. load_config quote name (config_file_of (Inr text)) = Inr c') \<longleftrightarrow> (\<exists>q. decode_struct True config_fields text zero_config = Inr q)"
    by (simp add: load_config_file split: sum.split)
  then have "(\<exists>c'. load_config quote name (config_file_of (Inr text)) = Inr c') \<longleftrightarrow> scan_json text = Some RNull
      \<or> (\<exists>ms. scan_json text = Some (RObj ms) \<and> (\<forall>m \<in> set ms. \<exists>f. find_field config_fields (fst m) = Some f \<and> accepts f (snd m)))"
    by (simp add: decode_struct_ok strict_accepted)
  moreover have "\<exists>e. load_config quote name (config_file_of (Inr (json_plain (GObj [(''request_timeout'', GStr t)]) @ rest))) = Inl e"
    by (simp add: load_config_file json_plain_def decode_struct_def scan_flat_object ascii_keys find_config_field first_error_def del: json_text.simps)
  ultimately show ?thesis by blast
qed

theorem load_config_spec_witness:
  "load_config id ''c.json'' (config_file_of (Inr (config_text default_config @ ''trailing''))) = Inr default_config
    \<and> (\<exists>e. load_config id ''c.json'' (config_file_of (Inr (json_plain (GObj [(''request_timeout'', GStr ''30s'')])))) = Inl e)"
proof -
  have "config_int64 default_config" by (simp add: config_int64_def int64_def default_config_def second_def)
  moreover have "utf8_fix (cf_target_url default_config) = cf_target_url default_config"
    "utf8_fix (cf_proxy_file default_config) = cf_proxy_file default_config"
    by (simp_all add: default_config_def utf8_fix_ascii)
  ultimately show ?thesis
    using load_config_spec[of default_config id "''c.json''" "''trailing''" _ "''30s''"] load_config_spec[of default_config id "''c.json''" "[]" _ "''30s''"]
    by simp
qed

subsection \<open>Posting what was read\<close>

lemma payload_decoded:
  assumes "int64 (cp_number_of_sessions p)" "int64 (cp_max_retries p)"
  shows "decode_payload (config_json p @ rest) = Inr (p\<lparr>cp_target_url := utf8_fix (cp_target_url p)\<rparr>)"
  using assms
  by (simp add: config_json_def json_plain_def config_value_def decode_payload_def decode_struct_def scan_flat_object ascii_keys
      find_payload_field store_int first_error_def del: raw_of.simps(1) json_text.simps)

text \<open>
  C22: The configuration endpoint, from bytes to bytes. What a GET answers, posted back, is accepted and
  leaves the configuration as it is; and a posted body changes anything only if it is decoded: it starts
  with \<open>null\<close> or with an object in which every member that names a field has a value of its type or \<open>null\<close>.
\<close>

theorem config_get_post:
  assumes "config_int64 (db_cfg s)" "utf8_fix (cf_target_url (db_cfg s)) = cf_target_url (db_cfg s)"
    and "handle_config quote now ''GET'' b new_writer s = (w1, s1)"
    and "handle_config quote now' ''POST'' (decode_payload (wr_body w1)) w s1 = (w2, s2)"
  shows "db_cfg s2 = db_cfg s \<and> wr_status w2 = wr_status w
    \<and> (\<forall>body w3 s3. handle_config quote now' ''POST'' (decode_payload body) w s = (w3, s3) \<longrightarrow> s3 \<noteq> s \<longrightarrow>
        scan_json body = Some RNull \<or> (\<exists>ms. scan_json body = Some (RObj ms)
          \<and> (\<forall>m \<in> set ms. \<forall>f. find_field payload_fields (fst m) = Some f \<longrightarrow> accepts f (snd m))))"
proof -
  let ?p = "config_payload_of (db_cfg s)"
  have w1: "wr_body w1 = config_json ?p @ [newline]" "s1 = s"
    using assms(3) by (auto simp: handle_config_def new_writer_def write_body_def write_header_def)
  have "decode_payload (wr_body w1) = Inr ?p"
    using payload_decoded[of ?p "[newline]"] assms(1,2) by (simp add: w1 config_payload_of_def config_int64_def)
  then have "db_cfg s2 = update_config ?p (db_cfg s)" "wr_status w2 = wr_status w"
    using assms(4) by (auto simp: handle_config_def Let_def w1(2))
  then have "db_cfg s2 = db_cfg s \<and> wr_status w2 = wr_status w"
    by (simp add: update_config_fields config_payload_of_def)
  moreover have "scan_json body = Some RNull \<or> (\<exists>ms. scan_json body = Some (RObj ms)
      \<and> (\<forall>m \<in> set ms. \<forall>f. find_field payload_fields (fst m) = Some f \<longrightarrow> accepts f (snd m)))"
    if "handle_config quote now' ''POST'' (decode_payload body) w s = (w3, s3)" "s3 \<noteq> s" for body w3 s3
  proof -
    have "\<exists>q. decode_payload body = Inr q" using that by (auto simp: handle_config_def split: sum.splits)
    then show ?thesis unfolding decode_payload_def decode_struct_ok by (auto simp: member_accepted_def split: option.splits)
  qed
  ultimately show ?thesis by blast
qed

theorem config_get_post_witness:
  "let s = new_dashboard (new_metrics ZeroTime) (default_config\<lparr>cf_target_url := ''http://t/?a=<b>''\<rparr>);
       (w1, s1) = handle_config id 0 ''GET'' (Inl []) new_writer s;
       (w2, s2) = handle_config id 1 ''POST'' (decode_payload (wr_body w1)) new_writer s1
   in db_cfg s2 = db_cfg s \<and> wr_status w2 = 200"
proof -
  let ?s = "new_dashboard (new_metrics ZeroTime) (default_config\<lparr>cf_target_url := ''http://t/?a=<b>''\<rparr>)"
  have c: "config_int64 (db_cfg ?s)" by (simp add: config_int64_def int64_def default_config_def second_def new_dashboard_def)
  have t: "utf8_fix (cf_target_url (db_cfg ?s)) = cf_target_url (db_cfg ?s)"
    by (rule utf8_fix_ascii) (simp add: new_dashboard_def code_def)
  obtain w1 s1 where 1: "handle_config id 0 ''GET'' (Inl []) new_writer ?s = (w1, s1)" by fastforce
  obtain w2 s2 where 2: "handle_config id 1 ''POST'' (decode_payload (wr_body w1)) new_writer s1 = (w2, s2)" by fastforce
  from config_get_post[OF c t 1 2] 1 2 show ?thesis by (simp add: Let_def new_writer_def)
qed

end
