(* ===== verification/Payload.thy ===== *)
theory Payload
  imports Json "HOL-Library.List_Lexorder" "HOL-Library.Char_ord" "HOL-Library.Product_Lexorder"
begin

section \<open>payload/validator.go: the response schema validator\<close>

text \<open>
  \<open>Validator\<close>: learning the field paths of a response and their types, and comparing later
  responses with them. An object is visited in the order its members are listed; \<open>reordered\<close>
  relates a value to the same value with its objects listed in other orders, and every operation
  that decodes a response takes the reordering Go's map iteration happens to choose.
\<close>

subsection \<open>Schemas\<close>

type_synonym members = "(gostring \<times> json) list"
type_synonym schema = "gostring \<rightharpoonup> gostring"

inductive reordered :: "json \<Rightarrow> json \<Rightarrow> bool" where
  same_leaf: "(\<And>ms. v \<noteq> JObj ms) \<Longrightarrow> reordered v v"
| same_object: "list_all2 (\<lambda>m m'. fst m = fst m' \<and> reordered (snd m) (snd m')) ms ms1
     \<Longrightarrow> mset ms1 = mset ms' \<Longrightarrow> reordered (JObj ms) (JObj ms')"

definition field_path :: "gostring \<Rightarrow> gostring \<Rightarrow> gostring" where
  "field_path prefix k = (if prefix \<noteq> [] then prefix @ ''.'' @ k else k)"

fun flatten_schema :: "members \<Rightarrow> gostring \<Rightarrow> schema \<Rightarrow> schema" where
  "flatten_schema [] prefix s = s"
| "flatten_schema ((k, JObj ms') # ms) prefix s =
     flatten_schema ms prefix
       (flatten_schema ms' (field_path prefix k) (s(field_path prefix k \<mapsto> ''object'')))"
| "flatten_schema ((k, JArr vs) # ms) prefix s =
     flatten_schema ms prefix (s(field_path prefix k \<mapsto> ''array''))"
| "flatten_schema ((k, JStr t) # ms) prefix s =
     flatten_schema ms prefix (s(field_path prefix k \<mapsto> ''string''))"
| "flatten_schema ((k, JNum x) # ms) prefix s =
     flatten_schema ms prefix (s(field_path prefix k \<mapsto> ''number''))"
| "flatten_schema ((k, JBool b) # ms) prefix s =
     flatten_schema ms prefix (s(field_path prefix k \<mapsto> ''bool''))"
| "flatten_schema ((k, JNull) # ms) prefix s =
     flatten_schema ms prefix (s(field_path prefix k \<mapsto> ''null''))"

text \<open>The verb \<open>%T\<close>.\<close>

fun go_type_name :: "json \<Rightarrow> gostring" where
  "go_type_name JNull = ''<nil>''"
| "go_type_name (JBool b) = ''bool''"
| "go_type_name (JNum x) = ''float64''"
| "go_type_name (JStr t) = ''string''"
| "go_type_name (JArr vs) = ''[]interface {}''"
| "go_type_name (JObj ms) = ''map[string]interface {}''"

definition extract_schema :: "(json \<Rightarrow> json) \<Rightarrow> gostring \<Rightarrow> goerror + schema" where
  "extract_schema iter data =
     (case unmarshal data of
        Inl e \<Rightarrow> Inl (''unmarshal JSON: '' @ e)
      | Inr raw \<Rightarrow>
          (case iter raw of
             JObj ms \<Rightarrow> Inr (flatten_schema ms [] Map.empty)
           | v \<Rightarrow> Inl (''expected JSON object, got '' @ go_type_name v)))"

subsection \<open>Mismatches\<close>

type_synonym mismatch_kind = gostring

definition missing_field :: mismatch_kind where
  "missing_field = ''MISSING_FIELD''"

definition added_field :: mismatch_kind where
  "added_field = ''ADDED_FIELD''"

definition type_change :: mismatch_kind where
  "type_change = ''TYPE_CHANGE''"

record mismatch =
  mm_kind :: mismatch_kind
  mm_field :: gostring
  mm_baseline :: gostring
  mm_current :: gostring

text \<open>\<open>quote\<close> is the verb \<open>%q\<close>.\<close>

definition mismatch_string :: "(gostring \<Rightarrow> gostring) \<Rightarrow> mismatch \<Rightarrow> gostring" where
  "mismatch_string quote m =
     (if mm_kind m = missing_field then
        ''PAYLOAD MISMATCH ['' @ mm_kind m @ ''] field '' @ quote (mm_field m) @ '' missing (was '' @ mm_baseline m @ '')''
      else if mm_kind m = added_field then
        ''PAYLOAD MISMATCH ['' @ mm_kind m @ ''] field '' @ quote (mm_field m) @ '' added (type '' @ mm_current m @ '')''
      else if mm_kind m = type_change then
        ''PAYLOAD MISMATCH ['' @ mm_kind m @ ''] field '' @ quote (mm_field m) @ '' type changed ''
          @ mm_baseline m @ [CHR 0x20, CHR 0xE2, CHR 0x86, CHR 0x92, CHR 0x20] @ mm_current m
      else ''PAYLOAD MISMATCH ['' @ mm_kind m @ ''] field '' @ quote (mm_field m))"

fun join_lines :: "gostring list \<Rightarrow> gostring" where
  "join_lines [] = []"
| "join_lines [l] = l"
| "join_lines (l # ls) = l @ [newline] @ join_lines ls"

definition format_mismatches :: "(gostring \<Rightarrow> gostring) \<Rightarrow> mismatch list \<Rightarrow> gostring" where
  "format_mismatches quote ms =
     (if length ms = 0 then [] else join_lines (map (mismatch_string quote) ms))"

text \<open>The two loops over the schemas, in the orders they visit them, and the sort.\<close>

fun diff_baseline :: "schema \<Rightarrow> (gostring \<times> gostring) list \<Rightarrow> mismatch list" where
  "diff_baseline current [] = []"
| "diff_baseline current ((field, b_type) # fs) =
     (case current field of
        None \<Rightarrow> \<lparr>mm_kind = missing_field, mm_field = field, mm_baseline = b_type, mm_current = []\<rparr>
                # diff_baseline current fs
      | Some c_type \<Rightarrow>
          if c_type \<noteq> b_type
          then \<lparr>mm_kind = type_change, mm_field = field, mm_baseline = b_type, mm_current = c_type\<rparr>
               # diff_baseline current fs
          else diff_baseline current fs)"

fun diff_added :: "schema \<Rightarrow> (gostring \<times> gostring) list \<Rightarrow> mismatch list" where
  "diff_added baseline [] = []"
| "diff_added baseline ((field, c_type) # fs) =
     (case baseline field of
        None \<Rightarrow> \<lparr>mm_kind = added_field, mm_field = field, mm_baseline = [], mm_current = c_type\<rparr>
                # diff_added baseline fs
      | Some b_type \<Rightarrow> diff_added baseline fs)"

definition mismatch_key :: "mismatch \<Rightarrow> gostring \<times> gostring" where
  "mismatch_key m = (mm_field m, mm_kind m)"

definition diff_schemas ::
  "(gostring \<times> gostring) list \<Rightarrow> (gostring \<times> gostring) list \<Rightarrow> schema \<Rightarrow> schema \<Rightarrow> mismatch list" where
  "diff_schemas b_order c_order baseline current =
     sort_key mismatch_key (diff_baseline current b_order @ diff_added baseline c_order)"

subsection \<open>The validator\<close>

record validator =
  vd_baseline :: "schema option"

definition new_validator :: validator where
  "new_validator = \<lparr>vd_baseline = None\<rparr>"

definition copy_schema :: "schema \<Rightarrow> schema" where
  "copy_schema s = s"

definition learn :: "(json \<Rightarrow> json) \<Rightarrow> gostring \<Rightarrow> validator \<Rightarrow> goerror option \<times> validator" where
  "learn iter data v =
     (case extract_schema iter data of
        Inl e \<Rightarrow> (Some (''payload: learn schema: '' @ e), v)
      | Inr s \<Rightarrow> (None, v\<lparr>vd_baseline := Some s\<rparr>))"

definition has_baseline :: "validator \<Rightarrow> bool" where
  "has_baseline v \<longleftrightarrow> vd_baseline v \<noteq> None"

text \<open>The loops run over copies of the two schemas, in orders given for any schema.\<close>

definition validate ::
  "(json \<Rightarrow> json) \<Rightarrow> (schema \<Rightarrow> (gostring \<times> gostring) list) \<Rightarrow> (schema \<Rightarrow> (gostring \<times> gostring) list)
   \<Rightarrow> gostring \<Rightarrow> validator \<Rightarrow> (goerror + mismatch list) \<times> validator" where
  "validate iter b_orders c_orders data v =
     (case extract_schema iter data of
        Inl e \<Rightarrow> (Inl (''payload: validate: '' @ e), v)
      | Inr current \<Rightarrow>
          (case vd_baseline v of
             None \<Rightarrow> (Inr [], v\<lparr>vd_baseline := Some current\<rparr>)
           | Some b \<Rightarrow>
               (let baseline = copy_schema b
                in (Inr (diff_schemas (b_orders baseline) (c_orders current) baseline current), v))))"

definition baseline_fields :: "(gostring \<times> gostring) list \<Rightarrow> validator \<Rightarrow> gostring list" where
  "baseline_fields order v = sort (map fst order)"

definition reset_validator :: "validator \<Rightarrow> validator" where
  "reset_validator v = v\<lparr>vd_baseline := None\<rparr>"

subsection \<open>Schemas as types at paths\<close>

fun type_name :: "json \<Rightarrow> gostring" where
  "type_name JNull = ''null''"
| "type_name (JBool b) = ''bool''"
| "type_name (JNum x) = ''number''"
| "type_name (JStr t) = ''string''"
| "type_name (JArr vs) = ''array''"
| "type_name (JObj ms) = ''object''"

text \<open>The contract: the type of the value a path of keys leads to.\<close>

fun value_at :: "members \<Rightarrow> gostring list \<Rightarrow> json option" where
  "value_at ms [] = None"
| "value_at ms [k] = map_of ms k"
| "value_at ms (k # ks) = (case map_of ms k of Some (JObj ms') \<Rightarrow> value_at ms' ks | _ \<Rightarrow> None)"

definition type_at :: "members \<Rightarrow> gostring list \<Rightarrow> gostring option" where
  "type_at ms ks = map_option type_name (value_at ms ks)"

fun join_path :: "gostring list \<Rightarrow> gostring" where
  "join_path [] = []"
| "join_path [k] = k"
| "join_path (k # ks) = k @ ''.'' @ join_path ks"

definition plain_key :: "gostring \<Rightarrow> bool" where
  "plain_key k \<longleftrightarrow> k \<noteq> [] \<and> CHR ''.'' \<notin> set k"

fun plain_value :: "json \<Rightarrow> bool" where
  "plain_value (JObj ms) =
     (distinct (map fst ms) \<and> (\<forall>m \<in> set ms. plain_key (fst m) \<and> plain_value (snd m)))"
| "plain_value v = True"

fun plain_keys :: "json \<Rightarrow> bool" where
  "plain_keys (JObj ms) = (\<forall>m \<in> set ms. plain_key (fst m) \<and> plain_keys (snd m))"
| "plain_keys v = True"

text \<open>In an object the decoder made no key occurs twice.\<close>

lemma plain_value_distinct: "distinct_keys v \<Longrightarrow> plain_keys v \<Longrightarrow> plain_value v"
  by (induction v rule: plain_value.induct) auto

lemma plain_decoded: "unmarshal data = Inr v \<Longrightarrow> plain_keys v \<Longrightarrow> plain_value v"
  by (blast intro: plain_value_distinct unmarshal_distinct_keys)

lemma join_path_cons: "join_path (k # ks) = (if ks = [] then k else k @ ''.'' @ join_path ks)"
  by (cases ks) auto

lemma join_path_empty: "\<forall>k \<in> set ks. plain_key k \<Longrightarrow> join_path ks = [] \<longleftrightarrow> ks = []"
  by (cases ks) (auto simp: join_path_cons plain_key_def)

lemma join_path_snoc:
  "\<forall>k \<in> set ps. plain_key k \<Longrightarrow> field_path (join_path ps) k = join_path (ps @ [k])"
proof (induction ps)
  case (Cons p ps)
  then show ?case
    by (cases "ps = []") (auto simp: field_path_def join_path_cons join_path_empty plain_key_def)
qed (simp add: field_path_def)

lemma join_path_head:
  "plain_key k \<Longrightarrow> takeWhile (\<lambda>c. c \<noteq> CHR ''.'') (join_path (k # ks)) = k"
  by (auto simp: join_path_cons plain_key_def takeWhile_append)

lemma join_path_inj:
  assumes "\<forall>k \<in> set ks. plain_key k" "\<forall>k \<in> set ks'. plain_key k" "join_path ks = join_path ks'"
  shows "ks = ks'"
  using assms
proof (induction ks arbitrary: ks')
  case Nil
  then show ?case by (metis join_path.simps(1) join_path_empty)
next
  case (Cons k ks)
  from Cons.prems have "ks' \<noteq> []" by (metis join_path.simps(1) join_path_empty list.distinct(1))
  then obtain k' ks2 where ks': "ks' = k' # ks2" by (cases ks') auto
  have k: "k' = k"
    using join_path_head[of k ks] join_path_head[of k' ks2] Cons.prems ks' by simp
  have "join_path ks = join_path ks2 \<and> (ks = [] \<longleftrightarrow> ks2 = [])"
    using Cons.prems(3) unfolding ks' k by (auto simp: join_path_cons split: if_splits)
  with Cons.IH[of ks2] Cons.prems ks' k show ?case by auto
qed

fun members_of :: "json \<Rightarrow> members" where
  "members_of (JObj ms) = ms"
| "members_of v = []"

lemma flatten_schema_cons:
  "flatten_schema ((k, v) # ms) prefix s =
     flatten_schema ms prefix
       (flatten_schema (members_of v) (field_path prefix k) (s(field_path prefix k \<mapsto> type_name v)))"
  by (cases v) auto

lemma value_at_cons:
  "value_at ms (k # ks) =
     (case map_of ms k of None \<Rightarrow> None | Some v \<Rightarrow> if ks = [] then Some v else value_at (members_of v) ks)"
proof (cases ks)
  case (Cons k' ks')
  have "value_at [] (k' # ks') = None" by (cases ks') auto
  with Cons show ?thesis by (auto split: option.split json.split)
qed (auto split: option.split)

lemma value_at_plain:
  "value_at ms ks = Some v \<Longrightarrow> plain_value (JObj ms) \<Longrightarrow> \<forall>k \<in> set ks. plain_key k"
proof (induction ks arbitrary: ms)
  case (Cons k ks)
  from Cons.prems(1) obtain w where w: "map_of ms k = Some w"
    "if ks = [] then v = w else value_at (members_of w) ks = Some v"
    by (auto simp: value_at_cons split: option.splits if_splits)
  from w(1) have m: "(k, w) \<in> set ms" by (rule map_of_SomeD)
  with Cons.prems(2) have "plain_key k" "plain_value w" by auto
  moreover from this(2) have "plain_value (JObj (members_of w))" by (cases w) auto
  ultimately show ?case using w(2) Cons.IH[of "members_of w"] by (auto split: if_splits)
qed simp

text \<open>\<open>covers ms ps f v\<close>: the field \<open>f\<close> is the path of the value \<open>v\<close> inside \<open>ms\<close>, found at \<open>ps\<close>.\<close>

definition covers :: "members \<Rightarrow> gostring list \<Rightarrow> gostring \<Rightarrow> json \<Rightarrow> bool" where
  "covers ms ps f v \<longleftrightarrow> (\<exists>ks. value_at ms ks = Some v \<and> f = join_path (ps @ ks))"

lemma value_at_nonempty: "value_at ms ks = Some v \<Longrightarrow> ks \<noteq> []"
  by auto

lemma covers_empty [simp]: "\<not> covers [] ps f v"
proof -
  have "value_at [] ks = None" for ks by (cases ks) (simp_all add: value_at_cons)
  then show ?thesis by (simp add: covers_def)
qed

lemma covers_cons:
  assumes "k \<notin> fst ` set ms"
  shows "covers ((k, v) # ms) ps f w \<longleftrightarrow>
    (f = join_path (ps @ [k]) \<and> w = v) \<or> covers (members_of v) (ps @ [k]) f w \<or> covers ms ps f w"
proof
  assume "covers ((k, v) # ms) ps f w"
  then obtain ks where ks: "value_at ((k, v) # ms) ks = Some w" "f = join_path (ps @ ks)"
    by (auto simp: covers_def)
  then obtain k' ks' where c: "ks = k' # ks'" by (cases ks) auto
  show "(f = join_path (ps @ [k]) \<and> w = v) \<or> covers (members_of v) (ps @ [k]) f w \<or> covers ms ps f w"
  proof (cases "k' = k")
    case True
    with ks c show ?thesis by (cases "ks' = []") (auto simp: value_at_cons covers_def)
  next
    case False
    with ks c have "value_at ms ks = Some w" by (simp add: value_at_cons)
    with ks show ?thesis by (auto simp: covers_def)
  qed
next
  assume "(f = join_path (ps @ [k]) \<and> w = v) \<or> covers (members_of v) (ps @ [k]) f w \<or> covers ms ps f w"
  then consider "f = join_path (ps @ [k])" "w = v"
    | ks where "value_at (members_of v) ks = Some w" "f = join_path (ps @ k # ks)"
    | ks where "value_at ms ks = Some w" "f = join_path (ps @ ks)"
    by (auto simp: covers_def)
  then show "covers ((k, v) # ms) ps f w"
  proof cases
    case 1
    then show ?thesis unfolding covers_def by (intro exI[of _ "[k]"]) (simp add: value_at_cons)
  next
    case 2
    then show ?thesis unfolding covers_def
      by (intro exI[of _ "k # ks"]) (auto simp: value_at_cons dest: value_at_nonempty)
  next
    case 3
    then obtain k' ks' where c: "ks = k' # ks'" by (cases ks) auto
    with 3 have "k' \<noteq> k" using assms by (auto simp: value_at_cons map_of_eq_None_iff[symmetric] split: option.splits)
    with 3 c show ?thesis unfolding covers_def by (intro exI[of _ ks]) (simp add: value_at_cons)
  qed
qed

lemma flatten_schema_spec:
  assumes "plain_value (JObj ms)" "\<forall>k \<in> set ps. plain_key k"
  shows "(\<forall>v. covers ms ps f v \<longrightarrow> flatten_schema ms (join_path ps) s f = Some (type_name v))
    \<and> ((\<forall>v. \<not> covers ms ps f v) \<longrightarrow> flatten_schema ms (join_path ps) s f = s f)"
  using assms
proof (induction "JObj ms" arbitrary: ms ps s rule: measure_induct_rule[where f = size])
  case less
  show ?case
  proof (cases ms)
    case (Cons m ms1)
    obtain k v where m: "m = (k, v)" by (cases m)
    have k: "plain_key k" "plain_value v" "k \<notin> fst ` set ms1" "plain_value (JObj ms1)"
      using less.prems(1) Cons m by auto
    have pv: "plain_value (JObj (members_of v))" using k(2) by (cases v) auto
    have ps: "\<forall>k \<in> set (ps @ [k]). plain_key k" using less.prems(2) k(1) by simp
    have path: "field_path (join_path ps) k = join_path (ps @ [k])"
      by (rule join_path_snoc[OF less.prems(2)])
    let ?s1 = "s(join_path (ps @ [k]) \<mapsto> type_name v)"
    let ?s2 = "flatten_schema (members_of v) (join_path (ps @ [k])) ?s1"
    have flat: "flatten_schema ms (join_path ps) s = flatten_schema ms1 (join_path ps) ?s2"
      unfolding Cons m flatten_schema_cons path ..
    have rest: "(\<forall>w. covers ms1 ps f w \<longrightarrow> flatten_schema ms1 (join_path ps) ?s2 f = Some (type_name w))
        \<and> ((\<forall>w. \<not> covers ms1 ps f w) \<longrightarrow> flatten_schema ms1 (join_path ps) ?s2 f = ?s2 f)"
      by (rule less.hyps) (use Cons k less.prems(2) in auto)
    have sub: "(\<forall>w. covers (members_of v) (ps @ [k]) f w \<longrightarrow> ?s2 f = Some (type_name w))
        \<and> ((\<forall>w. \<not> covers (members_of v) (ps @ [k]) f w) \<longrightarrow> ?s2 f = ?s1 f)"
    proof (cases v)
      case (JObj ms')
      then show ?thesis using less.hyps[of ms' "ps @ [k]" ?s1] Cons m pv ps by auto
    qed auto
    have apart: "\<not> covers ms1 ps f w'"
      if "(f = join_path (ps @ [k]) \<and> w = v) \<or> covers (members_of v) (ps @ [k]) f w" for w w'
    proof
      assume "covers ms1 ps f w'"
      then obtain ks where ks: "value_at ms1 ks = Some w'" "f = join_path (ps @ ks)" by (auto simp: covers_def)
      then have pks: "\<forall>k \<in> set ks. plain_key k" using value_at_plain k(4) by blast
      from ks(1) obtain k' ks' where c: "ks = k' # ks'" by (cases ks) auto
      with ks(1) have k': "k' \<in> fst ` set ms1"
        by (force simp: value_at_cons split: option.splits dest: map_of_SomeD)
      from that obtain ls where ls: "f = join_path (ps @ k # ls)" "\<forall>k \<in> set ls. plain_key k"
      proof
        assume "f = join_path (ps @ [k]) \<and> w = v"
        then show thesis using that[of "[]"] by simp
      next
        assume "covers (members_of v) (ps @ [k]) f w"
        then obtain ls where "value_at (members_of v) ls = Some w" "f = join_path (ps @ [k] @ ls)"
          by (auto simp: covers_def)
        then show thesis using that[of ls] value_at_plain[OF _ pv] by auto
      qed
      have "ps @ ks = ps @ k # ls"
        using ks(2) ls pks ps by (intro join_path_inj) auto
      with c k' k(3) show False by simp
    qed
    have cov: "covers ms ps f w \<longleftrightarrow> (f = join_path (ps @ [k]) \<and> w = v)
        \<or> covers (members_of v) (ps @ [k]) f w \<or> covers ms1 ps f w" for w
      unfolding Cons m by (rule covers_cons[OF k(3)])
    have inner: "\<not> covers (members_of v) (ps @ [k]) (join_path (ps @ [k])) w" for w
    proof
      assume "covers (members_of v) (ps @ [k]) (join_path (ps @ [k])) w"
      then obtain ls where ls: "value_at (members_of v) ls = Some w"
        "join_path (ps @ [k]) = join_path ((ps @ [k]) @ ls)" by (auto simp: covers_def)
      then have "ps @ [k] = (ps @ [k]) @ ls"
        using ps value_at_plain[OF ls(1) pv] by (intro join_path_inj) auto
      with ls(1) show False by auto
    qed
    show ?thesis
      unfolding flat using rest sub apart cov inner by (metis fun_upd_other fun_upd_same)
  qed simp
qed

subsection \<open>Reordered values have the same types at the same paths\<close>

inductive_cases reordered_object: "reordered (JObj ms) w"

lemma reordered_type: "reordered v w \<Longrightarrow> type_name w = type_name v"
  by (erule reordered.cases) auto

lemma map_of_mset:
  assumes "distinct (map fst xs)" "mset xs = mset ys"
  shows "map_of ys = map_of xs"
proof
  fix k
  have d: "distinct (map fst ys)"
    using assms by (metis mset_map mset_eq_imp_distinct_iff)
  have "set ys = set xs" using assms(2) by (metis set_mset_mset)
  then show "map_of ys k = map_of xs k"
    using map_of_eq_Some_iff[OF d, of k] map_of_eq_Some_iff[OF assms(1), of k]
    by (metis option.exhaust)
qed

lemma list_all2_map_of:
  assumes "list_all2 (\<lambda>m m'. fst m = fst m' \<and> R (snd m) (snd m')) xs ys"
  shows "map fst ys = map fst xs"
    and "(map_of xs k = None \<longleftrightarrow> map_of ys k = None)
      \<and> (\<forall>v. map_of xs k = Some v \<longrightarrow> (\<exists>w. map_of ys k = Some w \<and> R v w))"
  using assms by (induction rule: list_all2_induct) auto

lemma reordered_value_at:
  assumes "reordered (JObj ms) (JObj ms')" "plain_value (JObj ms)"
  shows "(value_at ms ks = None \<longleftrightarrow> value_at ms' ks = None)
    \<and> (\<forall>v. value_at ms ks = Some v \<longrightarrow> (\<exists>w. value_at ms' ks = Some w \<and> reordered v w))"
  using assms
proof (induction ks arbitrary: ms ms')
  case (Cons k ks)
  from Cons.prems(1) obtain ms1 where l: "list_all2 (\<lambda>m m'. fst m = fst m' \<and> reordered (snd m) (snd m')) ms ms1"
    and e: "mset ms1 = mset ms'"
    by (auto elim: reordered_object)
  have "distinct (map fst ms1)" using list_all2_map_of(1)[OF l] Cons.prems(2) by simp
  from map_of_mset[OF this e] have m: "map_of ms' k = map_of ms1 k" by simp
  show ?case
  proof (cases "map_of ms k")
    case None
    with list_all2_map_of(2)[OF l, of k] m show ?thesis by (simp add: value_at_cons)
  next
    case (Some v)
    then obtain w where w: "map_of ms' k = Some w" "reordered v w"
      using list_all2_map_of(2)[OF l, of k] m by auto
    show ?thesis
    proof (cases "ks = []")
      case True
      with Some w show ?thesis by (simp add: value_at_cons)
    next
      case False
      have empty: "value_at [] ks = None" using False by (cases ks) (simp_all add: value_at_cons)
      show ?thesis
      proof (cases v)
        case (JObj a)
        with w(2) obtain b where b: "w = JObj b" by (auto elim: reordered_object)
        have "(k, JObj a) \<in> set ms" using map_of_SomeD[OF Some] unfolding JObj .
        with Cons.prems(2) have pa: "plain_value (JObj a)" by (metis plain_value.simps(1) snd_conv)
        have "value_at ms (k # ks) = value_at a ks" "value_at ms' (k # ks) = value_at b ks"
          using False Some w(1) unfolding JObj b by (simp_all add: value_at_cons)
        with Cons.IH[OF w(2)[unfolded JObj b] pa] show ?thesis by simp
      qed (use w(2) False Some w(1) empty in \<open>auto simp: value_at_cons elim: reordered.cases\<close>)
    qed
  qed
qed simp

lemma list_all2_ball:
  "list_all2 R xs ys \<Longrightarrow> (\<And>x y. R x y \<Longrightarrow> P x \<Longrightarrow> Q y) \<Longrightarrow> \<forall>x \<in> set xs. P x \<Longrightarrow> \<forall>y \<in> set ys. Q y"
  by (induction rule: list_all2_induct) auto

lemma reordered_plain:
  "reordered v w \<Longrightarrow> plain_value v \<Longrightarrow> plain_value w"
proof (induction rule: reordered.induct)
  case (same_object ms ms1 ms')
  have keys: "map fst ms1 = map fst ms"
    using same_object(1) by (induction rule: list_all2_induct) auto
  have all: "\<forall>m \<in> set ms1. plain_key (fst m) \<and> plain_value (snd m)"
    by (rule list_all2_ball[OF same_object(1), where P = "\<lambda>m. plain_key (fst m) \<and> plain_value (snd m)"]) (use same_object.prems in auto)
  have s: "set ms' = set ms1" using same_object(2) by (metis set_mset_mset)
  have "distinct (map fst ms')"
    using same_object(2) same_object.prems keys by (metis mset_map mset_eq_imp_distinct_iff plain_value.simps(1))
  with all s show ?case by simp
qed simp

text \<open>The schema of a response whose keys are plain, whatever order its objects are visited in.\<close>

lemma extract_schema_plain:
  assumes "unmarshal data = Inr (JObj ms)" "plain_value (JObj ms)" "reordered (JObj ms) (iter (JObj ms))"
  shows "\<exists>s. extract_schema iter data = Inr s \<and> finite (dom s)
    \<and> (\<forall>ks. ks \<noteq> [] \<longrightarrow> (\<forall>k \<in> set ks. plain_key k) \<longrightarrow> s (join_path ks) = type_at ms ks)
    \<and> (\<forall>f. s f \<noteq> None \<longrightarrow> (\<exists>ks. ks \<noteq> [] \<and> (\<forall>k \<in> set ks. plain_key k) \<and> f = join_path ks))"
proof -
  obtain ms' where ms': "iter (JObj ms) = JObj ms'" using assms(3) by (auto elim: reordered_object)
  have p: "plain_value (JObj ms')" using reordered_plain assms(2,3) ms' by metis
  let ?s = "flatten_schema ms' [] Map.empty"
  have spec: "(\<forall>v. covers ms' [] f v \<longrightarrow> ?s f = Some (type_name v)) \<and> ((\<forall>v. \<not> covers ms' [] f v) \<longrightarrow> ?s f = None)" for f
    using flatten_schema_spec[OF p, of "[]" f Map.empty] by simp
  have fin: "finite (dom (flatten_schema ms prefix s))" if "finite (dom s)" for ms prefix s
    using that by (induction ms prefix s rule: flatten_schema.induct) auto
  have at: "?s (join_path ks) = type_at ms ks" if ks: "\<forall>k \<in> set ks. plain_key k" for ks
  proof (cases "value_at ms' ks")
    case None
    have "\<not> covers ms' [] (join_path ks) v" for v
    proof
      assume "covers ms' [] (join_path ks) v"
      then obtain ls where ls: "value_at ms' ls = Some v" "join_path ks = join_path ls" by (auto simp: covers_def)
      then have "ks = ls" using ks value_at_plain[OF ls(1) p] by (intro join_path_inj) auto
      with ls None show False by simp
    qed
    then have "?s (join_path ks) = None" using spec by blast
    moreover have "value_at ms ks = None"
      using reordered_value_at[OF assms(3)[unfolded ms'] assms(2), of ks] None by simp
    ultimately show ?thesis by (simp add: type_at_def)
  next
    case (Some w)
    then have "?s (join_path ks) = Some (type_name w)"
      using spec[of "join_path ks"] by (auto simp: covers_def)
    moreover obtain v where "value_at ms ks = Some v" "reordered v w"
      using reordered_value_at[OF assms(3)[unfolded ms'] assms(2), of ks] Some by auto
    ultimately show ?thesis using reordered_type by (simp add: type_at_def)
  qed
  have named: "\<exists>ks. ks \<noteq> [] \<and> (\<forall>k \<in> set ks. plain_key k) \<and> f = join_path ks" if f: "?s f \<noteq> None" for f
  proof -
    obtain v where "covers ms' [] f v" using f spec[of f] by (metis (no_types))
    then obtain ks where ks: "value_at ms' ks = Some v" "f = join_path ks" unfolding covers_def append_Nil by (elim exE conjE)
    show ?thesis by (intro exI[of _ ks] conjI) (rule value_at_nonempty[OF ks(1)], rule value_at_plain[OF ks(1) p], rule ks(2))
  qed
  have "extract_schema iter data = Inr ?s" using assms(1) ms' by (simp add: extract_schema_def)
  moreover have "finite (dom ?s)" by (rule fin) simp
  ultimately show ?thesis using at named by (intro exI[of _ ?s] conjI allI impI) simp_all
qed

subsection \<open>The differences of two schemas\<close>

text \<open>
  The contract of \<open>diffSchemas\<close>: the mismatch a field calls for, given the types the baseline and
  the response have there.
\<close>

fun mismatch_of :: "gostring option \<Rightarrow> gostring option \<Rightarrow> mismatch \<Rightarrow> bool" where
  "mismatch_of (Some t) None m \<longleftrightarrow> mm_kind m = missing_field \<and> mm_baseline m = t \<and> mm_current m = []"
| "mismatch_of None (Some u) m \<longleftrightarrow> mm_kind m = added_field \<and> mm_baseline m = [] \<and> mm_current m = u"
| "mismatch_of (Some t) (Some u) m \<longleftrightarrow>
     t \<noteq> u \<and> mm_kind m = type_change \<and> mm_baseline m = t \<and> mm_current m = u"
| "mismatch_of None None m \<longleftrightarrow> False"

lemma diff_baseline_set:
  "m \<in> set (diff_baseline c fs) \<longleftrightarrow> (\<exists>t. (mm_field m, t) \<in> set fs \<and>
     (case c (mm_field m) of None \<Rightarrow> mm_kind m = missing_field \<and> mm_baseline m = t \<and> mm_current m = []
      | Some u \<Rightarrow> t \<noteq> u \<and> mm_kind m = type_change \<and> mm_baseline m = t \<and> mm_current m = u))"
  by (induction c fs rule: diff_baseline.induct) (cases m, auto split: option.splits)+

lemma diff_added_set:
  "m \<in> set (diff_added b fs) \<longleftrightarrow> (\<exists>u. (mm_field m, u) \<in> set fs \<and> b (mm_field m) = None
     \<and> mm_kind m = added_field \<and> mm_baseline m = [] \<and> mm_current m = u)"
  by (induction b fs rule: diff_added.induct) (cases m, auto split: option.splits)+

lemma diff_baseline_fields: "distinct (map fst fs) \<Longrightarrow> distinct (map mm_field (diff_baseline c fs))"
  by (induction c fs rule: diff_baseline.induct)
    (force simp: diff_baseline_set split: option.splits)+

lemma diff_added_fields: "distinct (map fst fs) \<Longrightarrow> distinct (map mm_field (diff_added b fs))"
  by (induction b fs rule: diff_added.induct) (force simp: diff_added_set split: option.splits)+

lemma diff_schemas_spec:
  assumes "enumerates b b_order" "enumerates c c_order"
  shows "m \<in> set (diff_schemas b_order c_order b c) \<longleftrightarrow> mismatch_of (b (mm_field m)) (c (mm_field m)) m"
    and "sorted_wrt (<) (map mm_field (diff_schemas b_order c_order b c))"
proof -
  let ?l = "diff_baseline c b_order @ diff_added b c_order"
  show "m \<in> set (diff_schemas b_order c_order b c) \<longleftrightarrow> mismatch_of (b (mm_field m)) (c (mm_field m)) m"
    unfolding diff_schemas_def set_sort set_append Un_iff diff_baseline_set diff_added_set
      enumerates_set[OF assms(1)] enumerates_set[OF assms(2)]
    by (cases "b (mm_field m)"; cases "c (mm_field m)") auto
  have "mm_field ` set (diff_baseline c b_order) \<inter> mm_field ` set (diff_added b c_order) = {}"
    using enumerates_set[OF assms(1)] by (force simp: diff_baseline_set diff_added_set)
  then have "distinct (map mm_field ?l)"
    using diff_baseline_fields diff_added_fields assms by (auto simp: enumerates_def)
  then have d: "distinct (map mm_field (sort_key mismatch_key ?l))"
    by (metis mset_map mset_sort mset_eq_imp_distinct_iff)
  have "sorted (map mismatch_key (sort_key mismatch_key ?l))" by (rule sorted_sort_key)
  then have "sorted (map mm_field (sort_key mismatch_key ?l))"
    unfolding sorted_map by (rule sorted_wrt_mono_rel[rotated]) (auto simp: mismatch_key_def)
  with d show "sorted_wrt (<) (map mm_field (diff_schemas b_order c_order b c))"
    by (simp add: diff_schemas_def strict_sorted_iff)
qed

lemma fields_of_plain_schemas:
  assumes b: "\<forall>ks. ks \<noteq> [] \<longrightarrow> (\<forall>k \<in> set ks. plain_key k) \<longrightarrow> b (join_path ks) = type_at bms ks"
    and c: "\<forall>ks. ks \<noteq> [] \<longrightarrow> (\<forall>k \<in> set ks. plain_key k) \<longrightarrow> c (join_path ks) = type_at cms ks"
    and named: "\<forall>f. b f \<noteq> None \<or> c f \<noteq> None \<longrightarrow> (\<exists>ks. ks \<noteq> [] \<and> (\<forall>k \<in> set ks. plain_key k) \<and> f = join_path ks)"
  shows "mismatch_of (b (mm_field m)) (c (mm_field m)) m \<longleftrightarrow>
    (\<exists>ks. ks \<noteq> [] \<and> (\<forall>k \<in> set ks. plain_key k) \<and> mm_field m = join_path ks
      \<and> mismatch_of (type_at bms ks) (type_at cms ks) m)"
proof
  assume m: "mismatch_of (b (mm_field m)) (c (mm_field m)) m"
  then have "b (mm_field m) \<noteq> None \<or> c (mm_field m) \<noteq> None"
    by (cases "b (mm_field m)"; cases "c (mm_field m)") auto
  with named obtain ks where ks: "ks \<noteq> []" "\<forall>k \<in> set ks. plain_key k" "mm_field m = join_path ks" by blast
  with m b c show "\<exists>ks. ks \<noteq> [] \<and> (\<forall>k \<in> set ks. plain_key k) \<and> mm_field m = join_path ks
      \<and> mismatch_of (type_at bms ks) (type_at cms ks) m" by metis
next
  assume "\<exists>ks. ks \<noteq> [] \<and> (\<forall>k \<in> set ks. plain_key k) \<and> mm_field m = join_path ks
      \<and> mismatch_of (type_at bms ks) (type_at cms ks) m"
  with b c show "mismatch_of (b (mm_field m)) (c (mm_field m)) m" by metis
qed

lemma learn_extracts: "extract_schema iter data = Inr s \<Longrightarrow> learn iter data v = (None, v\<lparr>vd_baseline := Some s\<rparr>)"
  by (simp add: learn_def)

lemma validate_learnt:
  "extract_schema iter data = Inr c \<Longrightarrow> vd_baseline v = Some b
    \<Longrightarrow> validate iter b_orders c_orders data v = (Inr (diff_schemas (b_orders b) (c_orders c) b c), v)"
  by (simp add: validate_def copy_schema_def)

text \<open>A validator without a baseline learns the first response it validates.\<close>

lemma validate_learns_first:
  "vd_baseline v = None \<Longrightarrow> learn iter data v = (None, v') \<Longrightarrow> validate iter b_orders c_orders data v = (Inr [], v')"
  by (auto simp: learn_def validate_def split: sum.splits)

text \<open>
  C25: A validator that has learnt a response reports, for any later response, exactly the paths at
  which the two differ: a missing field, an added field or a changed type with both types named.
  The reports come strictly ordered by field, so the result does not depend on any of the map
  orders involved, and the baseline stays. The keys are assumed to be non-empty and free of dots.
\<close>

theorem validate_reports_differences:
  assumes "unmarshal base = Inr (JObj bms)" "plain_keys (JObj bms)"
    and "unmarshal data = Inr (JObj cms)" "plain_keys (JObj cms)"
    and "reordered (JObj bms) (iter1 (JObj bms))" "reordered (JObj cms) (iter2 (JObj cms))"
    and "\<And>s. finite (dom s) \<Longrightarrow> enumerates s (b_orders s)" "\<And>s. finite (dom s) \<Longrightarrow> enumerates s (c_orders s)"
  shows "\<exists>v' ms. learn iter1 base v = (None, v') \<and> validate iter2 b_orders c_orders data v' = (Inr ms, v')
    \<and> sorted_wrt (<) (map mm_field ms)
    \<and> (\<forall>m. m \<in> set ms \<longleftrightarrow>
        (\<exists>ks. ks \<noteq> [] \<and> (\<forall>k \<in> set ks. plain_key k) \<and> mm_field m = join_path ks
          \<and> mismatch_of (type_at bms ks) (type_at cms ks) m))"
proof -
  obtain b where b: "extract_schema iter1 base = Inr b" "finite (dom b)"
    "\<forall>ks. ks \<noteq> [] \<longrightarrow> (\<forall>k \<in> set ks. plain_key k) \<longrightarrow> b (join_path ks) = type_at bms ks"
    "\<forall>f. b f \<noteq> None \<longrightarrow> (\<exists>ks. ks \<noteq> [] \<and> (\<forall>k \<in> set ks. plain_key k) \<and> f = join_path ks)"
    using extract_schema_plain[where iter = iter1, OF assms(1) plain_decoded[OF assms(1,2)] assms(5)] by (elim exE conjE)
  obtain c where c: "extract_schema iter2 data = Inr c" "finite (dom c)"
    "\<forall>ks. ks \<noteq> [] \<longrightarrow> (\<forall>k \<in> set ks. plain_key k) \<longrightarrow> c (join_path ks) = type_at cms ks"
    "\<forall>f. c f \<noteq> None \<longrightarrow> (\<exists>ks. ks \<noteq> [] \<and> (\<forall>k \<in> set ks. plain_key k) \<and> f = join_path ks)"
    using extract_schema_plain[where iter = iter2, OF assms(3) plain_decoded[OF assms(3,4)] assms(6)] by (elim exE conjE)
  let ?v = "v\<lparr>vd_baseline := Some b\<rparr>" and ?ms = "diff_schemas (b_orders b) (c_orders c) b c"
  have "learn iter1 base v = (None, ?v)" by (rule learn_extracts[OF b(1)])
  moreover have "validate iter2 b_orders c_orders data ?v = (Inr ?ms, ?v)"
    by (rule validate_learnt[OF c(1)]) simp
  moreover have "sorted_wrt (<) (map mm_field ?ms)"
    by (rule diff_schemas_spec(2)[OF assms(7)[OF b(2)] assms(8)[OF c(2)]])
  moreover have "m \<in> set ?ms \<longleftrightarrow> (\<exists>ks. ks \<noteq> [] \<and> (\<forall>k \<in> set ks. plain_key k) \<and> mm_field m = join_path ks
          \<and> mismatch_of (type_at bms ks) (type_at cms ks) m)" for m
    unfolding diff_schemas_spec(1)[OF assms(7)[OF b(2)] assms(8)[OF c(2)]]
    by (rule fields_of_plain_schemas[OF b(3) c(3)]) (use b(4) c(4) in blast)
  ultimately show ?thesis by blast
qed

lemma unmarshal_witness_base: "unmarshal ''{\"a\":{\"b\":null}}'' = Inr (JObj [(''a'', JObj [(''b'', JNull)])])"
  by code_simp

lemma unmarshal_witness_data: "unmarshal ''{\"a\":{\"b\":[]}}'' = Inr (JObj [(''a'', JObj [(''b'', JArr [])])])"
  by code_simp

lemma reordered_refl: "reordered v v"
proof (induction v)
  case (JObj ms)
  then have "list_all2 (\<lambda>m m'. fst m = fst m' \<and> reordered (snd m) (snd m')) ms ms"
    by (auto simp: list_all2_same snds.simps)
  then show ?case by (rule same_object) simp
qed (simp_all add: same_leaf)

lemma distinct_set_single: "set xs = {x} \<Longrightarrow> distinct xs \<Longrightarrow> xs = [x]"
  by (cases xs; cases "tl xs") auto

definition some_order :: "schema \<Rightarrow> (gostring \<times> gostring) list" where
  "some_order s = (SOME xs. enumerates s xs)"

lemma some_order: "finite (dom s) \<Longrightarrow> enumerates s (some_order s)"
  unfolding some_order_def by (rule someI_ex) (rule enumerates_exists)

lemma validate_reports_differences_witness:
  "\<exists>v' ms. learn id ''{\"a\":{\"b\":null}}'' new_validator = (None, v')
    \<and> validate id some_order some_order ''{\"a\":{\"b\":[]}}'' v' = (Inr ms, v')
    \<and> \<lparr>mm_kind = type_change, mm_field = ''a.b'', mm_baseline = ''null'', mm_current = ''array''\<rparr> \<in> set ms"
proof -
  have p: "plain_keys (JObj [(''a'', JObj [(''b'', JNull)])])" "plain_keys (JObj [(''a'', JObj [(''b'', JArr [])])])"
    by (simp_all add: plain_key_def)
  obtain v' ms where *: "learn id ''{\"a\":{\"b\":null}}'' new_validator = (None, v')"
    "validate id some_order some_order ''{\"a\":{\"b\":[]}}'' v' = (Inr ms, v')"
    and m: "\<And>m. m \<in> set ms \<longleftrightarrow>
        (\<exists>ks. ks \<noteq> [] \<and> (\<forall>k \<in> set ks. plain_key k) \<and> mm_field m = join_path ks
          \<and> mismatch_of (type_at [(''a'', JObj [(''b'', JNull)])] ks) (type_at [(''a'', JObj [(''b'', JArr [])])] ks) m)"
    using validate_reports_differences[OF unmarshal_witness_base p(1) unmarshal_witness_data p(2),
      of id id some_order some_order new_validator] some_order reordered_refl by auto
  have "\<lparr>mm_kind = type_change, mm_field = ''a.b'', mm_baseline = ''null'', mm_current = ''array''\<rparr> \<in> set ms"
    unfolding m by (rule exI[of _ "[''a'', ''b'']"]) (simp add: plain_key_def type_at_def)
  with * show ?thesis by blast
qed

text \<open>
  A key that contains a dot shares its path with a nested field, and which of the two types is
  recorded depends on the order in which the map is visited: comparing a response with itself can
  report a changed type.
\<close>

theorem same_response_may_mismatch:
  "\<exists>iter1 iter2 v'. (\<forall>v. reordered v (iter1 v) \<and> reordered v (iter2 v))
    \<and> learn iter1 ''{\"a\":{\"b\":null},\"a.b\":[]}'' new_validator = (None, v')
    \<and> validate iter2 some_order some_order ''{\"a\":{\"b\":null},\"a.b\":[]}'' v'
      = (Inr [\<lparr>mm_kind = type_change, mm_field = ''a.b'', mm_baseline = ''array'', mm_current = ''null''\<rparr>], v')"
proof -
  let ?x = "(''a'', JObj [(''b'', JNull)])" and ?y = "(''a.b'', JArr [])"
  let ?o = "JObj [?x, ?y]"
  let ?i = "\<lambda>v. if v = ?o then JObj [?y, ?x] else v"
  let ?b = "flatten_schema [?x, ?y] [] Map.empty" and ?c = "flatten_schema [?y, ?x] [] Map.empty"
  have u: "unmarshal ''{\"a\":{\"b\":null},\"a.b\":[]}'' = Inr ?o" by code_simp
  have r: "reordered v (?i v)" for v
  proof (cases "v = ?o")
    case True
    have "reordered (JObj [?x, ?y]) (JObj [?y, ?x])"
      by (rule same_object[of _ "[?x, ?y]"]) (simp_all add: reordered_refl add_mset_commute)
    with True show ?thesis by simp
  qed (simp add: reordered_refl)
  have e: "extract_schema id ''{\"a\":{\"b\":null},\"a.b\":[]}'' = Inr ?b"
    "extract_schema ?i ''{\"a\":{\"b\":null},\"a.b\":[]}'' = Inr ?c"
    by (simp_all add: extract_schema_def u)
  let ?m = "\<lparr>mm_kind = type_change, mm_field = ''a.b'', mm_baseline = ''array'', mm_current = ''null''\<rparr>"
  let ?l = "diff_schemas (some_order ?b) (some_order ?c) ?b ?c"
  have o: "enumerates ?b (some_order ?b)" "enumerates ?c (some_order ?c)" by (rule some_order, simp)+
  have "m \<in> set ?l \<longleftrightarrow> m = ?m" for m
    unfolding diff_schemas_spec(1)[OF o]
    by (cases m) (auto simp: field_path_def split: if_splits)
  then have "set ?l = {?m}" by auto
  moreover have "distinct ?l" using diff_schemas_spec(2)[OF o] by (simp add: strict_sorted_iff distinct_map)
  ultimately have l: "?l = [?m]" by (intro distinct_set_single)
  let ?v = "new_validator\<lparr>vd_baseline := Some ?b\<rparr>"
  have v: "validate ?i some_order some_order ''{\"a\":{\"b\":null},\"a.b\":[]}'' ?v = (Inr [?m], ?v)"
    using validate_learnt[OF e(2), of ?v ?b some_order some_order] l by (simp del: flatten_schema.simps)
  have "\<forall>v. reordered v (id v) \<and> reordered v (?i v)" unfolding id_apply by (intro allI conjI reordered_refl r)
  then show ?thesis
    by (intro exI[of _ id] exI[of _ ?i] exI[of _ ?v] conjI learn_extracts[OF e(1)] v)
qed

subsection \<open>The types in a schema\<close>

definition schema_types :: "gostring set" where
  "schema_types = {''null'', ''bool'', ''number'', ''string'', ''array'', ''object''}"

lemma schema_types_names:
  "''null'' \<in> schema_types" "''bool'' \<in> schema_types" "''number'' \<in> schema_types"
  "''string'' \<in> schema_types" "''array'' \<in> schema_types" "''object'' \<in> schema_types"
  by (simp_all add: schema_types_def)

lemma ran_update: "ran s \<subseteq> T \<Longrightarrow> t \<in> T \<Longrightarrow> ran (s(f \<mapsto> t)) \<subseteq> T"
  by (auto simp: ran_def)

lemma flatten_schema_types: "ran s \<subseteq> schema_types \<Longrightarrow> ran (flatten_schema ms prefix s) \<subseteq> schema_types"
  by (induction ms prefix s rule: flatten_schema.induct) (simp_all add: ran_update schema_types_names del: fun_upd_apply)

lemma value_at_parent:
  "value_at ms (ks @ [k]) = Some v \<Longrightarrow> ks \<noteq> [] \<Longrightarrow> \<exists>ms'. value_at ms ks = Some (JObj ms')"
proof (induction ks arbitrary: ms)
  case (Cons k0 ks)
  then obtain w where w: "map_of ms k0 = Some w" "value_at (members_of w) (ks @ [k]) = Some v"
    by (auto simp: value_at_cons split: option.splits)
  show ?case
  proof (cases "ks = []")
    case True
    with w show ?thesis by (cases w) (auto simp: value_at_cons)
  next
    case False
    with Cons.IH[OF w(2) False] w(1) show ?thesis by (auto simp: value_at_cons)
  qed
qed simp

text \<open>
  C26: A schema is well typed. Every type it records is one of the six names of JSON types, so the
  name for an unknown one never occurs; and where no key of the response is empty or holds a dot, a
  path with a longer path below it is recorded as an object.
\<close>

theorem schema_well_typed:
  assumes "extract_schema iter data = Inr s"
  shows "ran s \<subseteq> {''null'', ''bool'', ''number'', ''string'', ''array'', ''object''}
    \<and> (\<forall>ms ks k. unmarshal data = Inr (JObj ms) \<longrightarrow> plain_keys (JObj ms) \<longrightarrow> reordered (JObj ms) (iter (JObj ms)) \<longrightarrow>
        ks \<noteq> [] \<longrightarrow> (\<forall>l \<in> set (ks @ [k]). plain_key l) \<longrightarrow> s (join_path (ks @ [k])) \<noteq> None \<longrightarrow> s (join_path ks) = Some ''object'')"
proof (intro conjI allI impI)
  have "ran s \<subseteq> schema_types"
    using assms flatten_schema_types[of Map.empty] by (auto simp: extract_schema_def split: sum.splits json.splits)
  then show "ran s \<subseteq> {''null'', ''bool'', ''number'', ''string'', ''array'', ''object''}" by (simp add: schema_types_def)
next
  fix ms ks k
  assume h: "unmarshal data = Inr (JObj ms)" "plain_keys (JObj ms)" "reordered (JObj ms) (iter (JObj ms))"
    "ks \<noteq> []" "\<forall>l \<in> set (ks @ [k]). plain_key l" "s (join_path (ks @ [k])) \<noteq> None"
  have at: "s (join_path ls) = type_at ms ls" if "ls \<noteq> []" "\<forall>l \<in> set ls. plain_key l" for ls
    using extract_schema_plain[where iter = iter, OF h(1) plain_decoded[OF h(1,2)] h(3)] assms that by auto
  from h(5,6) at[of "ks @ [k]"] obtain v where "value_at ms (ks @ [k]) = Some v" by (auto simp: type_at_def)
  from value_at_parent[OF this h(4)] at[of ks] h(4,5) show "s (join_path ks) = Some ''object''"
    by (auto simp: type_at_def)
qed

theorem schema_well_typed_witness:
  "\<exists>s. extract_schema id ''{\"a\":{\"b\":null}}'' = Inr s \<and> s ''a.b'' = Some ''null'' \<and> s ''a'' = Some ''object''"
proof -
  let ?ms = "[(''a'', JObj [(''b'', JNull)])]"
  have e: "extract_schema id ''{\"a\":{\"b\":null}}'' = Inr (flatten_schema ?ms [] Map.empty)"
    by (simp add: extract_schema_def unmarshal_witness_base)
  have b: "flatten_schema ?ms [] Map.empty ''a.b'' = Some ''null''" by (simp add: field_path_def)
  have j: "join_path ([''a''] @ [''b'']) = ''a.b''" by simp
  have p: "plain_keys (JObj ?ms)" "\<forall>l \<in> set ([''a''] @ [''b'']). plain_key l" by (simp_all add: plain_key_def)
  have r: "reordered (JObj ?ms) (id (JObj ?ms))" by (simp add: reordered_refl)
  have "flatten_schema ?ms [] Map.empty (join_path [''a'']) = Some ''object''"
    by (rule schema_well_typed[OF e, THEN conjunct2, rule_format, OF unmarshal_witness_base p(1) r _ p(2)[rule_format]])
      (simp_all add: field_path_def)
  with e b show ?thesis by (intro exI[of _ "flatten_schema ?ms [] Map.empty"]) simp
qed

end
