(* ===== verification/Base64.thy ===== *)
theory Base64
  imports Json
begin

section \<open>encoding/base64: RawURLEncoding\<close>

text \<open>
  \<open>base64.RawURLEncoding.DecodeString\<close>, with which \<open>ParseClaims\<close> (\<open>token/refresh.go\<close>) decodes the
  payload of a token: the alphabet with - and _, no padding, line ends skipped, bits left over in
  the last character ignored. The encoder, which the program does not call, is the reference the
  decoder is compared with.
\<close>

subsection \<open>The decoder\<close>

definition b64_value :: "char \<Rightarrow> nat option" where
  "b64_value c =
     (if in_range 65 90 c then Some (code c - 65)
      else if in_range 97 122 c then Some (code c - 71)
      else if in_range 48 57 c then Some (code c + 4)
      else if c = CHR ''-'' then Some 62
      else if c = CHR ''_'' then Some 63
      else None)"

fun b64_values :: "gostring \<Rightarrow> nat list option" where
  "b64_values [] = Some []"
| "b64_values (c # cs) =
     (if c = CHR 0x0A \<or> c = CHR 0x0D then b64_values cs
      else
        (case b64_value c of
           None \<Rightarrow> None
         | Some v \<Rightarrow> map_option ((#) v) (b64_values cs)))"

text \<open>Quanta of four characters; one of a single character is an error.\<close>

fun b64_quanta :: "nat list \<Rightarrow> nat list option" where
  "b64_quanta [] = Some []"
| "b64_quanta [a] = None"
| "b64_quanta [a, b] = Some [a * 4 + b div 16]"
| "b64_quanta [a, b, c] = Some [a * 4 + b div 16, b mod 16 * 16 + c div 4]"
| "b64_quanta (a # b # c # d # vs) =
     map_option (\<lambda>bs. (a * 4 + b div 16) # (b mod 16 * 16 + c div 4) # (c mod 4 * 64 + d) # bs) (b64_quanta vs)"

definition raw_url_decode :: "gostring \<Rightarrow> goerror + gostring" where
  "raw_url_decode s =
     (case b64_values s of
        None \<Rightarrow> Inl ''illegal base64 data''
      | Some vs \<Rightarrow>
          (case b64_quanta vs of
             None \<Rightarrow> Inl ''illegal base64 data''
           | Some bs \<Rightarrow> Inr (map byte bs)))"

subsection \<open>The reference encoder\<close>

definition b64_char :: "nat \<Rightarrow> char" where
  "b64_char n =
     byte (if n < 26 then n + 65 else if n < 52 then n + 71 else if n < 62 then n - 4 else if n = 62 then 45 else 95)"

fun b64_split :: "nat list \<Rightarrow> nat list" where
  "b64_split [] = []"
| "b64_split [x] = [x div 4, x mod 4 * 16]"
| "b64_split [x, y] = [x div 4, x mod 4 * 16 + y div 16, y mod 16 * 4]"
| "b64_split (x # y # z # bs) =
     x div 4 # (x mod 4 * 16 + y div 16) # (y mod 16 * 4 + z div 64) # z mod 64 # b64_split bs"

definition raw_url_encode :: "gostring \<Rightarrow> gostring" where
  "raw_url_encode s = map b64_char (b64_split (map code s))"

subsection \<open>Decoding what was encoded\<close>

lemma code_less [simp]: "code c < 256"
  unfolding code_def by (rule nat_of_char_less_256)

lemma byte_eq: "m < 256 \<Longrightarrow> byte m = c \<longleftrightarrow> m = code c"
  by (metis byte_code code_byte)

lemma b64_char_value:
  assumes "n < 64"
  shows "b64_value (b64_char n) = Some n"
    and "b64_char n \<noteq> CHR 0x0A" "b64_char n \<noteq> CHR 0x0D" "b64_char n \<noteq> CHR ''.''"
proof -
  have c: "code CHR 0x0A = 10" "code CHR 0x0D = 13" "code CHR ''.'' = 46" "code CHR ''-'' = 45" "code CHR ''_'' = 95"
    by (simp_all add: code_def)
  show "b64_value (b64_char n) = Some n"
    using assms by (auto simp: b64_value_def b64_char_def in_range_def byte_eq c)
  show "b64_char n \<noteq> CHR 0x0A" "b64_char n \<noteq> CHR 0x0D" "b64_char n \<noteq> CHR ''.''"
    using assms by (auto simp: b64_char_def byte_eq c)
qed

lemma b64_values_map: "\<forall>v \<in> set vs. v < 64 \<Longrightarrow> b64_values (map b64_char vs) = Some vs"
  by (induction vs) (simp_all add: b64_char_value)

lemma b64_split_range: "\<forall>x \<in> set bs. x < 256 \<Longrightarrow> \<forall>v \<in> set (b64_split bs). v < 64"
  by (induction bs rule: b64_split.induct) auto

lemma b64_quanta_split: "\<forall>x \<in> set bs. x < 256 \<Longrightarrow> b64_quanta (b64_split bs) = Some bs"
  by (induction bs rule: b64_split.induct) auto

lemma raw_url_decode_encode: "raw_url_decode (raw_url_encode s) = Inr s"
proof -
  have r: "\<forall>x \<in> set (map code s). x < 256" by simp
  show ?thesis
    by (simp add: raw_url_decode_def raw_url_encode_def b64_values_map[OF b64_split_range[OF r]]
        b64_quanta_split[OF r] comp_def)
qed

lemma raw_url_encode_no_dot: "CHR ''.'' \<notin> set (raw_url_encode s)"
proof -
  have "\<forall>v \<in> set (b64_split (map code s)). v < 64" by (rule b64_split_range) simp
  then show ?thesis unfolding raw_url_encode_def using b64_char_value(4) by force
qed

text \<open>What the decoder accepts has no byte outside the alphabet but line ends.\<close>

lemma raw_url_decode_alphabet:
  "raw_url_decode s = Inr t \<Longrightarrow> c \<in> set s \<Longrightarrow> c \<in> {CHR 0x0A, CHR 0x0D} \<or> b64_value c \<noteq> None"
proof -
  assume "raw_url_decode s = Inr t" and c: "c \<in> set s"
  then have "b64_values s \<noteq> None" by (auto simp: raw_url_decode_def split: option.splits)
  with c show ?thesis by (induction s) (auto split: if_splits option.splits)
qed

end
