(* ===== verification/Token_Claims.thy ===== *)
theory Token_Claims
  imports Base64 "HOL-Library.Signed_Division"
begin

section \<open>token/refresh.go: claims and expiry\<close>

text \<open>
  The claims of a JWT, when it is expired and when the auto-refresh loop of
  \<open>TokenRefreshManager\<close> renews it. The clock is an argument.
\<close>

subsection \<open>Claims\<close>

text \<open>\<open>strings.Split\<close> for a separator of one byte.\<close>

fun split_on :: "char \<Rightarrow> gostring \<Rightarrow> gostring list" where
  "split_on c [] = [[]]"
| "split_on c (x # xs) =
     (if x = c then [] # split_on c xs else (x # hd (split_on c xs)) # tl (split_on c xs))"

text \<open>A claim set is a map; decoding \<open>null\<close> leaves the nil map, which has no keys.\<close>

type_synonym claims = "(gostring \<times> json) list option"

definition claim :: "claims \<Rightarrow> gostring \<Rightarrow> json option" where
  "claim cs k = (case cs of None \<Rightarrow> None | Some ms \<Rightarrow> map_of ms k)"

definition unmarshal_claims :: "gostring \<Rightarrow> goerror + claims" where
  "unmarshal_claims data =
     (case unmarshal data of
        Inl e \<Rightarrow> Inl e
      | Inr (JObj ms) \<Rightarrow> Inr (Some ms)
      | Inr JNull \<Rightarrow> Inr None
      | Inr v \<Rightarrow> Inl ''json: cannot unmarshal into Go value of type map[string]interface {}'')"

definition parse_claims :: "gostring \<Rightarrow> goerror + claims" where
  "parse_claims token =
     (let parts = split_on CHR ''.'' token in
      if length parts \<noteq> 3
      then Inl (''token: malformed JWT: expected 3 segments, got '' @ decimal (int (length parts)))
      else
        (case raw_url_decode (parts ! 1) of
           Inl e \<Rightarrow> Inl (''token: decode JWT payload: '' @ e)
         | Inr payload \<Rightarrow>
             (case unmarshal_claims payload of
                Inl e \<Rightarrow> Inl (''token: unmarshal JWT claims: '' @ e)
              | Inr cs \<Rightarrow> Inr cs)))"

definition is_expired :: "gotime \<Rightarrow> gostring \<Rightarrow> bool" where
  "is_expired now token =
     (case parse_claims token of
        Inl e \<Rightarrow> True
      | Inr cs \<Rightarrow>
          (case claim cs ''exp'' of
             None \<Rightarrow> False
           | Some (JNum x) \<Rightarrow> time_unix now \<ge> int64_of x
           | Some v \<Rightarrow> False))"

subsection \<open>Deadlines\<close>

text \<open>
  A \<open>time.Time\<close> without a monotonic reading: seconds since year 1 in an \<open>int64\<close>, and nanoseconds.
  \<open>time.Unix\<close> wraps around, \<open>Add\<close> saturates, \<open>After\<close> compares the two parts.
\<close>

definition wrap64 :: "int \<Rightarrow> int" where
  "wrap64 x = (x + 2 ^ 63) mod 2 ^ 64 - 2 ^ 63"

definition unix_to_internal :: int where
  "unix_to_internal = 62135596800"

definition time_of_unix :: "int \<Rightarrow> int \<times> int" where
  "time_of_unix sec = (wrap64 (sec + unix_to_internal), 0)"

definition add_sec :: "int \<Rightarrow> int \<Rightarrow> int" where
  "add_sec ext d =
     (let sum = wrap64 (ext + d) in
      if (sum > ext) = (d > 0) then sum else if d > 0 then 2 ^ 63 - 1 else - (2 ^ 63 - 1))"

definition time_add :: "int \<times> int \<Rightarrow> int \<Rightarrow> int \<times> int" where
  "time_add t d =
     (let dsec = d sdiv 1000000000; nsec = snd t + d smod 1000000000;
          (dsec, nsec) = (if nsec \<ge> 1000000000 then (dsec + 1, nsec - 1000000000)
                          else if nsec < 0 then (dsec - 1, nsec + 1000000000) else (dsec, nsec))
      in (add_sec (fst t) dsec, nsec))"

definition time_after :: "gotime \<Rightarrow> int \<times> int \<Rightarrow> bool" where
  "time_after now t =
     (let (s, n) = (case now of At s n \<Rightarrow> (s + unix_to_internal, int n) | ZeroTime \<Rightarrow> (0, 0)) in
      s > fst t \<or> s = fst t \<and> n > snd t)"

text \<open>One tick of \<open>StartAutoRefresh\<close>: whether it calls \<open>Refresh\<close>.\<close>

definition refresh_due :: "gotime \<Rightarrow> int \<Rightarrow> gostring \<Rightarrow> bool" where
  "refresh_due now refresh_before tok =
     (if tok = [] then False
      else
        (case parse_claims tok of
           Inl e \<Rightarrow> True
         | Inr cs \<Rightarrow>
             (case claim cs ''exp'' of
                Some (JNum x) \<Rightarrow>
                  (let deadline = time_add (time_of_unix (int64_of x)) (wrap64 (- refresh_before))
                   in time_after now deadline)
              | _ \<Rightarrow> False)))"

subsection \<open>Segments\<close>

lemma split_on_nonempty [simp]: "split_on c s \<noteq> []"
  by (cases s) auto

lemma split_on_first: "c \<notin> set p \<Longrightarrow> split_on c (p @ c # s) = p # split_on c s"
  by (induction p) auto

lemma split_on_none: "c \<notin> set p \<Longrightarrow> split_on c p = [p]"
  by (induction p) auto

lemma split_on_three:
  assumes "length (split_on c s) = 3"
  obtains h p t where "s = h @ c # p @ c # t" "c \<notin> set h" "c \<notin> set p" "c \<notin> set t"
proof -
  have one: "c \<notin> set s" if "length (split_on c s) = 1" for s
  proof
    assume "c \<in> set s"
    then obtain p r where "s = p @ c # r" "c \<notin> set p" by (meson split_list_first)
    with that show False using split_on_first[of c p r] by simp
  qed
  have more: "\<exists>p r. s = p @ c # r \<and> c \<notin> set p \<and> length (split_on c r) = n"
    if "length (split_on c s) = Suc n" "n \<noteq> 0" for s n
  proof -
    have "c \<in> set s" using that split_on_none[of c s] by (cases "c \<in> set s") auto
    then obtain p r where "s = p @ c # r" "c \<notin> set p" by (meson split_list_first)
    with that show ?thesis using split_on_first[of c p r] by auto
  qed
  from more[of s 2] assms obtain h r where h: "s = h @ c # r" "c \<notin> set h" "length (split_on c r) = 2" by auto
  from more[of r 1] h(3) obtain p t where "r = p @ c # t" "c \<notin> set p" "length (split_on c t) = 1" by auto
  with h one[of t] that show thesis by blast
qed

text \<open>
  What \<open>ParseClaims\<close> needs of the encoding of a segment: it can be undone, and it does not
  contain the separator.
\<close>

locale segment_codec =
  fixes sep :: char and encode :: "gostring \<Rightarrow> gostring" and decode :: "gostring \<Rightarrow> goerror + gostring"
  assumes decode_encode: "decode (encode s) = Inr s"
    and encode_no_sep: "sep \<notin> set (encode s)"
begin

lemma segments:
  assumes "sep \<notin> set h" "sep \<notin> set t"
  shows "split_on sep (h @ sep # encode p @ sep # t) = [h, encode p, t]"
  using assms encode_no_sep[of p] by (simp add: split_on_first split_on_none)

lemma middle_segment:
  assumes "sep \<notin> set h" "sep \<notin> set t"
  shows "length (split_on sep (h @ sep # encode p @ sep # t)) = 3"
    and "decode (split_on sep (h @ sep # encode p @ sep # t) ! 1) = Inr p"
  by (simp_all add: segments[OF assms] decode_encode)

end

interpretation base64url: segment_codec "CHR ''.''" raw_url_encode raw_url_decode
  by unfold_locales (simp_all add: raw_url_decode_encode raw_url_encode_no_dot)

text \<open>The token with a given payload.\<close>

definition jwt :: "gostring \<Rightarrow> gostring \<Rightarrow> gostring \<Rightarrow> gostring" where
  "jwt header payload signature = header @ CHR ''.'' # raw_url_encode payload @ CHR ''.'' # signature"

lemma parse_claims_jwt:
  assumes "CHR ''.'' \<notin> set h" "CHR ''.'' \<notin> set t"
  shows "parse_claims (jwt h p t) =
    (case unmarshal_claims p of Inl e \<Rightarrow> Inl (''token: unmarshal JWT claims: '' @ e) | Inr cs \<Rightarrow> Inr cs)"
  using base64url.middle_segment[OF assms, of p]
  by (simp add: parse_claims_def jwt_def Let_def)

text \<open>
  C27: \<open>ParseClaims\<close> accepts a token exactly when it has three segments and the middle one decodes
  as base64url to a JSON object or \<open>null\<close>; then it returns the members of that object. Every
  other token gives an error, and every payload encoded without padding is read back.
\<close>

theorem parse_claims_exact:
  "(parse_claims token = Inr cs \<longleftrightarrow>
     (\<exists>h s t p. token = h @ CHR ''.'' # s @ CHR ''.'' # t \<and> CHR ''.'' \<notin> set (h @ s @ t)
        \<and> raw_url_decode s = Inr p
        \<and> unmarshal p = Inr (case cs of None \<Rightarrow> JNull | Some ms \<Rightarrow> JObj ms)))
   \<and> raw_url_decode (raw_url_encode payload) = Inr payload
   \<and> CHR ''.'' \<notin> set (raw_url_encode payload)"
proof -
  have claims: "unmarshal_claims p = Inr cs \<longleftrightarrow> unmarshal p = Inr (case cs of None \<Rightarrow> JNull | Some ms \<Rightarrow> JObj ms)" for p
    by (auto simp: unmarshal_claims_def split: sum.split json.split option.split)
  have "parse_claims token = Inr cs \<longleftrightarrow>
     (\<exists>h s t p. token = h @ CHR ''.'' # s @ CHR ''.'' # t \<and> CHR ''.'' \<notin> set (h @ s @ t)
        \<and> raw_url_decode s = Inr p \<and> unmarshal_claims p = Inr cs)"
  proof
    assume ok: "parse_claims token = Inr cs"
    then have len: "length (split_on CHR ''.'' token) = 3"
      by (auto simp: parse_claims_def Let_def split: if_splits)
    then obtain h s t where tok: "token = h @ CHR ''.'' # s @ CHR ''.'' # t"
      "CHR ''.'' \<notin> set h" "CHR ''.'' \<notin> set s" "CHR ''.'' \<notin> set t" by (rule split_on_three)
    then have "split_on CHR ''.'' token ! 1 = s" by (simp add: split_on_first)
    with ok len obtain p where "raw_url_decode s = Inr p" "unmarshal_claims p = Inr cs"
      by (auto simp: parse_claims_def Let_def split: sum.splits)
    with tok show "\<exists>h s t p. token = h @ CHR ''.'' # s @ CHR ''.'' # t \<and> CHR ''.'' \<notin> set (h @ s @ t)
        \<and> raw_url_decode s = Inr p \<and> unmarshal_claims p = Inr cs" by auto
  next
    assume "\<exists>h s t p. token = h @ CHR ''.'' # s @ CHR ''.'' # t \<and> CHR ''.'' \<notin> set (h @ s @ t)
        \<and> raw_url_decode s = Inr p \<and> unmarshal_claims p = Inr cs"
    then obtain h s t p where "token = h @ CHR ''.'' # s @ CHR ''.'' # t" "CHR ''.'' \<notin> set (h @ s @ t)"
      "raw_url_decode s = Inr p" "unmarshal_claims p = Inr cs" by blast
    then show "parse_claims token = Inr cs"
      by (simp add: parse_claims_def split_on_first split_on_none)
  qed
  then show ?thesis by (simp add: claims raw_url_decode_encode raw_url_encode_no_dot)
qed

subsection \<open>Expiry and the refresh deadline\<close>

lemma wrap64_id: "- (2 ^ 63) \<le> x \<Longrightarrow> x < 2 ^ 63 \<Longrightarrow> wrap64 x = x"
  by (simp add: wrap64_def)

lemma sdiv_smod_nanos:
  fixes d :: int
  shows "(if d smod 1000000000 < 0 then d sdiv 1000000000 - 1 else d sdiv 1000000000) = d div 1000000000"
    and "(if d smod 1000000000 < 0 then d smod 1000000000 + 1000000000 else d smod 1000000000) = d mod 1000000000"
    and "d smod 1000000000 < 1000000000"
proof -
  have nonneg: "d sdiv 1000000000 = d div 1000000000 \<and> d smod 1000000000 = d mod 1000000000" if "0 \<le> d"
    using that by (simp add: signed_divide_int_def signed_modulo_int_def minus_div_mult_eq_mod sgn_if)
  have neg: "d sdiv 1000000000 = - (- d div 1000000000) \<and> d smod 1000000000 = - (- d mod 1000000000)" if "d < 0"
    using that minus_div_mult_eq_mod[of "- d" 1000000000]
    by (simp add: signed_divide_int_def signed_modulo_int_def sgn_if)
  have floor: "(if - (a mod 1000000000) < 0 then - (a div 1000000000) - 1 else - (a div 1000000000)) = - a div 1000000000"
    "(if - (a mod 1000000000) < 0 then - (a mod 1000000000) + 1000000000 else - (a mod 1000000000)) = - a mod 1000000000"
    for a :: int
    using pos_mod_sign[of 1000000000 a] by (auto simp: zdiv_zminus1_eq_if zmod_zminus1_eq_if)
  show "(if d smod 1000000000 < 0 then d sdiv 1000000000 - 1 else d sdiv 1000000000) = d div 1000000000"
  proof (cases "0 \<le> d")
    case False
    then have "d < 0" by simp
    note e = conjunct1[OF neg[OF this]] conjunct2[OF neg[OF this]]
    show ?thesis unfolding e by (rule floor(1)[of "- d", unfolded minus_minus])
  qed (use nonneg in simp)
  show "(if d smod 1000000000 < 0 then d smod 1000000000 + 1000000000 else d smod 1000000000) = d mod 1000000000"
  proof (cases "0 \<le> d")
    case False
    then have "d < 0" by simp
    note e = conjunct1[OF neg[OF this]] conjunct2[OF neg[OF this]]
    show ?thesis unfolding e by (rule floor(2)[of "- d", unfolded minus_minus])
  qed (use nonneg in simp)
  show "d smod 1000000000 < 1000000000"
  proof (cases "0 \<le> d")
    case False
    then have "d < 0" by simp
    moreover have "0 \<le> - d mod 1000000000" by simp
    ultimately show ?thesis using neg by linarith
  qed (use nonneg in simp)
qed

lemma time_add_exact:
  assumes "- (2 ^ 62) \<le> e" "e \<le> 2 ^ 62 + 2 ^ 36" "- (2 ^ 63) < d" "d < 2 ^ 63"
  shows "time_add (e, 0) d = (e + d div 1000000000, d mod 1000000000)"
proof -
  have q: "- (2 ^ 34) \<le> d div 1000000000" "d div 1000000000 \<le> 2 ^ 34" using assms(3,4) by auto
  then have "wrap64 (e + d div 1000000000) = e + d div 1000000000" using assms by (intro wrap64_id) simp_all
  then have "add_sec e (d div 1000000000) = e + d div 1000000000" by (simp add: add_sec_def)
  with sdiv_smod_nanos[of d] show ?thesis by (auto simp: time_add_def Let_def split: if_splits)
qed

lemma time_after_exact:
  assumes "0 \<le> e" "e \<le> 2 ^ 62" "- (2 ^ 63) < d" "d < 2 ^ 63" "n < 1000000000"
  shows "time_after (At s n) (time_add (time_of_unix e) d) \<longleftrightarrow> s * 1000000000 + int n > e * 1000000000 + d"
proof -
  have "time_of_unix e = (e + unix_to_internal, 0)"
    using assms by (simp add: time_of_unix_def unix_to_internal_def wrap64_id)
  then have "time_add (time_of_unix e) d = (e + unix_to_internal + d div 1000000000, d mod 1000000000)"
    using assms by (simp add: time_add_exact unix_to_internal_def)
  then have "time_after (At s n) (time_add (time_of_unix e) d) \<longleftrightarrow>
      s > e + d div 1000000000 \<or> s = e + d div 1000000000 \<and> int n > d mod 1000000000"
    by (auto simp: time_after_def)
  also have "\<dots> \<longleftrightarrow> s * 1000000000 + int n > e * 1000000000 + d"
  proof -
    define q r where "q = d div 1000000000" and "r = d mod 1000000000"
    have d: "d = q * 1000000000 + r" "0 \<le> r" "r < 1000000000" by (simp_all add: q_def r_def)
    have n: "0 \<le> int n" "int n < 1000000000" using assms(5) by simp_all
    show ?thesis unfolding q_def[symmetric] r_def[symmetric]
    proof (cases s "e + q" rule: linorder_cases)
      case less
      then have "s + 1 \<le> e + q" by simp
      with d n show "s > e + q \<or> s = e + q \<and> int n > r \<longleftrightarrow> s * 1000000000 + int n > e * 1000000000 + d" by linarith
    next
      case equal
      with d n show "s > e + q \<or> s = e + q \<and> int n > r \<longleftrightarrow> s * 1000000000 + int n > e * 1000000000 + d"
        by (auto simp: algebra_simps)
    next
      case greater
      then have "e + q + 1 \<le> s" by simp
      with d n show "s > e + q \<or> s = e + q \<and> int n > r \<longleftrightarrow> s * 1000000000 + int n > e * 1000000000 + d" by linarith
    qed
  qed
  finally show ?thesis .
qed

text \<open>
  C28: For a token whose payload has a numeric \<open>exp\<close> with a whole part between 0 and 2 to the 62nd seconds, both
  included, and a margin other than the least \<open>int64\<close>, a tick of the auto-refresh calls \<open>Refresh\<close> exactly when the current time, in nanoseconds, is past
  \<open>exp\<close> less the margin, with no overflow in between, and \<open>IsExpired\<close> holds exactly from the second
  \<open>exp\<close> on, for an \<open>exp\<close> of zero too (which its comment excepts). So with a positive margin a token that
  counts as expired is due for refresh, and without one a token that is due counts as expired.
\<close>

theorem refresh_due_exact:
  assumes "CHR ''.'' \<notin> set h" "CHR ''.'' \<notin> set t" "unmarshal p = Inr (JObj ms)"
    and "map_of ms ''exp'' = Some (JNum x)" "0 \<le> int64_of x" "int64_of x \<le> 2 ^ 62"
    and "- (2 ^ 63) < before" "before < 2 ^ 63" "n < 1000000000"
  shows "(refresh_due (At s n) before (jwt h p t) \<longleftrightarrow> s * 1000000000 + int n > int64_of x * 1000000000 - before)
    \<and> (is_expired (At s n) (jwt h p t) \<longleftrightarrow> s \<ge> int64_of x)
    \<and> (0 < before \<longrightarrow> is_expired (At s n) (jwt h p t) \<longrightarrow> refresh_due (At s n) before (jwt h p t))
    \<and> (before \<le> 0 \<longrightarrow> refresh_due (At s n) before (jwt h p t) \<longrightarrow> is_expired (At s n) (jwt h p t))"
proof -
  have cs: "parse_claims (jwt h p t) = Inr (Some ms)"
    by (simp add: parse_claims_jwt[OF assms(1,2)] unmarshal_claims_def assms(3))
  have "wrap64 (- before) = - before" using assms(7,8) by (intro wrap64_id) simp_all
  then have due: "refresh_due (At s n) before (jwt h p t) \<longleftrightarrow> s * 1000000000 + int n > int64_of x * 1000000000 - before"
    using time_after_exact[of "int64_of x" "- before" n s] assms(4-9)
    by (simp add: refresh_due_def cs claim_def) (simp add: jwt_def)
  have exp: "is_expired (At s n) (jwt h p t) \<longleftrightarrow> s \<ge> int64_of x"
    by (simp add: is_expired_def cs claim_def assms(4))
  have "s * 1000000000 + int n > int64_of x * 1000000000 - before" if "0 < before" "s \<ge> int64_of x"
    using that by linarith
  moreover have "s \<ge> int64_of x" if "before \<le> 0" "s * 1000000000 + int n > int64_of x * 1000000000 - before"
    using that assms(9) by linarith
  ultimately show ?thesis using due exp by blast
qed

lemma unmarshal_exp: "unmarshal ''{\"exp\":60}'' = Inr (JObj [(''exp'', JNum 60)])"
  by code_simp

lemma refresh_due_exact_witness:
  "refresh_due (At 41 0) 20000000000 (jwt ''h'' ''{\"exp\":60}'' ''s'')
    \<and> \<not> refresh_due (At 40 0) 20000000000 (jwt ''h'' ''{\"exp\":60}'' ''s'')"
  using refresh_due_exact[of "''h''" "''s''", OF _ _ unmarshal_exp, of 60 20000000000 0]
  by (simp add: int64_of_def)

text \<open>
  At the ends of its range \<open>exp\<close> is not treated as its comment or its sender says: a token with
  \<open>exp\<close> zero counts as expired, and so does one with an \<open>exp\<close> of ten to the nineteenth, in the far
  future, which does not fit an \<open>int64\<close>.
\<close>

theorem expiry_edges:
  "is_expired (At 1700000000 0) (jwt ''h'' ''{\"exp\":0}'' ''s'')
    \<and> is_expired (At 1700000000 0) (jwt ''h'' ''{\"exp\":1e19}'' ''s'')"
proof -
  have "unmarshal ''{\"exp\":0}'' = Inr (JObj [(''exp'', JNum 0)])"
    "unmarshal ''{\"exp\":1e19}'' = Inr (JObj [(''exp'', JNum 10000000000000000000)])" by code_simp+
  then show ?thesis
    by (simp add: is_expired_def parse_claims_jwt unmarshal_claims_def claim_def int64_of_def)
qed

end
