(* ===== verification/Token_Refresh.thy ===== *)
theory Token_Refresh
  imports Token_Claims Http_Headers
begin

section \<open>token/refresh.go: the token refresh manager\<close>

text \<open>
  \<open>TokenRefreshManager\<close>: the refresh request, the heartbeat request, and the background goroutines
  as a step relation in which they interleave with callers of \<open>SetToken\<close>, \<open>Refresh\<close> and \<open>Stop\<close>. HTTP
  exchanges and the clock are arguments.
\<close>

subsection \<open>The manager\<close>

text \<open>\<open>tm_stopped\<close>: the stop channel is closed, by the one call \<open>once\<close> lets through.\<close>

record token_manager =
  tm_token :: gostring
  tm_refresh_url :: gostring
  tm_heartbeat_url :: gostring
  tm_stopped :: bool

definition new_token_manager :: "gostring \<Rightarrow> gostring \<Rightarrow> token_manager" where
  "new_token_manager refresh_url heartbeat_url =
     \<lparr>tm_token = [], tm_refresh_url = refresh_url, tm_heartbeat_url = heartbeat_url, tm_stopped = False\<rparr>"

definition set_token :: "gostring \<Rightarrow> token_manager \<Rightarrow> token_manager" where
  "set_token token m = m\<lparr>tm_token := token\<rparr>"

definition get_token :: "token_manager \<Rightarrow> gostring" where
  "get_token m = tm_token m"

definition token_stop :: "token_manager \<Rightarrow> token_manager" where
  "token_stop m = (if tm_stopped m then m else m\<lparr>tm_stopped := True\<rparr>)"

text \<open>
  A response: its status, its body, the error that ends the body, if one does, and whether the reader
  returns the end together with the last bytes or by a further read.
\<close>

record http_reply =
  rp_status :: int
  rp_body :: gostring
  rp_error :: "goerror option"
  rp_with_last :: bool

text \<open>
  \<open>io.ReadAll\<close> of a reader limited to \<open>n\<close> bytes: an error behind them is not seen, unless it comes with
  the last of them.
\<close>

definition read_limited :: "nat \<Rightarrow> http_reply \<Rightarrow> goerror + gostring" where
  "read_limited n r =
     (if n < length (rp_body r) \<or> n = length (rp_body r) \<and> \<not> rp_with_last r then Inr (take n (rp_body r))
      else (case rp_error r of Some e \<Rightarrow> Inl e | None \<Rightarrow> Inr (rp_body r)))"

definition token_limit :: nat where
  "token_limit = 8192"

definition refresh :: "(gostring \<Rightarrow> goerror + http_reply) \<Rightarrow> token_manager \<Rightarrow> goerror option \<times> token_manager" where
  "refresh get m =
     (if tm_refresh_url m = [] then (Some ''token: refresh URL is not configured'', m)
      else
        (case get (tm_refresh_url m) of
           Inl e \<Rightarrow> (Some (''token: refresh request: '' @ e), m)
         | Inr resp \<Rightarrow>
             if rp_status resp < 200 \<or> rp_status resp \<ge> 300
             then (Some (''token: refresh returned HTTP '' @ decimal (rp_status resp)), m)
             else
               (case read_limited token_limit resp of
                  Inl e \<Rightarrow> (Some (''token: read refresh response: '' @ e), m)
                | Inr body \<Rightarrow>
                    (let new_token = trim_space body in
                     if new_token = [] then (Some ''token: refresh returned empty token'', m)
                     else (None, set_token new_token m)))))"

text \<open>
  \<open>new_request\<close> is \<open>http.NewRequest\<close> (an error, or a request with no header) and \<open>do\<close> the client.
  The token is read between the two, when it is \<open>tm_token m\<close>.
\<close>

definition bearer :: "gostring \<Rightarrow> http_header \<Rightarrow> http_header" where
  "bearer tok h = (if tok \<noteq> [] then header_set ''Authorization'' (''Bearer '' @ tok) h else h)"

definition send_heartbeat ::
  "(gostring \<Rightarrow> goerror option) \<Rightarrow> (gostring \<Rightarrow> http_header \<Rightarrow> goerror + http_reply) \<Rightarrow> token_manager
   \<Rightarrow> goerror option" where
  "send_heartbeat new_request do m =
     (if tm_heartbeat_url m = [] then Some ''token: heartbeat URL is not configured''
      else
        (case new_request (tm_heartbeat_url m) of
           Some e \<Rightarrow> Some (''token: build heartbeat request: '' @ e)
         | None \<Rightarrow>
             (case do (tm_heartbeat_url m) (bearer (get_token m) Map.empty) of
                Inl e \<Rightarrow> Some (''token: heartbeat request: '' @ e)
              | Inr resp \<Rightarrow>
                  if rp_status resp < 200 \<or> rp_status resp \<ge> 300
                  then Some (''token: heartbeat returned HTTP '' @ decimal (rp_status resp))
                  else None)))"

subsection \<open>The goroutines\<close>

text \<open>
  A goroutine of \<open>StartHeartbeat\<close> or \<open>StartAutoRefresh\<close> waits in its \<open>select\<close>, is inside the call of
  \<open>Refresh\<close>, or has returned. A \<open>select\<close> with both a tick and the closed channel ready may take
  either. \<open>Refresh\<close> changes the manager only at its end, so it is the step that ends it, also where a
  caller of its own calls it.
\<close>

datatype token_goroutine = HeartbeatLoop | RefreshLoop int | Refreshing int | Returned

record token_world =
  tw_manager :: token_manager
  tw_loops :: "token_goroutine list"

datatype token_event =
    SetToken gostring
  | StopCalled
  | RefreshCalled "goerror + http_reply"
  | StartHeartbeat
  | StartAutoRefresh int
  | Beat nat
  | Check nat gotime
  | Refreshed nat "goerror + http_reply"
  | Exits nat

inductive token_step :: "token_world \<Rightarrow> token_event \<Rightarrow> token_world \<Rightarrow> bool" where
  ts_set: "token_step w (SetToken t) (w\<lparr>tw_manager := set_token t (tw_manager w)\<rparr>)"
| ts_stop: "token_step w StopCalled (w\<lparr>tw_manager := token_stop (tw_manager w)\<rparr>)"
| ts_refresh_call: "refresh (\<lambda>url. reply) (tw_manager w) = (err, m')
    \<Longrightarrow> token_step w (RefreshCalled reply) (w\<lparr>tw_manager := m'\<rparr>)"
| ts_start_heartbeat: "token_step w StartHeartbeat (w\<lparr>tw_loops := tw_loops w @ [HeartbeatLoop]\<rparr>)"
| ts_start_refresh: "token_step w (StartAutoRefresh b) (w\<lparr>tw_loops := tw_loops w @ [RefreshLoop b]\<rparr>)"
| ts_beat: "i < length (tw_loops w) \<Longrightarrow> tw_loops w ! i = HeartbeatLoop \<Longrightarrow> token_step w (Beat i) w"
| ts_check: "i < length (tw_loops w) \<Longrightarrow> tw_loops w ! i = RefreshLoop b
    \<Longrightarrow> token_step w (Check i now)
          (w\<lparr>tw_loops := (tw_loops w)[i := if refresh_due now b (get_token (tw_manager w))
                                         then Refreshing b else RefreshLoop b]\<rparr>)"
| ts_refreshed: "i < length (tw_loops w) \<Longrightarrow> tw_loops w ! i = Refreshing b
    \<Longrightarrow> refresh (\<lambda>url. reply) (tw_manager w) = (err, m')
    \<Longrightarrow> token_step w (Refreshed i reply) (w\<lparr>tw_manager := m', tw_loops := (tw_loops w)[i := RefreshLoop b]\<rparr>)"
| ts_exit: "i < length (tw_loops w) \<Longrightarrow> tw_loops w ! i = HeartbeatLoop \<or> (\<exists>b. tw_loops w ! i = RefreshLoop b)
    \<Longrightarrow> tm_stopped (tw_manager w)
    \<Longrightarrow> token_step w (Exits i) (w\<lparr>tw_loops := (tw_loops w)[i := Returned]\<rparr>)"

inductive_cases token_step_cases: "token_step w e w'"

inductive_simps token_step_simps:
  "token_step w (SetToken t) w'" "token_step w StopCalled w'" "token_step w (RefreshCalled reply) w'" "token_step w StartHeartbeat w'"
  "token_step w (StartAutoRefresh b) w'" "token_step w (Beat i) w'" "token_step w (Check i now) w'"
  "token_step w (Refreshed i reply) w'" "token_step w (Exits i) w'"

subsection \<open>What a refresh installs\<close>

text \<open>The token a reply carries, if it carries one.\<close>

definition token_of_reply :: "goerror + http_reply \<Rightarrow> gostring option" where
  "token_of_reply reply =
     (case reply of
        Inl e \<Rightarrow> None
      | Inr r \<Rightarrow>
          (case read_limited token_limit r of
             Inl e \<Rightarrow> None
           | Inr body \<Rightarrow> if 200 \<le> rp_status r \<and> rp_status r < 300 \<and> trim_space body \<noteq> []
                         then Some (trim_space body) else None))"

lemma refresh_cases:
  "refresh get m =
     (if tm_refresh_url m \<noteq> [] \<and> token_of_reply (get (tm_refresh_url m)) \<noteq> None
      then (None, set_token (the (token_of_reply (get (tm_refresh_url m)))) m)
      else (fst (refresh get m), m))"
  and refresh_ok_iff: "fst (refresh get m) = None \<longleftrightarrow> tm_refresh_url m \<noteq> [] \<and> token_of_reply (get (tm_refresh_url m)) \<noteq> None"
  by (auto simp: refresh_def token_of_reply_def Let_def split: sum.split)

text \<open>
  C29: \<open>Refresh\<close> succeeds exactly when a URL is configured and the reply has a status in the 200s, a body
  that, cut at 8192 bytes and trimmed, is not empty, and no error within what is read of it; then that text, with no white space at
  either end, is the token and nothing else has changed. After any failure the manager is as before.
\<close>

theorem refresh_installs_or_keeps:
  assumes "refresh get m = (err, m')"
  shows "(err = None \<longleftrightarrow> tm_refresh_url m \<noteq> []
      \<and> (\<exists>r. get (tm_refresh_url m) = Inr r \<and> 200 \<le> rp_status r \<and> rp_status r < 300
          \<and> (length (rp_body r) < 8192 \<or> length (rp_body r) = 8192 \<and> rp_with_last r \<longrightarrow> rp_error r = None) \<and> trim_space (take 8192 (rp_body r)) \<noteq> []))
    \<and> (err = None \<longrightarrow>
        (\<exists>r. get (tm_refresh_url m) = Inr r \<and> m' = m\<lparr>tm_token := trim_space (take 8192 (rp_body r))\<rparr>)
        \<and> strip_one space_encodings (tm_token m') = None
        \<and> strip_one (map rev space_encodings) (rev (tm_token m')) = None)
    \<and> (err \<noteq> None \<longrightarrow> m' = m)"
proof (intro conjI)
  have reply: "token_of_reply (Inr r) = Some t \<longleftrightarrow> 200 \<le> rp_status r \<and> rp_status r < 300
      \<and> (length (rp_body r) < 8192 \<or> length (rp_body r) = 8192 \<and> rp_with_last r \<longrightarrow> rp_error r = None) \<and> t = trim_space (take 8192 (rp_body r)) \<and> t \<noteq> []" for r t
    by (auto simp: token_of_reply_def read_limited_def token_limit_def split: option.splits)
  have none: "token_of_reply (Inl e) = None" for e by (simp add: token_of_reply_def)
  have err: "err = fst (refresh get m)" using assms by simp
  show "err = None \<longleftrightarrow> tm_refresh_url m \<noteq> []
      \<and> (\<exists>r. get (tm_refresh_url m) = Inr r \<and> 200 \<le> rp_status r \<and> rp_status r < 300
          \<and> (length (rp_body r) < 8192 \<or> length (rp_body r) = 8192 \<and> rp_with_last r \<longrightarrow> rp_error r = None) \<and> trim_space (take 8192 (rp_body r)) \<noteq> [])"
    unfolding err refresh_ok_iff
    by (cases "get (tm_refresh_url m)") (auto simp: none reply)
  show "err = None \<longrightarrow>
        (\<exists>r. get (tm_refresh_url m) = Inr r \<and> m' = m\<lparr>tm_token := trim_space (take 8192 (rp_body r))\<rparr>)
        \<and> strip_one space_encodings (tm_token m') = None
        \<and> strip_one (map rev space_encodings) (rev (tm_token m')) = None"
  proof
    assume "err = None"
    then have ok: "tm_refresh_url m \<noteq> []" "token_of_reply (get (tm_refresh_url m)) \<noteq> None"
      using refresh_ok_iff[of get m] err by simp_all
    then obtain r where r: "get (tm_refresh_url m) = Inr r" by (cases "get (tm_refresh_url m)") (auto simp: none)
    with ok obtain t where t: "token_of_reply (Inr r) = Some t" by auto
    have "m' = set_token t m" using assms refresh_cases[of get m] ok r t by simp
    with t reply[of r t] have "m' = m\<lparr>tm_token := trim_space (take 8192 (rp_body r))\<rparr>" by (simp add: set_token_def)
    with r trim_space_done show "(\<exists>r. get (tm_refresh_url m) = Inr r \<and> m' = m\<lparr>tm_token := trim_space (take 8192 (rp_body r))\<rparr>)
        \<and> strip_one space_encodings (tm_token m') = None
        \<and> strip_one (map rev space_encodings) (rev (tm_token m')) = None"
      by auto
  qed
  show "err \<noteq> None \<longrightarrow> m' = m"
    using assms refresh_cases[of get m] refresh_ok_iff[of get m] by (auto split: if_splits)
qed

lemma refresh_installs_or_keeps_witness:
  "\<exists>m'. refresh (\<lambda>url. Inr \<lparr>rp_status = 200, rp_body = '' abc '', rp_error = None, rp_with_last = False\<rparr>) (new_token_manager ''r'' '''') = (None, m')
    \<and> tm_token m' = ''abc''"
proof -
  let ?get = "\<lambda>url :: gostring. Inr \<lparr>rp_status = 200, rp_body = '' abc '', rp_error = None, rp_with_last = False\<rparr> :: goerror + http_reply"
  obtain err m' where r: "refresh ?get (new_token_manager ''r'' '''') = (err, m')" by fastforce
  have "trim_space (take 8192 '' abc '') = ''abc''" by code_simp
  with refresh_installs_or_keeps[OF r] have "err = None" "tm_token m' = ''abc''"
    by (simp_all add: new_token_manager_def)
  with r show ?thesis by simp
qed

text \<open>
  A refresh endpoint that returns a token of more than 8192 bytes is reported as a success, and
  the manager holds a token that is not the one the endpoint sent.
\<close>

theorem oversized_token_is_cut:
  "\<exists>body m'. refresh (\<lambda>url. Inr \<lparr>rp_status = 200, rp_body = body, rp_error = None, rp_with_last = False\<rparr>) (new_token_manager ''r'' '''') = (None, m')
    \<and> trim_space body = body \<and> tm_token m' \<noteq> body \<and> length (tm_token m') = 8192"
proof -
  let ?body = "replicate 9000 (CHR ''a'')"
  have trim: "trim_space (replicate (Suc n) (CHR ''a'')) = replicate (Suc n) (CHR ''a'')" for n
    by (rule trim_space_plain) (auto simp: space_encodings_def)
  have "trim_space (take 8192 ?body) = replicate 8192 CHR ''a''" using trim[of 8191] by simp
  moreover have "trim_space ?body = ?body" using trim[of 8999] by simp
  ultimately show ?thesis
    by (intro exI[of _ ?body] exI[of _ "set_token (replicate 8192 CHR ''a'') (new_token_manager ''r'' '''')"])
      (auto simp: refresh_def new_token_manager_def read_limited_def token_limit_def set_token_def dest: arg_cong[of _ _ length])
qed

subsection \<open>The token under interleaving\<close>

text \<open>The token after a sequence of events: the last one written.\<close>

fun last_token :: "bool \<Rightarrow> token_event list \<Rightarrow> gostring \<Rightarrow> gostring" where
  "last_token configured [] t = t"
| "last_token configured (e # es) t =
     last_token configured es
       (case e of
          SetToken t' \<Rightarrow> t'
        | RefreshCalled reply \<Rightarrow> if configured then (case token_of_reply reply of Some t' \<Rightarrow> t' | None \<Rightarrow> t) else t
        | Refreshed i reply \<Rightarrow> if configured then (case token_of_reply reply of Some t' \<Rightarrow> t' | None \<Rightarrow> t) else t
        | _ \<Rightarrow> t)"

lemma refresh_snd:
  "snd (refresh get m) =
     (if tm_refresh_url m \<noteq> [] then (case token_of_reply (get (tm_refresh_url m)) of Some t \<Rightarrow> set_token t m | None \<Rightarrow> m)
      else m)"
  by (subst refresh_cases) (auto split: option.split)

lemma refresh_token:
  "refresh (\<lambda>url. reply) m = (err, m') \<Longrightarrow> tm_refresh_url m' = tm_refresh_url m \<and> tm_heartbeat_url m' = tm_heartbeat_url m
    \<and> tm_stopped m' = tm_stopped m
    \<and> tm_token m' = (if tm_refresh_url m \<noteq> [] then (case token_of_reply reply of Some t' \<Rightarrow> t' | None \<Rightarrow> tm_token m) else tm_token m)"
  using refresh_snd[of "\<lambda>url. reply" m] by (auto simp: set_token_def split: option.split)

lemma token_step_url: "token_step w e w' \<Longrightarrow> tm_refresh_url (tw_manager w') = tm_refresh_url (tw_manager w)"
  by (erule token_step_cases) (auto simp: set_token_def token_stop_def dest: refresh_token)

lemma token_step_token:
  "token_step w e w' \<Longrightarrow>
     tm_token (tw_manager w') = last_token (tm_refresh_url (tw_manager w) \<noteq> []) [e] (tm_token (tw_manager w))"
  by (erule token_step_cases) (auto simp: set_token_def token_stop_def dest: refresh_token)

text \<open>
  C30: Whatever callers of \<open>SetToken\<close>, \<open>Refresh\<close> and \<open>Stop\<close> and however many background loops interleave, the
  token is always the last one written: by a \<open>SetToken\<close>, or by a refresh whose reply carried a
  token; failed refreshes, heartbeats and loop ends do not touch it.
\<close>

theorem token_is_last_written:
  assumes "run token_step w es w'"
  shows "tm_token (tw_manager w') = last_token (tm_refresh_url (tw_manager w) \<noteq> []) es (tm_token (tw_manager w))"
  using assms
proof (induction rule: run.induct)
  case (run_cons s e t es u)
  then show ?case using token_step_token[OF run_cons(1)] token_step_url[OF run_cons(1)] by simp
qed simp

definition token_world_new :: "gostring \<Rightarrow> gostring \<Rightarrow> token_world" where
  "token_world_new refresh_url heartbeat_url =
     \<lparr>tw_manager = new_token_manager refresh_url heartbeat_url, tw_loops = []\<rparr>"

lemma token_is_last_written_witness:
  "\<exists>w. run token_step (token_world_new ''r'' '''') [SetToken ''abc'', StopCalled] w \<and> tm_token (tw_manager w) = ''abc''"
proof -
  obtain w where r: "run token_step (token_world_new ''r'' '''') [SetToken ''abc'', StopCalled] w"
    by (auto simp: run_Cons_iff token_step_simps)
  from token_is_last_written[OF r] r show ?thesis by auto
qed

lemma run_starts:
  "run token_step w (replicate k StartHeartbeat) (w\<lparr>tw_loops := tw_loops w @ replicate k HeartbeatLoop\<rparr>)"
proof (induction k arbitrary: w)
  case (Suc k)
  have "run token_step (w\<lparr>tw_loops := tw_loops w @ [HeartbeatLoop]\<rparr>) (replicate k StartHeartbeat)
      (w\<lparr>tw_loops := tw_loops w @ replicate (Suc k) HeartbeatLoop\<rparr>)"
    using Suc[of "w\<lparr>tw_loops := tw_loops w @ [HeartbeatLoop]\<rparr>"] by simp
  then show ?case by (auto intro: run_cons ts_start_heartbeat)
qed simp

lemma run_beats:
  "\<forall>i \<in> set is. i < length (tw_loops w) \<and> tw_loops w ! i = HeartbeatLoop \<Longrightarrow> run token_step w (map Beat is) w"
  by (induction "is") (auto intro: run_cons ts_beat run_nil)

text \<open>
  Every call of \<open>StartHeartbeat\<close> starts a further goroutine: after \<open>k\<close> calls there are \<open>k\<close> loops,
  each of which sends its own heartbeat.
\<close>

theorem every_start_adds_a_heartbeat:
  "\<exists>w. run token_step (token_world_new r h) (replicate k StartHeartbeat @ map Beat [0..<k]) w
    \<and> tw_loops w = replicate k HeartbeatLoop"
proof -
  let ?w = "(token_world_new r h)\<lparr>tw_loops := replicate k HeartbeatLoop\<rparr>"
  have "run token_step (token_world_new r h) (replicate k StartHeartbeat) ?w"
    using run_starts[of "token_world_new r h" k] by (simp add: token_world_new_def)
  moreover have "run token_step ?w (map Beat [0..<k]) ?w" by (rule run_beats) simp
  ultimately show ?thesis by (intro exI[of _ ?w]) (auto intro: run_append)
qed

subsection \<open>Stopping\<close>

fun steps_left :: "token_goroutine \<Rightarrow> nat" where
  "steps_left HeartbeatLoop = 1"
| "steps_left (RefreshLoop b) = 1"
| "steps_left (Refreshing b) = 2"
| "steps_left Returned = 0"

definition loops_left :: "token_world \<Rightarrow> nat" where
  "loops_left w = sum_list (map steps_left (tw_loops w))"

lemma loops_left_update:
  "i < length (tw_loops w) \<Longrightarrow> tw_loops w' = (tw_loops w)[i := g]
    \<Longrightarrow> loops_left w' + steps_left (tw_loops w ! i) = loops_left w + steps_left g"
  unfolding loops_left_def using elem_le_sum_list[of i "map steps_left (tw_loops w)"]
  by (simp add: map_update sum_list_update)

lemma stopped_step:
  assumes "tm_stopped (tw_manager w)" "loops_left w \<noteq> 0"
  shows "\<exists>e w'. token_step w e w' \<and> tm_stopped (tw_manager w') \<and> loops_left w = Suc (loops_left w')
    \<and> length (tw_loops w') = length (tw_loops w)"
proof -
  from assms(2) obtain i where i: "i < length (tw_loops w)" "steps_left (tw_loops w ! i) \<noteq> 0"
    unfolding loops_left_def by (auto simp: in_set_conv_nth)
  show ?thesis
  proof (cases "tw_loops w ! i")
    case (Refreshing b)
    obtain err m' where r: "refresh (\<lambda>url. Inl []) (tw_manager w) = (err, m')" by fastforce
    let ?w = "w\<lparr>tw_manager := m', tw_loops := (tw_loops w)[i := RefreshLoop b]\<rparr>"
    have "token_step w (Refreshed i (Inl [])) ?w" by (rule ts_refreshed[OF i(1) Refreshing r])
    moreover have "loops_left w = Suc (loops_left ?w)" using loops_left_update[of i w ?w "RefreshLoop b"] i(1) Refreshing by simp
    ultimately show ?thesis using refresh_token[OF r] assms(1) by fastforce
  next
    case HeartbeatLoop
    let ?w = "w\<lparr>tw_loops := (tw_loops w)[i := Returned]\<rparr>"
    have "token_step w (Exits i) ?w" using ts_exit[OF i(1) _ assms(1)] HeartbeatLoop by simp
    moreover have "loops_left w = Suc (loops_left ?w)" using loops_left_update[of i w ?w Returned] i(1) HeartbeatLoop by simp
    ultimately show ?thesis using assms(1) by fastforce
  next
    case (RefreshLoop b)
    let ?w = "w\<lparr>tw_loops := (tw_loops w)[i := Returned]\<rparr>"
    have "token_step w (Exits i) ?w" using ts_exit[OF i(1) _ assms(1)] RefreshLoop by simp
    moreover have "loops_left w = Suc (loops_left ?w)" using loops_left_update[of i w ?w Returned] i(1) RefreshLoop by simp
    ultimately show ?thesis using assms(1) by fastforce
  qed (use i in simp)
qed

lemma loops_left_bound: "loops_left w \<le> 2 * length (tw_loops w)"
proof -
  have two: "steps_left g \<le> 2" for g by (cases g) simp_all
  have "sum_list (map steps_left gs) \<le> 2 * length gs" for gs
  proof (induction gs)
    case (Cons g gs)
    with two[of g] show ?case by simp
  qed simp
  then show ?thesis by (simp add: loops_left_def)
qed

lemma stopped_run_ends:
  "tm_stopped (tw_manager w) \<Longrightarrow> \<exists>es w'. run token_step w es w' \<and> set (tw_loops w') \<subseteq> {Returned} \<and> length es = loops_left w"
proof (induction "loops_left w" arbitrary: w)
  case 0
  have "g = Returned" if "g \<in> set (tw_loops w)" for g
  proof -
    have "steps_left g = 0" using 0(1) that by (simp add: loops_left_def)
    then show ?thesis by (cases g) simp_all
  qed
  with 0(1) show ?case by (intro exI[of _ "[]"] exI[of _ w]) auto
next
  case (Suc n)
  then obtain e w1 where w1: "token_step w e w1" "tm_stopped (tw_manager w1)" "loops_left w = Suc (loops_left w1)"
    using stopped_step[of w] by auto
  with Suc obtain es w' where "run token_step w1 es w'" "set (tw_loops w') \<subseteq> {Returned}" "length es = loops_left w1"
    by (metis nat.inject)
  with w1 show ?case by (intro exI[of _ "e # es"] exI[of _ w']) (auto intro: run_cons)
qed

text \<open>Nothing opens the stop channel again.\<close>

lemma stopped_stays: "token_step w e w' \<Longrightarrow> tm_stopped (tw_manager w) \<Longrightarrow> tm_stopped (tw_manager w')"
  by (erule token_step_cases) (auto simp: set_token_def token_stop_def dest: refresh_token)

lemma stopped_stays_run: "run token_step w es w' \<Longrightarrow> tm_stopped (tw_manager w) \<Longrightarrow> tm_stopped (tw_manager w')"
  by (induction rule: run.induct) (auto intro: stopped_stays)

text \<open>
  C31: \<open>Stop\<close> ends the background goroutines. Once it has been called, whatever callers and goroutines
  have done since (more goroutines started included), there is a way on in which every goroutine
  returns, with at most two steps for each: out of a refresh in progress, and through the closed
  channel. And calling \<open>Stop\<close> again is no error and changes nothing.
\<close>

theorem token_stop_ends_loops:
  assumes "token_step w0 StopCalled w1" and "run token_step w1 ds w"
  shows "(\<exists>es w'. run token_step w es w' \<and> set (tw_loops w') \<subseteq> {Returned} \<and> length es \<le> 2 * length (tw_loops w))
    \<and> token_step w StopCalled w"
proof
  have "tm_stopped (tw_manager w1)" using assms(1) by (auto simp: token_step_simps token_stop_def)
  then have stopped: "tm_stopped (tw_manager w)" by (rule stopped_stays_run[OF assms(2)])
  show "\<exists>es w'. run token_step w es w' \<and> set (tw_loops w') \<subseteq> {Returned} \<and> length es \<le> 2 * length (tw_loops w)"
    using stopped_run_ends[OF stopped] loops_left_bound[of w] by metis
  show "token_step w StopCalled w" using stopped by (simp add: token_step_simps token_stop_def)
qed

lemma token_stop_ends_loops_witness:
  "\<exists>w1 es w'. run token_step (token_world_new ''r'' ''h'') [StartHeartbeat, StopCalled] w1
    \<and> run token_step w1 es w' \<and> set (tw_loops w') \<subseteq> {Returned} \<and> length es \<le> 2"
proof -
  let ?w = "(token_world_new ''r'' ''h'')\<lparr>tw_loops := [HeartbeatLoop]\<rparr>"
  let ?w1 = "?w\<lparr>tw_manager := token_stop (tw_manager ?w)\<rparr>"
  have "token_step (token_world_new ''r'' ''h'') StartHeartbeat ?w"
    by (simp add: token_step_simps token_world_new_def)
  moreover have stop: "token_step ?w StopCalled ?w1" by (rule ts_stop)
  ultimately have "run token_step (token_world_new ''r'' ''h'') [StartHeartbeat, StopCalled] ?w1"
    by (auto intro: run.intros)
  with token_stop_ends_loops[OF stop run_nil] show ?thesis by fastforce
qed

end
