(* ===== verification/Heartbeat.thy ===== *)
theory Heartbeat
  imports Token_Refresh Cluster_Messages "HOL-Library.Word"
begin

section \<open>token/heartbeat.go: the store of session states\<close>

text \<open>
  \<open>HeartbeatManager\<close>: the store of session states, claims by compare-and-swap, extraction of
  credentials from responses and the keep-alive request. A state is an object behind a pointer
  that is never changed once it is stored; the map holds the pointers, and a pointer may be nil.
  Claims and extractions are given whole, and cut into their atomic accesses to the map in the
  step relation.
\<close>

subsection \<open>States\<close>

record session_state =
  se_session_id :: int
  se_token :: gostring
  se_cookies :: "http_cookie list"
  se_last_refreshed :: gotime
  se_available :: bool

type_synonym state_ref = "nat option"

record heartbeat =
  hb_sessions :: "int \<rightharpoonup> state_ref"
  hb_states :: "nat \<Rightarrow> session_state"
  hb_next :: nat
  hb_keep_alive_url :: gostring
  hb_interval :: int
  hb_count :: "64 word"

definition zero_state :: session_state where
  "zero_state = \<lparr>se_session_id = 0, se_token = [], se_cookies = [], se_last_refreshed = ZeroTime, se_available = False\<rparr>"

definition new_heartbeat_manager :: "gostring \<Rightarrow> int \<Rightarrow> heartbeat" where
  "new_heartbeat_manager url interval =
     \<lparr>hb_sessions = Map.empty, hb_states = (\<lambda>_. zero_state), hb_next = 0, hb_keep_alive_url = url,
      hb_interval = interval, hb_count = 0\<rparr>"

text \<open>A new object, as every \<open>&\<close> in the code makes one.\<close>

definition alloc_state :: "session_state \<Rightarrow> heartbeat \<Rightarrow> nat \<times> heartbeat" where
  "alloc_state s m = (hb_next m, m\<lparr>hb_states := (hb_states m)(hb_next m := s), hb_next := Suc (hb_next m)\<rparr>)"

definition set_state :: "int \<Rightarrow> state_ref \<Rightarrow> heartbeat \<Rightarrow> heartbeat" where
  "set_state sid p m = m\<lparr>hb_sessions := (hb_sessions m)(sid \<mapsto> p)\<rparr>"

definition get_state :: "int \<Rightarrow> heartbeat \<Rightarrow> state_ref" where
  "get_state sid m = (case hb_sessions m sid of None \<Rightarrow> None | Some p \<Rightarrow> p)"

text \<open>The loop of \<open>FindAvailable\<close> over the entries in the order of \<open>Range\<close> (None: nil dereferenced).\<close>

fun find_available :: "(int \<times> state_ref) list \<Rightarrow> heartbeat \<Rightarrow> state_ref option" where
  "find_available [] m = Some None"
| "find_available ((k, p) # ps) m =
     (case p of
        None \<Rightarrow> None
      | Some r \<Rightarrow> if se_available (hb_states m r) then Some (Some r) else find_available ps m)"

fun copy_states :: "(int \<times> state_ref) list \<Rightarrow> (int \<rightharpoonup> state_ref) \<Rightarrow> (int \<rightharpoonup> state_ref)" where
  "copy_states [] out = out"
| "copy_states ((k, p) # ps) out = copy_states ps (out(k \<mapsto> p))"

definition all_states :: "(int \<times> state_ref) list \<Rightarrow> (int \<rightharpoonup> state_ref)" where
  "all_states order = copy_states order Map.empty"

subsection \<open>Claiming\<close>

text \<open>The first access of \<open>ClaimSession\<close>, up to the copy it prepares.\<close>

datatype claim_read = ClaimFails | ClaimPanics | ClaimTries nat session_state

definition claim_load :: "int \<Rightarrow> heartbeat \<Rightarrow> claim_read" where
  "claim_load sid m =
     (case hb_sessions m sid of
        None \<Rightarrow> ClaimFails
      | Some None \<Rightarrow> ClaimPanics
      | Some (Some old) \<Rightarrow>
          if \<not> se_available (hb_states m old) then ClaimFails
          else ClaimTries old ((hb_states m old)\<lparr>se_available := False\<rparr>))"

definition claim_swap :: "int \<Rightarrow> nat \<Rightarrow> session_state \<Rightarrow> heartbeat \<Rightarrow> bool \<times> heartbeat" where
  "claim_swap sid old updated m =
     (let (r, m1) = alloc_state updated m in
      if hb_sessions m1 sid = Some (Some old) then (True, set_state sid (Some r) m1) else (False, m1))"

text \<open>A claim that is not interrupted (None: a panic).\<close>

definition claim_session :: "int \<Rightarrow> heartbeat \<Rightarrow> (bool \<times> heartbeat) option" where
  "claim_session sid m =
     (case claim_load sid m of
        ClaimFails \<Rightarrow> Some (False, m)
      | ClaimPanics \<Rightarrow> None
      | ClaimTries old updated \<Rightarrow> Some (claim_swap sid old updated m))"

subsection \<open>Extracting credentials\<close>

text \<open>A response as \<open>ExtractFromResponse\<close> reads it: \<open>resp.Cookies()\<close>, the header and the status.\<close>

record http_response =
  hr_cookies :: "http_cookie list"
  hr_header :: http_header
  hr_status :: int

text \<open>The inner loop of \<open>mergeCookies\<close> for one update.\<close>

fun merge_cookie :: "http_cookie \<Rightarrow> http_cookie list \<Rightarrow> http_cookie list" where
  "merge_cookie u [] = [u]"
| "merge_cookie u (e # out) = (if hc_name e = hc_name u then u # out else e # merge_cookie u out)"

fun merge_cookies :: "http_cookie list \<Rightarrow> http_cookie list \<Rightarrow> http_cookie list" where
  "merge_cookies out [] = out"
| "merge_cookies out (u # us) = merge_cookies (merge_cookie u out) us"

text \<open>Cookie names are tokens, hence ASCII.\<close>

fun contains :: "gostring \<Rightarrow> gostring \<Rightarrow> bool" where
  "contains p [] = (p = [])"
| "contains p (c # cs) \<longleftrightarrow> is_prefix p (c # cs) \<or> contains p cs"

fun cookie_token :: "http_cookie list \<Rightarrow> gostring \<Rightarrow> gostring" where
  "cookie_token [] token = token"
| "cookie_token (c # cs) token =
     (let lname = map to_lower (hc_name c) in
      if contains ''jwt'' lname \<or> contains ''token'' lname then hc_value c else cookie_token cs token)"

definition header_token :: "http_header \<Rightarrow> gostring \<Rightarrow> gostring" where
  "header_token h token =
     (let auth = header_get h ''Authorization'' in
      if is_prefix ''Bearer '' auth then drop (length ''Bearer '') auth else token)"

definition extract_base :: "int \<Rightarrow> heartbeat \<Rightarrow> session_state" where
  "extract_base sid m =
     (case get_state sid m of
        Some r \<Rightarrow> hb_states m r
      | None \<Rightarrow> zero_state\<lparr>se_session_id := sid\<rparr>)"

definition extract_update :: "gotime \<Rightarrow> http_response \<Rightarrow> session_state \<Rightarrow> session_state" where
  "extract_update now resp base =
     base\<lparr>se_cookies := merge_cookies (se_cookies base) (hr_cookies resp), se_last_refreshed := now,
          se_available := True,
          se_token := header_token (hr_header resp) (cookie_token (hr_cookies resp) (se_token base))\<rparr>"

definition extract_store :: "int \<Rightarrow> session_state \<Rightarrow> heartbeat \<Rightarrow> heartbeat" where
  "extract_store sid s m = (let (r, m1) = alloc_state s m in set_state sid (Some r) m1)"

definition extract_from_response :: "gotime \<Rightarrow> int \<Rightarrow> http_response option \<Rightarrow> heartbeat \<Rightarrow> heartbeat" where
  "extract_from_response now sid resp m =
     (case resp of
        None \<Rightarrow> m
      | Some r \<Rightarrow>
          if hr_cookies r = [] then m
          else extract_store sid (extract_update now r (extract_base sid m)) m)"

subsection \<open>Keep-alive\<close>

fun keep_alive_token :: "int list \<Rightarrow> heartbeat \<Rightarrow> gostring" where
  "keep_alive_token [] m = []"
| "keep_alive_token (sid # ids) m =
     (case get_state sid m of
        Some r \<Rightarrow> if se_token (hb_states m r) \<noteq> [] then se_token (hb_states m r) else keep_alive_token ids m
      | None \<Rightarrow> keep_alive_token ids m)"

fun extract_all :: "gotime list \<Rightarrow> int list \<Rightarrow> http_response \<Rightarrow> heartbeat \<Rightarrow> heartbeat" where
  "extract_all clocks [] resp m = m"
| "extract_all clocks (sid # ids) resp m =
     extract_all (tl clocks) ids resp (extract_from_response (hd clocks) sid (Some resp) m)"

text \<open>
  \<open>new_request\<close> is \<open>http.NewRequest\<close>: an error or a request with an empty header; \<open>do\<close> is the
  client; the clock is read once for every session a reply with cookies is stored for.
\<close>

definition send_keep_alive ::
  "(gostring \<Rightarrow> goerror option) \<Rightarrow> (gostring \<Rightarrow> http_header \<Rightarrow> goerror + http_response) \<Rightarrow> gotime list
   \<Rightarrow> int list \<Rightarrow> heartbeat \<Rightarrow> heartbeat" where
  "send_keep_alive new_request do clocks ids m =
     (if hb_keep_alive_url m = [] then m
      else
        (case new_request (hb_keep_alive_url m) of
           Some e \<Rightarrow> m
         | None \<Rightarrow>
             (case do (hb_keep_alive_url m) (bearer (keep_alive_token ids m) Map.empty) of
                Inl e \<Rightarrow> m
              | Inr resp \<Rightarrow>
                  if hr_status resp < 200 \<or> hr_status resp \<ge> 300 then m
                  else extract_all clocks ids resp (m\<lparr>hb_count := hb_count m + 1\<rparr>))))"

text \<open>\<open>add_cookie\<close> is \<open>Request.AddCookie\<close>; a missing request is nil.\<close>

fun add_cookies :: "(http_cookie \<Rightarrow> 'req \<Rightarrow> 'req) \<Rightarrow> http_cookie list \<Rightarrow> 'req \<Rightarrow> 'req" where
  "add_cookies add_cookie [] req = req"
| "add_cookies add_cookie (c # cs) req = add_cookies add_cookie cs (add_cookie c req)"

definition apply_cookies_to_request ::
  "(http_cookie \<Rightarrow> 'req \<Rightarrow> 'req) \<Rightarrow> int \<Rightarrow> 'req option \<Rightarrow> heartbeat \<Rightarrow> goerror option \<times> 'req option" where
  "apply_cookies_to_request add_cookie sid req m =
     (case get_state sid m of
        None \<Rightarrow> (None, req)
      | Some r \<Rightarrow>
          if length (se_cookies (hb_states m r)) = 0 then (None, req)
          else
            (case req of
               None \<Rightarrow> (Some ''heartbeat: apply cookies: request must not be nil'', None)
             | Some q \<Rightarrow> (None, Some (add_cookies add_cookie (se_cookies (hb_states m r)) q))))"

subsection \<open>Interleaved callers\<close>

text \<open>Calls between their two accesses to the map, and the outcomes callers see.\<close>

datatype hb_call = Claiming int nat session_state | Extracting int http_response session_state

record hb_config =
  hx_manager :: heartbeat
  hx_calls :: "hb_call multiset"

datatype hb_event =
    Stored int bool
  | ClaimStarted int
  | Claimed int bool
  | ExtractStarted int

text \<open>A stored pointer is available when it is not nil and its state is.\<close>

fun ref_available :: "state_ref \<Rightarrow> heartbeat \<Rightarrow> bool" where
  "ref_available None m = False"
| "ref_available (Some r) m = se_available (hb_states m r)"

inductive hb_step :: "hb_config \<Rightarrow> hb_event \<Rightarrow> hb_config \<Rightarrow> bool" where
  hb_set_new: "alloc_state s (hx_manager c) = (r, m1) \<Longrightarrow>
     hb_step c (Stored sid (se_available s)) (c\<lparr>hx_manager := set_state sid (Some r) m1\<rparr>)"
| hb_set_old: "\<forall>r. p = Some r \<longrightarrow> r < hb_next (hx_manager c) \<Longrightarrow>
     hb_step c (Stored sid (ref_available p (hx_manager c))) (c\<lparr>hx_manager := set_state sid p (hx_manager c)\<rparr>)"
| hb_claim_fails: "claim_load sid (hx_manager c) = ClaimFails \<Longrightarrow> hb_step c (Claimed sid False) c"
| hb_claim_load: "claim_load sid (hx_manager c) = ClaimTries old updated \<Longrightarrow>
     hb_step c (ClaimStarted sid) (c\<lparr>hx_calls := add_mset (Claiming sid old updated) (hx_calls c)\<rparr>)"
| hb_claim_swap: "hx_calls c = add_mset (Claiming sid old updated) M \<Longrightarrow>
     claim_swap sid old updated (hx_manager c) = (won, m') \<Longrightarrow>
     hb_step c (Claimed sid won) (c\<lparr>hx_manager := m', hx_calls := M\<rparr>)"
| hb_extract_read: "hr_cookies resp \<noteq> [] \<Longrightarrow>
     hb_step c (ExtractStarted sid)
       (c\<lparr>hx_calls := add_mset (Extracting sid resp (extract_base sid (hx_manager c))) (hx_calls c)\<rparr>)"
| hb_extract_store: "hx_calls c = add_mset (Extracting sid resp base) M \<Longrightarrow>
     hb_step c (Stored sid True)
       (c\<lparr>hx_manager := extract_store sid (extract_update now resp base) (hx_manager c), hx_calls := M\<rparr>)"

inductive_cases hb_step_cases: "hb_step c e c'"

definition hb_initial :: "hb_config \<Rightarrow> bool" where
  "hb_initial c \<longleftrightarrow> (\<exists>url interval. c = \<lparr>hx_manager = new_heartbeat_manager url interval, hx_calls = {#}\<rparr>)"

subsection \<open>A claim is won once\<close>

definition session_available :: "int \<Rightarrow> heartbeat \<Rightarrow> bool" where
  "session_available sid m \<longleftrightarrow> (\<exists>r. hb_sessions m sid = Some (Some r) \<and> se_available (hb_states m r))"

text \<open>Pointers are to objects that exist, and a claim in progress holds an available one.\<close>

fun claim_ok :: "heartbeat \<Rightarrow> hb_call \<Rightarrow> bool" where
  "claim_ok m (Claiming sid old updated) \<longleftrightarrow>
     old < hb_next m \<and> se_available (hb_states m old) \<and> updated = (hb_states m old)\<lparr>se_available := False\<rparr>"
| "claim_ok m (Extracting sid resp base) \<longleftrightarrow> True"

definition refs_ok :: "heartbeat \<Rightarrow> bool" where
  "refs_ok m \<longleftrightarrow> (\<forall>sid r. hb_sessions m sid = Some (Some r) \<longrightarrow> r < hb_next m)"

definition hb_ok :: "hb_config \<Rightarrow> bool" where
  "hb_ok c \<longleftrightarrow> refs_ok (hx_manager c) \<and> (\<forall>k \<in># hx_calls c. claim_ok (hx_manager c) k)"

lemmas hb_ops = alloc_state_def set_state_def extract_store_def claim_swap_def

lemma claim_ok_alloc: "claim_ok m k \<Longrightarrow> alloc_state s m = (r, m') \<Longrightarrow> claim_ok (set_state sid p m') k \<and> claim_ok m' k"
  by (cases k) (auto simp: hb_ops)

lemma claim_ok_set: "claim_ok m k \<Longrightarrow> claim_ok (set_state sid p m) k"
  by (cases k) (auto simp: hb_ops)

lemma refs_ok_alloc: "refs_ok m \<Longrightarrow> alloc_state s m = (r, m') \<Longrightarrow> refs_ok (set_state sid (Some r) m') \<and> refs_ok m'"
  by (auto simp: refs_ok_def hb_ops less_Suc_eq)

lemma hb_ok_claiming:
  "hb_ok c \<Longrightarrow> hx_calls c = add_mset (Claiming sid old updated) M \<Longrightarrow> claim_ok (hx_manager c) (Claiming sid old updated)"
  unfolding hb_ok_def by (metis union_single_eq_member)

lemma hb_ok_sessions: "hb_ok c \<Longrightarrow> hb_sessions (hx_manager c) sid = Some (Some r) \<Longrightarrow> r < hb_next (hx_manager c)"
  unfolding hb_ok_def refs_ok_def by blast

lemma hb_ok_step: "hb_step c e c' \<Longrightarrow> hb_ok c \<Longrightarrow> hb_ok c'"
proof (induction rule: hb_step.induct)
  case (hb_set_new s c r m1 sid)
  then show ?case using claim_ok_alloc[OF _ hb_set_new.hyps] refs_ok_alloc[OF _ hb_set_new.hyps]
    by (auto simp: hb_ok_def)
next
  case (hb_set_old p c sid)
  then have "refs_ok (set_state sid p (hx_manager c))" by (auto simp: hb_ok_def refs_ok_def set_state_def)
  with hb_set_old.prems show ?case by (auto simp: hb_ok_def claim_ok_set)
next
  case (hb_claim_load sid c old updated)
  then have o: "hb_sessions (hx_manager c) sid = Some (Some old)" "se_available (hb_states (hx_manager c) old)"
    "updated = (hb_states (hx_manager c) old)\<lparr>se_available := False\<rparr>"
    by (auto simp: claim_load_def split: option.splits if_splits)
  with hb_claim_load.prems hb_ok_sessions[OF hb_claim_load.prems o(1)] show ?case by (simp add: hb_ok_def)
next
  case (hb_claim_swap c sid old updated M won m')
  obtain r m1 where a: "alloc_state updated (hx_manager c) = (r, m1)" by fastforce
  have "\<forall>k \<in># M. claim_ok (hx_manager c) k" "refs_ok (hx_manager c)"
    using hb_claim_swap by (simp_all add: hb_ok_def)
  moreover have "m' = set_state sid (Some r) m1 \<or> m' = m1"
    using hb_claim_swap.hyps(2) by (auto simp: claim_swap_def a split: if_splits)
  ultimately show ?case using claim_ok_alloc[OF _ a] refs_ok_alloc[OF _ a] by (auto simp: hb_ok_def)
next
  case (hb_extract_store c sid resp base M now)
  obtain r m1 where a: "alloc_state (extract_update now resp base) (hx_manager c) = (r, m1)" by fastforce
  have "\<forall>k \<in># M. claim_ok (hx_manager c) k" "refs_ok (hx_manager c)"
    using hb_extract_store by (simp_all add: hb_ok_def)
  with claim_ok_alloc[OF _ a] refs_ok_alloc[OF _ a] show ?case by (auto simp: hb_ok_def extract_store_def a)
qed (simp_all add: hb_ok_def)

lemma hb_won:
  assumes "hb_step c (Claimed sid True) c'" "hb_ok c"
  shows "session_available sid (hx_manager c)" "\<not> session_available sid (hx_manager c')"
proof -
  obtain old updated M m' where s: "hx_calls c = add_mset (Claiming sid old updated) M"
    "claim_swap sid old updated (hx_manager c) = (True, m')" "c' = c\<lparr>hx_manager := m', hx_calls := M\<rparr>"
    using assms(1) by (auto elim: hb_step_cases)
  note ok = hb_ok_claiming[OF assms(2) s(1)]
  have "hb_sessions (hx_manager c) sid = Some (Some old)"
    using s(2) by (auto simp: hb_ops split: if_splits)
  with ok s show "session_available sid (hx_manager c)" "\<not> session_available sid (hx_manager c')"
    by (auto simp: hb_ops session_available_def)
qed

lemma hb_unavailable_stays:
  assumes "hb_step c e c'" "hb_ok c" "e \<noteq> Stored sid True" "\<not> session_available sid (hx_manager c)"
  shows "\<not> session_available sid (hx_manager c')"
  using assms
proof (induction rule: hb_step.induct)
  case (hb_set_new s c r m1 sid')
  then show ?case
    using hb_ok_sessions[OF hb_set_new.prems(1), of sid]
    by (cases "sid' = sid") (auto simp: hb_ops session_available_def)
next
  case (hb_set_old p c sid')
  then show ?case by (cases "sid' = sid"; cases p) (auto simp: hb_ops session_available_def)
next
  case (hb_claim_swap c sid' old updated M won m')
  then show ?case
    using hb_ok_sessions[OF hb_claim_swap.prems(1), of sid] hb_ok_claiming[OF hb_claim_swap.prems(1) hb_claim_swap.hyps(1)]
    by (cases "sid' = sid") (auto simp: hb_ops session_available_def split: if_splits)
next
  case (hb_extract_store c sid' resp base M)
  then show ?case
    using hb_ok_sessions[OF hb_extract_store.prems(1), of sid]
    by (cases "sid' = sid") (auto simp: hb_ops session_available_def)
qed simp_all

lemma hb_ok_run: "run hb_step c es c' \<Longrightarrow> hb_ok c \<Longrightarrow> hb_ok c'"
  by (induction rule: run.induct) (auto intro: hb_ok_step)

lemma hb_unavailable_run:
  "run hb_step c es c' \<Longrightarrow> hb_ok c \<Longrightarrow> Stored sid True \<notin> set es \<Longrightarrow> \<not> session_available sid (hx_manager c)
    \<Longrightarrow> \<not> session_available sid (hx_manager c')"
proof (induction rule: run.induct)
  case (run_cons s e t es u)
  then have "\<not> session_available sid (hx_manager t)" by (intro hb_unavailable_stays[OF run_cons.hyps(1)]) auto
  with run_cons hb_ok_step[OF run_cons.hyps(1)] show ?case by simp
qed simp

lemma run_split: "run step s (es @ fs) u \<Longrightarrow> \<exists>t. run step s es t \<and> run step t fs u"
proof (induction es arbitrary: s)
  case (Cons e es)
  then obtain s1 where "step s e s1" "run step s1 (es @ fs) u" by (auto simp: run_Cons_iff)
  with Cons.IH show ?case by (meson run_cons)
qed simp

text \<open>
  C23: However the claims, stores and extractions of any number of goroutines interleave, between two
  claims of a session that succeed its state was stored as available in between: of the goroutines
  that race for one slot, one wins.
\<close>

theorem claims_are_exclusive:
  assumes "hb_initial c" "run hb_step c (xs @ Claimed sid True # ys @ Claimed sid True # zs) c'"
  shows "Stored sid True \<in> set ys"
proof (rule ccontr)
  assume no: "Stored sid True \<notin> set ys"
  have ok: "hb_ok c" using assms(1) by (auto simp: hb_initial_def hb_ok_def refs_ok_def new_heartbeat_manager_def)
  obtain c1 where c1: "run hb_step c xs c1" "run hb_step c1 (Claimed sid True # ys @ Claimed sid True # zs) c'"
    using run_split[OF assms(2)] by blast
  then obtain c2 where c2: "hb_step c1 (Claimed sid True) c2" "run hb_step c2 (ys @ Claimed sid True # zs) c'"
    by (auto simp: run_Cons_iff)
  obtain c3 where c3: "run hb_step c2 ys c3" "run hb_step c3 (Claimed sid True # zs) c'"
    using run_split[OF c2(2)] by blast
  then obtain c4 where c4: "hb_step c3 (Claimed sid True) c4" by (auto simp: run_Cons_iff)
  have ok1: "hb_ok c1" by (rule hb_ok_run[OF c1(1) ok])
  have ok2: "hb_ok c2" by (rule hb_ok_step[OF c2(1) ok1])
  have ok3: "hb_ok c3" by (rule hb_ok_run[OF c3(1) ok2])
  show False
    using hb_unavailable_run[OF c3(1) ok2 no hb_won(2)[OF c2(1) ok1]] hb_won(1)[OF c4 ok3] by simp
qed

text \<open>A claim or an extraction that is not interrupted is a run of its two steps.\<close>

lemma claim_session_run:
  "claim_session sid m = Some (True, m')
    \<Longrightarrow> run hb_step \<lparr>hx_manager = m, hx_calls = M\<rparr> [ClaimStarted sid, Claimed sid True] \<lparr>hx_manager = m', hx_calls = M\<rparr>"
proof -
  assume "claim_session sid m = Some (True, m')"
  then obtain old updated where l: "claim_load sid m = ClaimTries old updated" "claim_swap sid old updated m = (True, m')"
    by (auto simp: claim_session_def split: claim_read.splits)
  have "hb_step \<lparr>hx_manager = m, hx_calls = M\<rparr> (ClaimStarted sid)
      \<lparr>hx_manager = m, hx_calls = add_mset (Claiming sid old updated) M\<rparr>"
    using hb_claim_load[of sid "\<lparr>hx_manager = m, hx_calls = M\<rparr>"] l by simp
  moreover have "hb_step \<lparr>hx_manager = m, hx_calls = add_mset (Claiming sid old updated) M\<rparr> (Claimed sid True)
      \<lparr>hx_manager = m', hx_calls = M\<rparr>"
    using hb_claim_swap[of "\<lparr>hx_manager = m, hx_calls = add_mset (Claiming sid old updated) M\<rparr>"] l by simp
  ultimately show ?thesis by (auto intro: run_cons run_nil)
qed

lemma store_step:
  "hb_step \<lparr>hx_manager = m, hx_calls = M\<rparr> (Stored sid (se_available s)) \<lparr>hx_manager = extract_store sid s m, hx_calls = M\<rparr>"
  using hb_set_new[of s "\<lparr>hx_manager = m, hx_calls = M\<rparr>" "hb_next m"]
  by (simp add: extract_store_def alloc_state_def)

lemma claim_stored:
  "se_available s \<Longrightarrow> \<exists>m'. claim_session sid (extract_store sid s m) = Some (True, m')"
  by (simp add: claim_session_def claim_load_def hb_ops)

lemma claims_are_exclusive_witness:
  "\<exists>c'. run hb_step \<lparr>hx_manager = new_heartbeat_manager ''u'' 30, hx_calls = {#}\<rparr>
      ([Stored 7 True, ClaimStarted 7] @ Claimed 7 True # [Stored 7 True, ClaimStarted 7] @ Claimed 7 True # []) c'
    \<and> Stored 7 True \<in> set [Stored 7 True, ClaimStarted 7]"
proof -
  let ?s = "zero_state\<lparr>se_available := True\<rparr>" and ?m = "new_heartbeat_manager ''u'' 30"
  let ?c = "\<lambda>m. \<lparr>hx_manager = m, hx_calls = {#}\<rparr>"
  obtain m1 where m1: "claim_session 7 (extract_store 7 ?s ?m) = Some (True, m1)" using claim_stored[of ?s] by auto
  obtain m2 where m2: "claim_session 7 (extract_store 7 ?s m1) = Some (True, m2)" using claim_stored[of ?s] by auto
  have store: "run hb_step (?c m) [Stored 7 True] (?c (extract_store 7 ?s m))" for m
    using store_step[of m "{#}" 7 ?s] by (auto intro: run_cons run_nil)
  have r: "run hb_step (?c ?m)
      ([Stored 7 True, ClaimStarted 7] @ Claimed 7 True # [Stored 7 True, ClaimStarted 7] @ Claimed 7 True # []) (?c m2)"
    using run_append[OF store[of ?m] run_append[OF claim_session_run[OF m1]
      run_append[OF store[of m1] claim_session_run[OF m2]]]] by simp
  have "hb_initial (?c ?m)" by (auto simp: hb_initial_def)
  from claims_are_exclusive[OF this r] r show ?thesis by blast
qed

subsection \<open>What an extraction stores\<close>

fun cookie_named :: "http_cookie list \<Rightarrow> gostring \<Rightarrow> http_cookie option" where
  "cookie_named [] n = None"
| "cookie_named (c # cs) n = (if hc_name c = n then Some c else cookie_named cs n)"

lemma cookie_named_append:
  "cookie_named (as @ bs) n = (case cookie_named as n of None \<Rightarrow> cookie_named bs n | Some c \<Rightarrow> Some c)"
  by (induction as) auto

lemma cookie_named_merge_cookie:
  "cookie_named (merge_cookie u cs) n = (if n = hc_name u then Some u else cookie_named cs n)"
  by (induction cs) auto

lemma cookie_named_merge:
  "cookie_named (merge_cookies es us) n =
     (case cookie_named (rev us) n of None \<Rightarrow> cookie_named es n | Some c \<Rightarrow> Some c)"
  by (induction us arbitrary: es)
    (auto simp: cookie_named_append cookie_named_merge_cookie split: option.split)

lemma merge_cookie_names:
  "map hc_name (merge_cookie u cs) = map hc_name cs @ (if hc_name u \<in> hc_name ` set cs then [] else [hc_name u])"
  by (induction cs) auto

lemma merge_cookies_distinct:
  "distinct (map hc_name es) \<Longrightarrow> distinct (map hc_name (merge_cookies es us))
     \<and> (\<exists>new. map hc_name (merge_cookies es us) = map hc_name es @ new)"
proof (induction us arbitrary: es)
  case (Cons u us)
  have "distinct (map hc_name (merge_cookie u es))" using Cons.prems by (auto simp: merge_cookie_names)
  from Cons.IH[OF this] show ?case by (auto simp: merge_cookie_names)
qed simp

text \<open>A cookie whose value is taken for a token.\<close>

definition names_token :: "http_cookie \<Rightarrow> bool" where
  "names_token c \<longleftrightarrow> contains ''jwt'' (map to_lower (hc_name c)) \<or> contains ''token'' (map to_lower (hc_name c))"

lemma cookie_token_find:
  "cookie_token cs t = (case find names_token cs of None \<Rightarrow> t | Some c \<Rightarrow> hc_value c)"
  by (induction cs) (auto simp: names_token_def Let_def)

text \<open>
  C24: A response with cookies gives its session a state with, under each name, the last cookie the
  response has for it or else the one the session had, the names known before first and in their
  order; the token is that of a Bearer header, else the value of the first cookie named like one,
  else the old one; the state is available and stamped with the time, and no other session changes.
  A response without cookies changes nothing, whatever its header says.
\<close>

theorem extract_from_response_spec:
  assumes "refs_ok m" "distinct (map hc_name (se_cookies (extract_base sid m)))"
    and "m' = extract_from_response now sid (Some resp) m"
  shows "(hr_cookies resp = [] \<longrightarrow> m' = m)
    \<and> (hr_cookies resp \<noteq> [] \<longrightarrow> (\<exists>r new. get_state sid m' = Some r
        \<and> (\<forall>n. cookie_named (se_cookies (hb_states m' r)) n =
              (case cookie_named (rev (hr_cookies resp)) n of Some c \<Rightarrow> Some c
               | None \<Rightarrow> cookie_named (se_cookies (extract_base sid m)) n))
        \<and> map hc_name (se_cookies (hb_states m' r)) = map hc_name (se_cookies (extract_base sid m)) @ new
        \<and> distinct (map hc_name (se_cookies (hb_states m' r)))
        \<and> se_token (hb_states m' r) =
            (if is_prefix ''Bearer '' (header_get (hr_header resp) ''Authorization'')
             then drop 7 (header_get (hr_header resp) ''Authorization'')
             else (case find names_token (hr_cookies resp) of Some c \<Rightarrow> hc_value c
                   | None \<Rightarrow> se_token (extract_base sid m)))
        \<and> se_available (hb_states m' r) \<and> se_last_refreshed (hb_states m' r) = now
        \<and> se_session_id (hb_states m' r) = se_session_id (extract_base sid m)))
    \<and> (\<forall>k. k \<noteq> sid \<longrightarrow> get_state k m' = get_state k m
        \<and> (\<forall>r. get_state k m = Some r \<longrightarrow> hb_states m' r = hb_states m r))"
proof (cases "hr_cookies resp = []")
  case True
  then show ?thesis using assms(3) by (simp add: extract_from_response_def)
next
  case False
  let ?s = "extract_update now resp (extract_base sid m)"
  have m': "m' = set_state sid (Some (hb_next m)) (m\<lparr>hb_states := (hb_states m)(hb_next m := ?s), hb_next := Suc (hb_next m)\<rparr>)"
    using False assms(3) by (simp add: extract_from_response_def extract_store_def alloc_state_def)
  then have g: "get_state sid m' = Some (hb_next m)" "hb_states m' (hb_next m) = ?s"
    by (simp_all add: get_state_def set_state_def)
  have other: "get_state k m' = get_state k m \<and> (\<forall>r. get_state k m = Some r \<longrightarrow> hb_states m' r = hb_states m r)"
    if "k \<noteq> sid" for k
    using that assms(1) unfolding m'
    by (auto simp: get_state_def set_state_def refs_ok_def split: option.splits)
  obtain new where new: "map hc_name (se_cookies ?s) = map hc_name (se_cookies (extract_base sid m)) @ new"
    "distinct (map hc_name (se_cookies ?s))"
    using merge_cookies_distinct[OF assms(2)] by (fastforce simp: extract_update_def)
  have names: "cookie_named (se_cookies ?s) n = (case cookie_named (rev (hr_cookies resp)) n of Some c \<Rightarrow> Some c
               | None \<Rightarrow> cookie_named (se_cookies (extract_base sid m)) n)" for n
    by (simp add: extract_update_def cookie_named_merge split: option.split)
  have token: "se_token ?s = (if is_prefix ''Bearer '' (header_get (hr_header resp) ''Authorization'')
             then drop 7 (header_get (hr_header resp) ''Authorization'')
             else (case find names_token (hr_cookies resp) of Some c \<Rightarrow> hc_value c
                   | None \<Rightarrow> se_token (extract_base sid m)))"
    by (simp add: extract_update_def header_token_def Let_def cookie_token_find eval_nat_numeral split: option.split)
  have rest: "se_available ?s" "se_last_refreshed ?s = now" "se_session_id ?s = se_session_id (extract_base sid m)"
    by (simp_all add: extract_update_def)
  show ?thesis
    using False g names new token rest other by (intro conjI allI impI exI[of _ "hb_next m"] exI[of _ new]) simp_all
qed

definition sample_cookie :: "gostring \<Rightarrow> gostring \<Rightarrow> http_cookie" where
  "sample_cookie n v = \<lparr>hc_name = n, hc_value = v, hc_domain = [], hc_path = [], hc_expires = ZeroTime,
     hc_max_age = 0, hc_secure = False, hc_http_only = False\<rparr>"

lemma extract_from_response_spec_witness:
  "\<exists>r. get_state 1 (extract_from_response ZeroTime 1
        (Some \<lparr>hr_cookies = [sample_cookie ''a'' ''x'', sample_cookie ''a'' ''y''], hr_header = Map.empty, hr_status = 200\<rparr>)
        (new_heartbeat_manager ''u'' 30)) = Some r"
proof -
  let ?m = "new_heartbeat_manager ''u'' 30"
  let ?resp = "\<lparr>hr_cookies = [sample_cookie ''a'' ''x'', sample_cookie ''a'' ''y''], hr_header = Map.empty, hr_status = 200\<rparr>"
  have ok: "refs_ok ?m" "distinct (map hc_name (se_cookies (extract_base 1 ?m)))"
    by (simp_all add: refs_ok_def new_heartbeat_manager_def extract_base_def get_state_def zero_state_def)
  have "hr_cookies ?resp \<noteq> []" by simp
  with extract_from_response_spec[OF ok refl, where now = ZeroTime and resp = ?resp] show ?thesis by blast
qed

subsection \<open>Sessions mixed up\<close>

definition state_with :: "int \<Rightarrow> gostring \<Rightarrow> bool \<Rightarrow> session_state" where
  "state_with sid token available = zero_state\<lparr>se_session_id := sid, se_token := token, se_available := available\<rparr>"

text \<open>
  A keep-alive is sent with the token of one session, and the cookies of its reply are stored for
  all: session 2, claimed by a worker, gets the cookie and the token that the server issued to
  session 1, and is marked available, so a second worker claims it while the first still has it.
\<close>

theorem keep_alive_mixes_sessions:
  "\<exists>m1 m2 r. claim_session 2 (extract_store 2 (state_with 2 ''t2'' True)
        (extract_store 1 (state_with 1 ''t1'' False) (new_heartbeat_manager ''u'' 30))) = Some (True, m1)
    \<and> claim_session 2 m1 = Some (False, m1)
    \<and> (let m = send_keep_alive (\<lambda>url. None)
                (\<lambda>url h. if header_get h ''Authorization'' = ''Bearer t1''
                         then Inr \<lparr>hr_cookies = [sample_cookie ''jwt'' ''new1''], hr_header = Map.empty, hr_status = 200\<rparr>
                         else Inl ''unauthorized'')
                [ZeroTime, ZeroTime] [1, 2] m1
       in get_state 2 m = Some r \<and> se_token (hb_states m r) = ''new1''
          \<and> se_cookies (hb_states m r) = [sample_cookie ''jwt'' ''new1'']
          \<and> claim_session 2 m = Some (True, m2))"
proof -
  have jwt: "contains ''jwt'' [to_lower CHR ''j'', to_lower CHR ''w'', to_lower CHR ''t'']" by code_simp
  have bearer: "header_get (bearer ''t1'' Map.empty) ''Authorization'' = ''Bearer t1''"
    by (simp add: bearer_def header_get_def header_first_def header_set_def)
  have none: "header_get Map.empty ''Authorization'' = []" by (simp add: header_get_def header_first_def)
  show ?thesis
    by (simp add: claim_session_def claim_load_def hb_ops new_heartbeat_manager_def state_with_def zero_state_def
        send_keep_alive_def get_state_def bearer none extract_from_response_def extract_base_def extract_update_def
        header_token_def sample_cookie_def jwt Let_def is_prefix_def[of "''Bearer ''"] del: contains.simps)
qed

text \<open>
  Two extractions for one session that overlap keep only the cookies of the one that stores
  last: a cookie the server set in the other response is lost.
\<close>

theorem overlapping_extractions_lose_cookies:
  "\<exists>c c' r. hb_initial c
    \<and> run hb_step c [ExtractStarted 1, ExtractStarted 1, Stored 1 True, Stored 1 True] c'
    \<and> get_state 1 (hx_manager c') = Some r
    \<and> se_cookies (hb_states (hx_manager c') r) = [sample_cookie ''b'' ''y'']
    \<and> cookie_named (se_cookies (hb_states (hx_manager c') r)) ''a'' = None"
proof -
  let ?m = "new_heartbeat_manager ''u'' 30" and ?base = "zero_state\<lparr>se_session_id := 1\<rparr>"
  let ?resp = "\<lambda>n v. \<lparr>hr_cookies = [sample_cookie n v], hr_header = Map.empty, hr_status = 200\<rparr>"
  let ?a = "?resp ''a'' ''x''" and ?b = "?resp ''b'' ''y''"
  let ?c = "\<lambda>m M. \<lparr>hx_manager = m, hx_calls = M\<rparr>"
  have base: "extract_base 1 ?m = ?base" by (simp add: extract_base_def get_state_def new_heartbeat_manager_def)
  have reads: "hb_step (?c ?m M) (ExtractStarted 1) (?c ?m (add_mset (Extracting 1 (?resp n v) ?base) M))" for n v M
    using hb_extract_read[of "?resp n v" "?c ?m M" 1] by (simp add: base)
  have writes: "hb_step (?c m (add_mset (Extracting 1 resp base) M)) (Stored 1 True)
      (?c (extract_store 1 (extract_update ZeroTime resp base) m) M)" for m resp base M
    using hb_extract_store[of "?c m (add_mset (Extracting 1 resp base) M)" 1 resp base M ZeroTime] by simp
  let ?m1 = "extract_store 1 (extract_update ZeroTime ?a ?base) ?m"
  let ?m2 = "extract_store 1 (extract_update ZeroTime ?b ?base) ?m1"
  have "run hb_step (?c ?m {#}) [ExtractStarted 1, ExtractStarted 1, Stored 1 True, Stored 1 True] (?c ?m2 {#})"
    using reads[of "{#}" "''b''" "''y''"] reads[of "{#Extracting 1 ?b ?base#}" "''a''" "''x''"]
      writes[of ?m ?a ?base "{#Extracting 1 ?b ?base#}"] writes[of ?m1 ?b ?base "{#}"]
    by (auto intro!: run_cons run_nil)
  moreover have "hb_initial (?c ?m {#})" by (auto simp: hb_initial_def)
  moreover have "get_state 1 ?m2 = Some 1" "se_cookies (hb_states ?m2 1) = [sample_cookie ''b'' ''y'']"
    by (simp_all add: hb_ops get_state_def new_heartbeat_manager_def extract_update_def zero_state_def)
  ultimately show ?thesis
    by (intro exI[of _ "?c ?m {#}"] exI[of _ "?c ?m2 {#}"] exI[of _ 1]) (simp add: sample_cookie_def)
qed

subsection \<open>The background loop\<close>

text \<open>
  The ticker of \<open>loop\<close> runs at the interval in nanoseconds that \<open>loop_interval\<close> leaves. \<open>Start\<close> and \<open>Stop\<close>: \<open>hl_once\<close> is whether the \<open>sync.Once\<close> is used up, \<open>hl_loops\<close> the goroutines in
  \<open>loop\<close>, \<open>hl_stopping\<close> the calls of \<open>Stop\<close> that have found the channel open and are about to close
  it. With \<open>exclusive\<close>, no \<open>Stop\<close> begins while another is at that point.
\<close>

definition loop_interval :: "heartbeat \<Rightarrow> heartbeat" where
  "loop_interval m = (if hb_interval m \<le> 0 then m\<lparr>hb_interval := 30 * 1000000000\<rparr> else m)"

record hb_life =
  hl_once :: bool
  hl_closed :: bool
  hl_loops :: nat
  hl_started :: nat
  hl_stopping :: nat
  hl_panicked :: bool

definition life_new :: hb_life where
  "life_new = \<lparr>hl_once = False, hl_closed = False, hl_loops = 0, hl_started = 0, hl_stopping = 0, hl_panicked = False\<rparr>"

definition life_start :: "hb_life \<Rightarrow> hb_life" where
  "life_start l = (if hl_once l then l
     else l\<lparr>hl_once := True, hl_loops := Suc (hl_loops l), hl_started := Suc (hl_started l)\<rparr>)"

inductive life_step :: "bool \<Rightarrow> hb_life \<Rightarrow> hb_life \<Rightarrow> bool" for exclusive :: bool where
  ls_start: "life_step exclusive l (life_start l)"
| ls_stop_open: "exclusive \<longrightarrow> hl_stopping l = 0 \<Longrightarrow> \<not> hl_closed l \<Longrightarrow>
     life_step exclusive l (l\<lparr>hl_once := True, hl_stopping := Suc (hl_stopping l)\<rparr>)"
| ls_stop_closed: "hl_closed l \<Longrightarrow> life_step exclusive l (l\<lparr>hl_once := True\<rparr>)"
| ls_close: "hl_stopping l = Suc n \<Longrightarrow> \<not> hl_closed l \<Longrightarrow>
     life_step exclusive l (l\<lparr>hl_stopping := n, hl_closed := True\<rparr>)"
| ls_close_again: "hl_stopping l = Suc n \<Longrightarrow> hl_closed l \<Longrightarrow>
     life_step exclusive l (l\<lparr>hl_stopping := n, hl_panicked := True\<rparr>)"
| ls_exit: "hl_loops l = Suc n \<Longrightarrow> life_step exclusive l (l\<lparr>hl_loops := n\<rparr>)"

definition life_initial :: "hb_life \<Rightarrow> bool" where
  "life_initial l \<longleftrightarrow> l = life_new"

definition life_inv :: "hb_life \<Rightarrow> bool" where
  "life_inv l \<longleftrightarrow> hl_started l \<le> 1 \<and> hl_loops l \<le> hl_started l \<and> (\<not> hl_once l \<longrightarrow> hl_started l = 0)"

definition stop_inv :: "hb_life \<Rightarrow> bool" where
  "stop_inv l \<longleftrightarrow> \<not> hl_panicked l \<and> hl_stopping l \<le> 1 \<and> (hl_closed l \<longrightarrow> hl_stopping l = 0)"

interpretation life: invariant_machine life_initial "life_step exclusive" life_inv
  by unfold_locales
    (auto elim!: life_step.cases simp: life_inv_def life_initial_def life_new_def life_start_def split: if_splits)

interpretation stops: invariant_machine life_initial "life_step True" stop_inv
  by unfold_locales
    (auto elim!: life_step.cases simp: stop_inv_def life_initial_def life_new_def life_start_def split: if_splits)

text \<open>
  However \<open>Start\<close> and \<open>Stop\<close> are called, at most one background loop is ever started; calls of
  \<open>Stop\<close> that do not overlap never panic, however many there are, but two that overlap may both
  find the channel open, and the second close panics.
\<close>

theorem heartbeat_lifecycle:
  "(\<forall>l. reach life_initial (life_step exclusive) l \<longrightarrow> hl_started l \<le> 1 \<and> hl_loops l \<le> hl_started l)
    \<and> (\<forall>l. reach life_initial (life_step True) l \<longrightarrow> \<not> hl_panicked l)
    \<and> (\<exists>l. reach life_initial (life_step False) l \<and> hl_panicked l)"
proof (intro conjI allI impI)
  fix l assume "reach life_initial (life_step exclusive) l"
  from life.reach_inv[OF this] show "hl_started l \<le> 1" "hl_loops l \<le> hl_started l" by (simp_all add: life_inv_def)
next
  fix l assume "reach life_initial (life_step True) l"
  from stops.reach_inv[OF this] show "\<not> hl_panicked l" by (simp add: stop_inv_def)
next
  let ?l = "\<lambda>c n p. \<lparr>hl_once = True, hl_closed = c, hl_loops = 0, hl_started = 0, hl_stopping = n, hl_panicked = p\<rparr>"
  have "reach life_initial (life_step False) life_new" by (rule reach_initial) (simp add: life_initial_def)
  moreover have "life_step False life_new (?l False 1 False)"
    using ls_stop_open[of False life_new] by (simp add: life_new_def)
  moreover have "life_step False (?l False 1 False) (?l False 2 False)"
    using ls_stop_open[of False "?l False 1 False"] by (simp add: numeral_2_eq_2)
  moreover have "life_step False (?l False 2 False) (?l True 1 False)"
    using ls_close[of "?l False 2 False" 1 False] by (simp add: numeral_2_eq_2)
  moreover have "life_step False (?l True 1 False) (?l True 0 True)"
    using ls_close_again[of "?l True 1 False" 0 False] by simp
  ultimately have "reach life_initial (life_step False) (?l True 0 True)" by (blast intro: reach_step)
  then show "\<exists>l. reach life_initial (life_step False) l \<and> hl_panicked l" by force
qed

lemma heartbeat_lifecycle_witness: "hl_started (life_start life_new) \<le> 1 \<and> \<not> hl_panicked (life_start life_new)"
proof -
  have i: "reach life_initial (life_step True) life_new" by (rule reach_initial) (simp add: life_initial_def)
  have "reach life_initial (life_step True) (life_start life_new)" by (rule reach_step[OF i]) (rule ls_start)
  with heartbeat_lifecycle[of True] show ?thesis by blast
qed

end
