(* ===== verification/Fingerprint.thy ===== *)
theory Fingerprint
  imports Session "HOL-Library.Word"
begin

section \<open>fingerprint/fingerprint.go: browser profiles\<close>

text \<open>
  \<open>Profile\<close>: the headers and TLS settings of two browsers and their application to a session's
  header map and to a transport.
\<close>

subsection \<open>Profiles\<close>

text \<open>The fields of \<open>tls.Config\<close> the profiles set, with the numbers of the cipher suites.\<close>

record tls_settings =
  ts_min_version :: "16 word"
  ts_cipher_suites :: "16 word list"

record profile_header =
  ph_name :: gostring
  ph_value :: gostring

record profile =
  pf_tls_config :: "tls_settings option"
  pf_user_agent :: gostring
  pf_extra_headers :: "profile_header list"

definition profile_entry :: "gostring \<Rightarrow> gostring \<Rightarrow> profile_header" where
  "profile_entry n v = \<lparr>ph_name = n, ph_value = v\<rparr>"

definition version_tls12 :: "16 word" where
  "version_tls12 = 0x0303"

definition chrome_tls_config :: tls_settings where
  "chrome_tls_config =
     \<lparr>ts_min_version = version_tls12,
      ts_cipher_suites = [0x1301, 0x1302, 0x1303, 0xC02B, 0xC02F, 0xC02C, 0xC030, 0xCCA9, 0xCCA8]\<rparr>"

definition firefox_tls_config :: tls_settings where
  "firefox_tls_config =
     \<lparr>ts_min_version = version_tls12,
      ts_cipher_suites = [0x1301, 0x1303, 0x1302, 0xC02B, 0xC02F, 0xCCA9, 0xCCA8, 0xC030, 0xC02C]\<rparr>"

definition chrome_profile :: profile where
  "chrome_profile =
     \<lparr>pf_tls_config = Some chrome_tls_config,
      pf_user_agent = ''Mozilla/5.0 (Windows NT 10.0; Win64; x64) '' @ ''AppleWebKit/537.36 (KHTML, like Gecko) ''
        @ ''Chrome/120.0.0.0 Safari/537.36'',
      pf_extra_headers =
        [profile_entry ''Accept'' ''text/html,application/xhtml+xml,application/xml;q=0.9,image/avif,image/webp,image/apng,*/*;q=0.8'',
         profile_entry ''Accept-Language'' ''en-US,en;q=0.9'',
         profile_entry ''Accept-Encoding'' ''gzip, deflate, br'',
         profile_entry ''Sec-Ch-Ua'' ''\"Not_A Brand\";v=\"8\", \"Chromium\";v=\"120\", \"Google Chrome\";v=\"120\"'',
         profile_entry ''Sec-Ch-Ua-Mobile'' ''?0'',
         profile_entry ''Sec-Ch-Ua-Platform'' ''\"Windows\"'',
         profile_entry ''Sec-Fetch-Dest'' ''document'',
         profile_entry ''Sec-Fetch-Mode'' ''navigate'',
         profile_entry ''Sec-Fetch-Site'' ''none'',
         profile_entry ''Upgrade-Insecure-Requests'' ''1'']\<rparr>"

definition firefox_profile :: profile where
  "firefox_profile =
     \<lparr>pf_tls_config = Some firefox_tls_config,
      pf_user_agent = ''Mozilla/5.0 (Windows NT 10.0; Win64; x64; rv:121.0) '' @ ''Gecko/20100101 Firefox/121.0'',
      pf_extra_headers =
        [profile_entry ''Accept'' ''text/html,application/xhtml+xml,application/xml;q=0.9,image/avif,image/webp,*/*;q=0.8'',
         profile_entry ''Accept-Language'' ''en-US,en;q=0.5'',
         profile_entry ''Accept-Encoding'' ''gzip, deflate, br'',
         profile_entry ''Upgrade-Insecure-Requests'' ''1'',
         profile_entry ''Sec-Fetch-Dest'' ''document'',
         profile_entry ''Sec-Fetch-Mode'' ''navigate'',
         profile_entry ''Sec-Fetch-Site'' ''none'',
         profile_entry ''Sec-Fetch-User'' ''?1'']\<rparr>"

subsection \<open>Applying a profile\<close>

text \<open>A transport with its TLS settings and the fields the profile leaves alone; nil is None.\<close>

record 'f tls_transport =
  tp_tls :: "tls_settings option"
  tp_other :: 'f

definition apply_to_transport :: "profile \<Rightarrow> 'f tls_transport option \<Rightarrow> 'f tls_transport option" where
  "apply_to_transport p t =
     (case t of
        None \<Rightarrow> None
      | Some tr \<Rightarrow>
          (case pf_tls_config p of
             None \<Rightarrow> Some tr
           | Some c \<Rightarrow> Some (tr\<lparr>tp_tls := Some c\<rparr>)))"

fun add_extra_headers :: "profile_header list \<Rightarrow> (gostring \<rightharpoonup> gostring) \<Rightarrow> (gostring \<rightharpoonup> gostring)" where
  "add_extra_headers [] headers = headers"
| "add_extra_headers (h # hs) headers =
     add_extra_headers hs (case headers (ph_name h) of None \<Rightarrow> headers(ph_name h \<mapsto> ph_value h) | Some v \<Rightarrow> headers)"

definition apply_headers :: "profile \<Rightarrow> (gostring \<rightharpoonup> gostring) option \<Rightarrow> (gostring \<rightharpoonup> gostring) option" where
  "apply_headers p headers =
     (case headers of
        None \<Rightarrow> None
      | Some m \<Rightarrow>
          (let m1 = (if pf_user_agent p \<noteq> [] then m(''User-Agent'' \<mapsto> pf_user_agent p) else m)
           in Some (add_extra_headers (pf_extra_headers p) m1)))"

subsection \<open>What a session's headers become\<close>

lemma add_extra_headers_lookup:
  "add_extra_headers hs m k =
     (case m k of Some v \<Rightarrow> Some v | None \<Rightarrow> map_of (map (\<lambda>h. (ph_name h, ph_value h)) hs) k)"
  by (induction hs m rule: add_extra_headers.induct) (auto split: option.split)

lemma apply_headers_value:
  "\<exists>m'. apply_headers p (Some m) = Some m'
     \<and> (\<forall>k. m' k =
          (if k = ''User-Agent'' \<and> pf_user_agent p \<noteq> [] then Some (pf_user_agent p)
           else (case m k of Some v \<Rightarrow> Some v | None \<Rightarrow> map_of (map (\<lambda>h. (ph_name h, ph_value h)) (pf_extra_headers p)) k)))"
  by (auto simp: apply_headers_def Let_def add_extra_headers_lookup split: option.split)

text \<open>
  C37: Applying a profile gives a session's header map the profile's user agent, whatever it had, and
  for every other key the session's own value where it has one and the profile's first value for
  that key otherwise; nothing else is added or lost. Applying it again changes nothing.
\<close>

theorem apply_headers_spec:
  "(\<exists>m'. apply_headers p (Some m) = Some m'
     \<and> (\<forall>k. m' k =
          (if k = ''User-Agent'' \<and> pf_user_agent p \<noteq> [] then Some (pf_user_agent p)
           else (case m k of Some v \<Rightarrow> Some v | None \<Rightarrow> map_of (map (\<lambda>h. (ph_name h, ph_value h)) (pf_extra_headers p)) k)))
     \<and> apply_headers p (Some m') = Some m')
   \<and> apply_headers p None = None"
proof -
  obtain m1 where 1: "apply_headers p (Some m) = Some m1"
    "\<And>k. m1 k = (if k = ''User-Agent'' \<and> pf_user_agent p \<noteq> [] then Some (pf_user_agent p)
       else (case m k of Some v \<Rightarrow> Some v | None \<Rightarrow> map_of (map (\<lambda>h. (ph_name h, ph_value h)) (pf_extra_headers p)) k))"
    using apply_headers_value[of p m] by blast
  obtain m2 where 2: "apply_headers p (Some m1) = Some m2"
    "\<And>k. m2 k = (if k = ''User-Agent'' \<and> pf_user_agent p \<noteq> [] then Some (pf_user_agent p)
       else (case m1 k of Some v \<Rightarrow> Some v | None \<Rightarrow> map_of (map (\<lambda>h. (ph_name h, ph_value h)) (pf_extra_headers p)) k))"
    using apply_headers_value[of p m1] by blast
  have "m2 = m1" by (rule ext) (simp add: 2(2) 1(2) split: option.split)
  with 1 2 show ?thesis by (intro conjI exI[of _ m1]) (simp_all add: apply_headers_def)
qed

lemma set_headers_append: "set_headers (xs @ ys) h = set_headers ys (set_headers xs h)"
  by (induction xs h rule: set_headers.induct) auto

lemma map_of_key: "map_of xs k = Some y \<Longrightarrow> k \<in> fst ` set xs"
  by (metis domI dom_map_of_conv_image_fst)

lemma enumerates_two_last:
  assumes "finite (dom m)" "m a = Some x" "m b = Some y" "a \<noteq> b"
  shows "\<exists>xs. enumerates m (xs @ [(a, x), (b, y)])"
proof -
  let ?m = "m |` (- {a, b})"
  have "finite (dom ?m)" using assms(1) by (simp add: dom_restrict)
  then obtain xs where xs: "enumerates ?m xs" using enumerates_exists by blast
  have keys: "set (map fst xs) = dom m - {a, b}" using enumerates_dom[OF xs] by auto
  have "map_of (xs @ [(a, x), (b, y)]) k = m k" for k
  proof (cases "k \<in> {a, b}")
    case True
    with keys have "map_of xs k = None" by (auto simp: map_of_eq_None_iff)
    with True assms show ?thesis by (auto simp: map_add_def)
  next
    case False
    have "map_of xs k = ?m k" using xs by (simp add: enumerates_def)
    with False show ?thesis by (auto simp: map_add_def split: option.split)
  qed
  moreover have "distinct (map fst (xs @ [(a, x), (b, y)]))"
    using xs keys assms(4) by (auto simp: enumerates_def)
  ultimately show ?thesis by (auto simp: enumerates_def fun_eq_iff)
qed

text \<open>
  A session's own header loses its precedence when it is spelt in another case: a session that
  sets \<open>accept\<close> gets the profile's \<open>Accept\<close> beside it, both are the same header of a request,
  and which of them \<open>ExecuteRequest\<close> sends depends on the order the map is visited in.
\<close>

theorem override_lost_by_case:
  "\<exists>m order1 order2. apply_headers chrome_profile (Some [''accept'' \<mapsto> ''text/plain'']) = Some m
    \<and> enumerates m order1 \<and> enumerates m order2
    \<and> header_get (set_headers order1 Map.empty) ''accept'' = ''text/plain''
    \<and> header_get (set_headers order2 Map.empty) ''accept'' = ph_value (hd (pf_extra_headers chrome_profile))"
proof -
  obtain m where m: "apply_headers chrome_profile (Some [''accept'' \<mapsto> ''text/plain'']) = Some m"
    "\<And>k. m k = (if k = ''User-Agent'' \<and> pf_user_agent chrome_profile \<noteq> [] then Some (pf_user_agent chrome_profile)
       else (case [''accept'' \<mapsto> ''text/plain''] k of Some v \<Rightarrow> Some v
             | None \<Rightarrow> map_of (map (\<lambda>h. (ph_name h, ph_value h)) (pf_extra_headers chrome_profile)) k))"
    using apply_headers_value[of chrome_profile "[''accept'' \<mapsto> ''text/plain'']"] by blast
  let ?v = "ph_value (hd (pf_extra_headers chrome_profile))"
  define extra where "extra = map (\<lambda>h. (ph_name h, ph_value h)) (pf_extra_headers chrome_profile)"
  have "dom m \<subseteq> {''User-Agent'', ''accept''} \<union> fst ` set extra"
    using map_of_key[of extra] unfolding dom_def m(2) extra_def[symmetric]
    by (auto split: if_splits option.splits)
  then have fin: "finite (dom m)" by (rule finite_subset) simp
  have a: "m ''accept'' = Some ''text/plain''" by (simp add: m(2))
  have b: "m ''Accept'' = Some ?v" by (simp add: m(2) chrome_profile_def profile_entry_def)
  obtain xs where xs: "enumerates m (xs @ [(''Accept'', ?v), (''accept'', ''text/plain'')])"
    using enumerates_two_last[of m "''Accept''" ?v "''accept''" "''text/plain''"] fin a b by auto
  obtain ys where ys: "enumerates m (ys @ [(''accept'', ''text/plain''), (''Accept'', ?v)])"
    using enumerates_two_last[of m "''accept''" "''text/plain''" "''Accept''" ?v] fin a b by auto
  have "canonical_key ''accept'' = canonical_key ''Accept''" by code_simp
  then have "header_get (set_headers (xs @ [(''Accept'', ?v), (''accept'', ''text/plain'')]) Map.empty) ''accept'' = ''text/plain''"
    "header_get (set_headers (ys @ [(''accept'', ''text/plain''), (''Accept'', ?v)]) Map.empty) ''accept'' = ?v"
    by (simp_all add: set_headers_append header_get_def header_first_def header_set_def)
  with m(1) xs ys show ?thesis by blast
qed

end
