(* ===== verification/Sensor.thy ===== *)
theory Sensor
  imports Http_Headers Complex_Main "HOL-Library.Signed_Division" "HOL-Library.Monad_Syntax"
begin

section \<open>fingerprint/sensor.go: sensor payloads\<close>

text \<open>
  The generator of a sensor payload and the request that carries it. The random source is an
  argument, a state with three ways to draw from it; \<open>float64\<close> arithmetic is taken as arithmetic on
  the reals, so what is proved of coordinates and delays leaves out its rounding.
\<close>

subsection \<open>Data\<close>

record screen_info =
  sc_width :: int
  sc_height :: int
  sc_avail_width :: int
  sc_avail_height :: int
  sc_color_depth :: int
  sc_pixel_depth :: int

record navigator_info =
  nv_plugins_length :: int
  nv_platform :: gostring
  nv_language :: gostring
  nv_languages :: gostring
  nv_cookies_enabled :: bool
  nv_do_not_track :: gostring
  nv_hardware_concurrency :: int
  nv_max_touch_points :: int
  nv_web_driver :: bool

record mouse_point =
  mp_x :: real
  mp_y :: real
  mp_t :: int
  mp_event :: int

record sensor_payload =
  sp_version :: gostring
  sp_ab :: gostring
  sp_screen :: screen_info
  sp_navigator :: navigator_info
  sp_timezone_offset :: int
  sp_mouse_movements :: "mouse_point list"
  sp_canvas_hash :: gostring
  sp_seq :: int
  sp_timestamp :: int

definition screen :: "int \<Rightarrow> int \<Rightarrow> int \<Rightarrow> int \<Rightarrow> screen_info" where
  "screen w h aw ah = \<lparr>sc_width = w, sc_height = h, sc_avail_width = aw, sc_avail_height = ah, sc_color_depth = 24, sc_pixel_depth = 24\<rparr>"

definition common_screen_resolutions :: "screen_info list" where
  "common_screen_resolutions =
     [screen 1920 1080 1920 1040, screen 1366 768 1366 728, screen 1536 864 1536 824, screen 1440 900 1440 860,
      screen 1280 720 1280 680, screen 2560 1440 2560 1400, screen 1600 900 1600 860]"

definition common_timezone_offsets :: "int list" where
  "common_timezone_offsets = [0, -60, 300, 360, 420, 480, -330, -540]"

subsection \<open>Drawing\<close>

text \<open>\<open>rand.Rand\<close>: \<open>Intn\<close> panics (None) unless its bound is positive.\<close>

record 'g random_source =
  rs_intn :: "int \<Rightarrow> 'g \<Rightarrow> int \<times> 'g"
  rs_float64 :: "'g \<Rightarrow> real \<times> 'g"
  rs_uint32 :: "'g \<Rightarrow> nat \<times> 'g"

definition intn :: "'g random_source \<Rightarrow> int \<Rightarrow> 'g \<Rightarrow> (int \<times> 'g) option" where
  "intn R n g = (if n \<le> 0 then None else Some (rs_intn R n g))"

definition hw_choices :: "int list" where
  "hw_choices = [4, 4, 4, 8, 8, 8, 12, 16]"

definition hw_concurrency :: "'g random_source \<Rightarrow> 'g \<Rightarrow> (int \<times> 'g) option" where
  "hw_concurrency R g = do { (i, g1) \<leftarrow> intn R (int (length hw_choices)) g; Some (hw_choices ! nat i, g1) }"

text \<open>The verb \<open>%08x\<close> of a 32-bit number.\<close>

definition hex8 :: "nat \<Rightarrow> gostring" where
  "hex8 n = map (\<lambda>i. hex_char (n div 16 ^ i mod 16)) [7, 6, 5, 4, 3, 2, 1, 0]"

definition random_canvas_hash :: "'g random_source \<Rightarrow> 'g \<Rightarrow> gostring \<times> 'g" where
  "random_canvas_hash R g = (let (u, g1) = rs_uint32 R g in (hex8 u, g1))"

subsection \<open>The mouse path\<close>

type_synonym point = "real \<times> real"

fun cubic_bezier :: "real \<Rightarrow> point \<Rightarrow> point \<Rightarrow> point \<Rightarrow> point \<Rightarrow> point" where
  "cubic_bezier t (x0, y0) (x1, y1) (x2, y2) (x3, y3) =
     (let u = 1 - t;
          x = u * u * u * x0 + 3 * u * u * t * x1 + 3 * u * t * t * x2 + t * t * t * x3;
          y = u * u * u * y0 + 3 * u * u * t * y1 + 3 * u * t * t * y2 + t * t * t * y3
      in (x, y))"

definition ease_in_out :: "real \<Rightarrow> real" where
  "ease_in_out t = t * t * (3 - 2 * t)"

text \<open>\<open>math.Round\<close>: to the nearest integer, halves away from zero.\<close>

definition math_round :: "real \<Rightarrow> int" where
  "math_round x = (if x \<ge> 0 then \<lfloor>x + 1 / 2\<rfloor> else \<lceil>x - 1 / 2\<rceil>)"

text \<open>The delay before a sample, before and after the jitter and the lower bound.\<close>

definition sample_pace :: "real \<Rightarrow> int" where
  "sample_pace raw_t = (let speed = 0.5 + sin (pi * raw_t) in math_round (12 / (speed + 0.1)))"

definition sample_delay :: "int \<Rightarrow> int \<Rightarrow> int" where
  "sample_delay pace jitter = (let delay = pace + (jitter - 2) in if delay < 4 then 4 else delay)"

text \<open>The loop from round \<open>i\<close> on, with \<open>k\<close> rounds left of \<open>n\<close>; \<open>curve\<close> is the Bezier curve.\<close>

fun mouse_samples ::
  "'g random_source \<Rightarrow> (real \<Rightarrow> real \<times> real) \<Rightarrow> int \<Rightarrow> nat \<Rightarrow> nat \<Rightarrow> nat \<Rightarrow> int \<Rightarrow> 'g \<Rightarrow> (mouse_point list \<times> 'g) option" where
  "mouse_samples R curve base n i 0 elapsed g = Some ([], g)"
| "mouse_samples R curve base n i (Suc k) elapsed g =
     (let raw_t = real i / real (n - 1); (x, y) = curve (ease_in_out raw_t);
          (fx, g1) = rs_float64 R g; (fy, g2) = rs_float64 R g1;
          x' = x + (fx - 0.5) * 1.2; y' = y + (fy - 0.5) * 1.2
      in do {
           (jitter, g3) \<leftarrow> intn R 6 g2;
           let elapsed' = elapsed + sample_delay (sample_pace raw_t) jitter;
           (points, g4) \<leftarrow> mouse_samples R curve base n (Suc i) k elapsed' g3;
           Some (\<lparr>mp_x = real_of_int (math_round (x' * 100)) / 100, mp_y = real_of_int (math_round (y' * 100)) / 100,
                  mp_t = base + elapsed', mp_event = 0\<rparr> # points, g4)
         })"

definition generate_mouse_path :: "'g random_source \<Rightarrow> int \<Rightarrow> int \<Rightarrow> 'g \<Rightarrow> (mouse_point list \<times> 'g) option" where
  "generate_mouse_path R screen_w screen_h g =
     do {
       (dn, g) \<leftarrow> intn R (45 - 18 + 1) g;
       let n = nat (18 + dn);
       (dx0, g) \<leftarrow> intn R (screen_w sdiv 4) g;
       (dy0, g) \<leftarrow> intn R (screen_h sdiv 4) g;
       let x0 = real_of_int (50 + dx0);
       let y0 = real_of_int (50 + dy0);
       (dx3, g) \<leftarrow> intn R (screen_w sdiv 2) g;
       (dy3, g) \<leftarrow> intn R (screen_h sdiv 2) g;
       let x3 = real_of_int (screen_w sdiv 4 + dx3);
       let y3 = real_of_int (screen_h sdiv 4 + dy3);
       (dx1, g) \<leftarrow> intn R (screen_w sdiv 3) g;
       (dy1, g) \<leftarrow> intn R (screen_h sdiv 4) g;
       (dx2, g) \<leftarrow> intn R (screen_w sdiv 3) g;
       (dy2, g) \<leftarrow> intn R (screen_h sdiv 4) g;
       let x1 = x0 + real_of_int (dx1 + screen_w sdiv 6);
       let y1 = y0 - real_of_int (dy1 + 30);
       let x2 = x3 - real_of_int (dx2 + screen_w sdiv 6);
       let y2 = y3 + real_of_int (dy2 + 30);
       (dt, g) \<leftarrow> intn R 1200 g;
       (points, g) \<leftarrow> mouse_samples R (\<lambda>t. cubic_bezier t (x0, y0) (x1, y1) (x2, y2) (x3, y3)) (800 + dt) n 0 n 0 g;
       let last_t = mp_t (last points);
       (down, g) \<leftarrow> intn R 40 g;
       (up, g) \<leftarrow> intn R 120 g;
       Some (points @ [\<lparr>mp_x = x3, mp_y = y3, mp_t = last_t + (20 + down), mp_event = 1\<rparr>,
                       \<lparr>mp_x = x3, mp_y = y3, mp_t = last_t + (80 + up), mp_event = 2\<rparr>], g)
     }"

definition generate_sensor_payload :: "'g random_source \<Rightarrow> int \<Rightarrow> int \<Rightarrow> 'g \<Rightarrow> (sensor_payload \<times> 'g) option" where
  "generate_sensor_payload R now_milli seq g =
     do {
       (si, g) \<leftarrow> intn R (int (length common_screen_resolutions)) g;
       let sc = common_screen_resolutions ! nat si;
       (ti, g) \<leftarrow> intn R (int (length common_timezone_offsets)) g;
       let tz = common_timezone_offsets ! nat ti;
       (dp, g) \<leftarrow> intn R 3 g;
       (hw, g) \<leftarrow> hw_concurrency R g;
       let nav = \<lparr>nv_plugins_length = 3 + dp, nv_platform = ''Win32'', nv_language = ''en-US'', nv_languages = ''en-US,en'',
                  nv_cookies_enabled = True, nv_do_not_track = ''unspecified'', nv_hardware_concurrency = hw,
                  nv_max_touch_points = 0, nv_web_driver = False\<rparr>;
       (movements, g) \<leftarrow> generate_mouse_path R (sc_width sc) (sc_height sc) g;
       let (hash, g) = random_canvas_hash R g;
       Some (\<lparr>sp_version = ''2.0'', sp_ab = [], sp_screen = sc, sp_navigator = nav, sp_timezone_offset = tz,
              sp_mouse_movements = movements, sp_canvas_hash = hash, sp_seq = seq, sp_timestamp = now_milli\<rparr>, g)
     }"

subsection \<open>The request\<close>

fun index_text :: "gostring \<Rightarrow> gostring \<Rightarrow> nat option" where
  "index_text p [] = (if p = [] then Some 0 else None)"
| "index_text p (c # cs) = (if is_prefix p (c # cs) then Some 0 else map_option Suc (index_text p cs))"

definition extract_origin :: "gostring \<Rightarrow> gostring" where
  "extract_origin raw_url =
     (case index_text ''://'' raw_url of
        Some i \<Rightarrow>
          (let rest = drop (i + 3) raw_url in
           case index_text ''/'' rest of
             Some j \<Rightarrow> take (i + 3 + j) raw_url
           | None \<Rightarrow> raw_url)
      | None \<Rightarrow> raw_url)"

definition sensor_headers :: "gostring \<Rightarrow> http_header" where
  "sensor_headers origin =
     header_set ''sec-fetch-dest'' ''empty''
       (header_set ''sec-fetch-mode'' ''cors''
         (header_set ''sec-fetch-site'' ''same-origin''
           (header_set ''Referer'' (origin @ ''/'')
             (header_set ''Origin'' origin
               (header_set ''Accept'' ''*/*''
                 (header_set ''Content-Type'' ''text/plain;charset=UTF-8'' Map.empty))))))"

text \<open>\<open>marshal\<close> is the JSON encoder, \<open>new_request\<close> what \<open>http.NewRequest\<close> makes of the URL.\<close>

definition new_sensor_request ::
  "(sensor_payload \<Rightarrow> goerror + gostring) \<Rightarrow> (gostring \<Rightarrow> goerror option) \<Rightarrow> gostring \<Rightarrow> sensor_payload
   \<Rightarrow> goerror + gostring \<times> http_header" where
  "new_sensor_request marshal new_request endpoint payload =
     (case marshal payload of
        Inl e \<Rightarrow> Inl (''sensor: marshal payload: '' @ e)
      | Inr body \<Rightarrow>
          (case new_request endpoint of
             Some e \<Rightarrow> Inl (''sensor: build request: '' @ e)
           | None \<Rightarrow> Inr (body, sensor_headers (extract_origin endpoint))))"

subsection \<open>Delays\<close>

lemma sample_pace_bounds:
  assumes "0 \<le> t" "t \<le> 1"
  shows "8 \<le> sample_pace t" "sample_pace t \<le> 20"
proof -
  have s: "0 \<le> sin (pi * t)" "sin (pi * t) \<le> 1"
    using assms by (auto intro!: sin_ge_zero simp: mult_left_le)
  let ?q = "12 / (0.5 + sin (pi * t) + 0.1)"
  have "7.5 \<le> ?q" "?q \<le> 20" using s by (auto simp: field_simps)
  with s show "8 \<le> sample_pace t" "sample_pace t \<le> 20"
    by (auto simp: sample_pace_def math_round_def Let_def le_floor_iff floor_le_iff)
qed

lemma sample_delay_bounds:
  "0 \<le> t \<Longrightarrow> t \<le> 1 \<Longrightarrow> 0 \<le> j \<Longrightarrow> j < 6 \<Longrightarrow>
    sample_delay (sample_pace t) j = sample_pace t + (j - 2) \<and> 6 \<le> sample_delay (sample_pace t) j \<and> sample_delay (sample_pace t) j \<le> 23"
  using sample_pace_bounds[of t] by (simp add: sample_delay_def Let_def)

subsection \<open>The path\<close>

text \<open>What the code relies on: \<open>Intn\<close> stays below its bound.\<close>

definition fair_draws :: "'g random_source \<Rightarrow> bool" where
  "fair_draws R \<longleftrightarrow> (\<forall>n g. 0 < n \<longrightarrow> 0 \<le> fst (rs_intn R n g) \<and> fst (rs_intn R n g) < n)"

lemma fair_intn: "fair_draws R \<Longrightarrow> 0 < n \<Longrightarrow> \<exists>d g'. intn R n g = Some (d, g') \<and> 0 \<le> d \<and> d < n"
  unfolding fair_draws_def intn_def by (metis not_le prod.collapse)

lemma sorted_le_last: "sorted xs \<Longrightarrow> x \<in> set xs \<Longrightarrow> x \<le> last xs"
  by (induction xs) auto

text \<open>Times of successive samples lie 6 to 23 milliseconds apart.\<close>

definition paced :: "int list \<Rightarrow> bool" where
  "paced ts \<longleftrightarrow> successively (\<lambda>a b. 6 \<le> b - a \<and> b - a \<le> 23) ts"

lemma paced_bounds: "paced (a # ts) \<Longrightarrow> t \<in> set ts \<Longrightarrow> a + 6 \<le> t \<and> t \<le> a + 23 * int (length ts)"
proof (induction ts arbitrary: a)
  case (Cons b ts)
  then have b: "a + 6 \<le> b" "b \<le> a + 23" "paced (b # ts)" by (simp_all add: paced_def)
  show ?case
  proof (cases "t = b")
    case False
    with Cons.prems(2) Cons.IH[OF b(3)] b show ?thesis by auto
  qed (use b in auto)
qed simp

lemma paced_sorted: "paced ts \<Longrightarrow> sorted_wrt (<) ts"
proof (induction ts)
  case (Cons a ts)
  then have "paced ts" by (cases ts) (simp_all add: paced_def)
  with Cons paced_bounds[OF Cons.prems] show ?case by fastforce
qed simp

lemma mouse_samples_spec:
  assumes "fair_draws R" "i + k = n" "2 \<le> n"
  shows "\<exists>ps g'. mouse_samples R curve base n i k elapsed g = Some (ps, g') \<and> map mp_event ps = replicate k 0
    \<and> paced ((base + elapsed) # map mp_t ps)"
  using assms(2)
proof (induction k arbitrary: i elapsed g)
  case 0
  then show ?case by (simp add: paced_def)
next
  case (Suc k)
  let ?t = "real i / real (n - Suc 0)"
  have t: "0 \<le> ?t" "?t \<le> 1" using Suc.prems assms(3) by (auto simp: divide_le_eq_1)
  obtain x y where c: "curve (ease_in_out ?t) = (x, y)" by fastforce
  obtain fx g1 where f1: "rs_float64 R g = (fx, g1)" by fastforce
  obtain fy g2 where f2: "rs_float64 R g1 = (fy, g2)" by fastforce
  obtain j g3 where j: "intn R 6 g2 = Some (j, g3)" "0 \<le> j" "j < 6" using fair_intn[OF assms(1), of 6 g2] by auto
  let ?e = "elapsed + sample_delay (sample_pace ?t) j"
  have d: "6 \<le> ?e - elapsed" "?e - elapsed \<le> 23" using sample_delay_bounds[OF t j(2,3)] by simp_all
  from Suc.IH[of "Suc i" ?e g3] Suc.prems obtain ps g' where ps: "mouse_samples R curve base n (Suc i) k ?e g3 = Some (ps, g')"
    "map mp_event ps = replicate k 0" "paced ((base + ?e) # map mp_t ps)" by auto
  then show ?case using d by (simp add: c f1 f2 j paced_def Let_def)
qed

lemma sdiv_pos: "0 \<le> (w :: int) \<Longrightarrow> 0 < d \<Longrightarrow> w sdiv d = w div d"
  by (simp add: signed_divide_int_def sgn_if)

text \<open>The draws of a path one after the other, then its facts.\<close>

lemma mouse_path_facts:
  assumes "fair_draws R" "sc \<in> set common_screen_resolutions"
  shows "\<exists>moves down up g'. generate_mouse_path R (sc_width sc) (sc_height sc) g = Some (moves @ [down, up], g')
    \<and> 18 \<le> length moves \<and> length moves \<le> 45
    \<and> map mp_event (moves @ [down, up]) = replicate (length moves) 0 @ [1, 2]
    \<and> paced (map mp_t moves) \<and> sorted_wrt (<) (map mp_t (moves @ [down, up]))
    \<and> set (map mp_t (moves @ [down, up])) \<subseteq> {806..3300}
    \<and> mp_x up = mp_x down \<and> mp_y up = mp_y down
    \<and> 0 < mp_x down \<and> mp_x down < sc_width sc \<and> 0 < mp_y down \<and> mp_y down < sc_height sc"
proof -
  let ?w = "sc_width sc" and ?h = "sc_height sc"
  have wh: "1200 \<le> ?w" "700 \<le> ?h" using assms(2) by (auto simp: common_screen_resolutions_def screen_def)
  then have q: "?w sdiv 4 = ?w div 4" "?w sdiv 2 = ?w div 2" "?w sdiv 3 = ?w div 3" "?h sdiv 4 = ?h div 4" "?h sdiv 2 = ?h div 2"
    by (simp_all add: sdiv_pos)
  have pos: "0 < ?w sdiv 4" "0 < ?w sdiv 2" "0 < ?w sdiv 3" "0 < ?h sdiv 4" "0 < ?h sdiv 2"
    using wh unfolding q by simp_all
  note fair = fair_intn[OF assms(1)]
  obtain dn g1 where 1: "intn R 28 g = Some (dn, g1)" "0 \<le> dn" "dn < 28" using fair[of 28 g] by auto
  obtain dx0 g2 where 2: "intn R (?w sdiv 4) g1 = Some (dx0, g2)" using fair[OF pos(1), of g1] by auto
  obtain dy0 g3 where 3: "intn R (?h sdiv 4) g2 = Some (dy0, g3)" using fair[OF pos(4), of g2] by auto
  obtain dx3 g4 where 4: "intn R (?w sdiv 2) g3 = Some (dx3, g4)" "0 \<le> dx3" "dx3 < ?w sdiv 2" using fair[OF pos(2), of g3] by auto
  obtain dy3 g5 where 5: "intn R (?h sdiv 2) g4 = Some (dy3, g5)" "0 \<le> dy3" "dy3 < ?h sdiv 2" using fair[OF pos(5), of g4] by auto
  obtain dx1 g6 where 6: "intn R (?w sdiv 3) g5 = Some (dx1, g6)" using fair[OF pos(3), of g5] by auto
  obtain dy1 g7 where 7: "intn R (?h sdiv 4) g6 = Some (dy1, g7)" using fair[OF pos(4), of g6] by auto
  obtain dx2 g8 where 8: "intn R (?w sdiv 3) g7 = Some (dx2, g8)" using fair[OF pos(3), of g7] by auto
  obtain dy2 g9 where 9: "intn R (?h sdiv 4) g8 = Some (dy2, g9)" using fair[OF pos(4), of g8] by auto
  obtain dt g10 where 10: "intn R 1200 g9 = Some (dt, g10)" "0 \<le> dt" "dt < 1200" using fair[of 1200 g9] by auto
  let ?n = "nat (18 + dn)"
  let ?x0 = "real_of_int (50 + dx0)" and ?y0 = "real_of_int (50 + dy0)"
  let ?x3 = "real_of_int (?w sdiv 4 + dx3)" and ?y3 = "real_of_int (?h sdiv 4 + dy3)"
  let ?curve = "\<lambda>t. cubic_bezier t (?x0, ?y0) (?x0 + real_of_int (dx1 + ?w sdiv 6), ?y0 - real_of_int (dy1 + 30))
    (?x3 - real_of_int (dx2 + ?w sdiv 6), ?y3 + real_of_int (dy2 + 30)) (?x3, ?y3)"
  have n: "18 \<le> ?n" "?n \<le> 45" using 1(2,3) by simp_all
  obtain moves g11 where m: "mouse_samples R ?curve (800 + dt) ?n 0 ?n 0 g10 = Some (moves, g11)"
    "map mp_event moves = replicate ?n 0" "paced ((800 + dt + 0) # map mp_t moves)"
    using mouse_samples_spec[OF assms(1), of 0 ?n ?n ?curve "800 + dt" 0 g10] n by auto
  obtain dd g12 where 12: "intn R 40 g11 = Some (dd, g12)" "0 \<le> dd" "dd < 40" using fair[of 40 g11] by auto
  obtain du g13 where 13: "intn R 120 g12 = Some (du, g13)" "0 \<le> du" "du < 120" using fair[of 120 g12] by auto
  let ?last = "mp_t (last moves)"
  let ?down = "\<lparr>mp_x = ?x3, mp_y = ?y3, mp_t = ?last + (20 + dd), mp_event = 1\<rparr>"
  let ?up = "\<lparr>mp_x = ?x3, mp_y = ?y3, mp_t = ?last + (80 + du), mp_event = 2\<rparr>"
  have range28: "(45 - 18 + 1 :: int) = 28" by simp
  have result: "generate_mouse_path R ?w ?h g = Some (moves @ [?down, ?up], g13)"
    by (simp only: generate_mouse_path_def Let_def range28 1(1) 2 3 4(1) 5(1) 6 7 8 9 10(1) m(1) 12(1) 13(1)
        Option.bind.bind_lunit prod.case)
  have len: "length moves = ?n" using arg_cong[OF m(2), of length] by simp
  have bounds: "806 \<le> t \<and> t \<le> 3034" if "t \<in> set (map mp_t moves)" for t
    using paced_bounds[OF m(3) that] n 1(2,3) 10(2,3) len by simp
  have pm: "paced (map mp_t moves)" using m(3) by (cases moves) (simp_all add: paced_def)
  have ne: "moves \<noteq> []" using len n by auto
  have up_to: "t \<le> ?last" if "t \<in> set (map mp_t moves)" for t
    using sorted_le_last[of "map mp_t moves" t] paced_sorted[OF pm] that ne
    by (simp add: strict_sorted_iff last_map)
  have last: "806 \<le> ?last" "?last \<le> 3034" using bounds[of ?last] ne by simp_all
  have sorted: "sorted_wrt (<) (map mp_t (moves @ [?down, ?up]))"
    using paced_sorted[OF pm] up_to 12(2,3) 13(2) by (force simp: sorted_wrt_append)
  have times: "set (map mp_t (moves @ [?down, ?up])) \<subseteq> {806..3300}"
    using bounds last 12(2,3) 13(2,3) by force
  have inside: "0 < ?x3" "?x3 < ?w" "0 < ?y3" "?y3 < ?h"
  proof -
    have "?w sdiv 4 + dx3 < ?w" "?h sdiv 4 + dy3 < ?h" using 4(3) 5(3) wh unfolding q by linarith+
    then show "?x3 < ?w" "?y3 < ?h" by simp_all
    have "0 < ?w sdiv 4 + dx3" "0 < ?h sdiv 4 + dy3" using pos 4(2) 5(2) by simp_all
    then show "0 < ?x3" "0 < ?y3" by (simp_all only: of_int_0_less_iff)
  qed
  have events: "map mp_event (moves @ [?down, ?up]) = replicate (length moves) 0 @ [1, 2]" using m(2) len by simp
  show ?thesis
    using result n len events pm sorted times inside
    by (intro exI[of _ moves] exI[of _ ?down] exI[of _ ?up] exI[of _ g13] conjI) simp_all
qed

text \<open>
  C38: On every screen of the list the generator returns a path without panicking, whatever is drawn:
  18 to 45 moves and a press and a release; times strictly increase, moves 6 to 23 milliseconds
  apart (so the lower bound of 4 on a delay never applies), all within the first 3.3 seconds; press
  and release are at one point inside the middle of the screen.
\<close>

theorem mouse_path_spec:
  assumes "fair_draws R" "sc \<in> set common_screen_resolutions"
  shows "\<exists>moves down up g'. generate_mouse_path R (sc_width sc) (sc_height sc) g = Some (moves @ [down, up], g')
    \<and> 18 \<le> length moves \<and> length moves \<le> 45
    \<and> map mp_event (moves @ [down, up]) = replicate (length moves) 0 @ [1, 2]
    \<and> paced (map mp_t moves) \<and> sorted_wrt (<) (map mp_t (moves @ [down, up]))
    \<and> set (map mp_t (moves @ [down, up])) \<subseteq> {806..3300}
    \<and> mp_x up = mp_x down \<and> mp_y up = mp_y down
    \<and> 0 < mp_x down \<and> mp_x down < sc_width sc \<and> 0 < mp_y down \<and> mp_y down < sc_height sc"
  using assms by (rule mouse_path_facts)

text \<open>A source that draws from a list of numbers, in a circle.\<close>

definition list_source :: "nat list random_source" where
  "list_source = \<lparr>rs_intn = (\<lambda>n xs. (case xs of [] \<Rightarrow> (0, []) | x # ys \<Rightarrow> (int x mod n, ys @ [x]))),
     rs_float64 = (\<lambda>xs. (1 / 2, xs)), rs_uint32 = (\<lambda>xs. (0, xs))\<rparr>"

theorem mouse_path_spec_witness:
  "\<exists>path g'. generate_mouse_path list_source 1366 768 [3, 1, 4] = Some (path, g') \<and> 20 \<le> length path"
proof -
  have "fair_draws list_source" by (auto simp: fair_draws_def list_source_def split: list.split)
  moreover have "screen 1366 768 1366 728 \<in> set common_screen_resolutions" by (simp add: common_screen_resolutions_def)
  ultimately obtain moves down up g' where
    "generate_mouse_path list_source 1366 768 [3, 1, 4] = Some (moves @ [down, up], g')" "18 \<le> length moves"
    using mouse_path_spec[of list_source "screen 1366 768 1366 728" "[3, 1, 4]"] by (auto simp: screen_def)
  then show ?thesis by (intro exI[of _ "moves @ [down, up]"]) simp
qed

subsection \<open>Origins\<close>

lemma extract_origin_prefix: "\<exists>r. raw_url = extract_origin raw_url @ r"
  unfolding extract_origin_def
  by (auto simp: Let_def split: option.split intro: exI[of _ "[]"]) (metis append_take_drop_id)+

lemma index_text_found: "c \<notin> set s \<Longrightarrow> index_text [c] (s @ c # t) = Some (length s)"
  by (induction s) (auto simp: is_prefix_def)

lemma index_text_none: "c \<notin> set s \<Longrightarrow> index_text [c] s = None"
  by (induction s) (auto simp: is_prefix_def)

lemma index_text_scheme: "CHR '':'' \<notin> set s \<Longrightarrow> index_text ''://'' (s @ ''://'' @ t) = Some (length s)"
  by (induction s) (auto simp: is_prefix_def)

text \<open>The origin of an absolute URL is its scheme and authority, with or without a path behind them.\<close>

lemma extract_origin_absolute:
  assumes "CHR '':'' \<notin> set scheme" "CHR ''/'' \<notin> set authority"
  shows "extract_origin (scheme @ ''://'' @ authority @ ''/'' @ path) = scheme @ ''://'' @ authority"
    and "extract_origin (scheme @ ''://'' @ authority) = scheme @ ''://'' @ authority"
  using assms index_text_scheme[OF assms(1), of "authority @ ''/'' @ path"] index_text_scheme[OF assms(1), of authority]
  by (simp_all add: extract_origin_def Let_def index_text_found index_text_none eval_nat_numeral)

end
