(* ===== verification/Sensor_Json.thy ===== *)
theory Sensor_Json
  imports Sensor Json_Encode
begin

section \<open>fingerprint/sensor.go: the payload as JSON\<close>

text \<open>
  \<open>MarshalJSON\<close> and the body of the sensor request. A coordinate is a \<open>float64\<close>: \<open>fl\<close> is the
  rounding of the model's real number to it and \<open>fmt\<close> the encoder's text for it.
\<close>

subsection \<open>The encoded payload\<close>

definition screen_value :: "screen_info \<Rightarrow> go_value" where
  "screen_value s =
     GObj [(''width'', GInt (sc_width s)), (''height'', GInt (sc_height s)), (''availWidth'', GInt (sc_avail_width s)),
       (''availHeight'', GInt (sc_avail_height s)), (''colorDepth'', GInt (sc_color_depth s)), (''pixelDepth'', GInt (sc_pixel_depth s))]"

definition navigator_value :: "navigator_info \<Rightarrow> go_value" where
  "navigator_value n =
     GObj [(''pluginsLength'', GInt (nv_plugins_length n)), (''platform'', GStr (nv_platform n)), (''language'', GStr (nv_language n)),
       (''languages'', GStr (nv_languages n)), (''cookiesEnabled'', GBool (nv_cookies_enabled n)), (''doNotTrack'', GStr (nv_do_not_track n)),
       (''hardwareConcurrency'', GInt (nv_hardware_concurrency n)), (''maxTouchPoints'', GInt (nv_max_touch_points n)),
       (''webDriver'', GBool (nv_web_driver n))]"

definition point_value :: "(real \<Rightarrow> rat) \<Rightarrow> mouse_point \<Rightarrow> go_value" where
  "point_value fl p =
     GObj [(''x'', GFloat (fl (mp_x p))), (''y'', GFloat (fl (mp_y p))), (''t'', GInt (mp_t p)), (''e'', GInt (mp_event p))]"

definition sensor_value :: "(real \<Rightarrow> rat) \<Rightarrow> sensor_payload \<Rightarrow> go_value" where
  "sensor_value fl p =
     GObj [(''sensor_data_version'', GStr (sp_version p)), (''ab'', GStr (sp_ab p)), (''screen'', screen_value (sp_screen p)),
       (''navigator'', navigator_value (sp_navigator p)), (''timezoneOffset'', GInt (sp_timezone_offset p)),
       (''mouseMovements'', GArr (map (point_value fl) (sp_mouse_movements p))), (''canvasHash'', GStr (sp_canvas_hash p)),
       (''seq'', GInt (sp_seq p)), (''timestamp'', GInt (sp_timestamp p))]"

text \<open>The encoder has no error for finite numbers, and the text it makes is compact and escaped already.\<close>

definition marshal_sensor :: "(rat \<Rightarrow> gostring) \<Rightarrow> (real \<Rightarrow> rat) \<Rightarrow> sensor_payload \<Rightarrow> goerror + gostring" where
  "marshal_sensor fmt fl p = Inr (json_text fmt (sensor_value fl p))"

subsection \<open>Reading it back\<close>

definition small :: "int \<Rightarrow> bool" where
  "small n \<longleftrightarrow> \<bar>n\<bar> < 2 ^ 53"

text \<open>Every number of the payload is one a \<open>float64\<close> holds, and its text reads as the number.\<close>

definition screen_fits :: "screen_info \<Rightarrow> bool" where
  "screen_fits s \<longleftrightarrow> small (sc_width s) \<and> small (sc_height s) \<and> small (sc_avail_width s) \<and> small (sc_avail_height s)
     \<and> small (sc_color_depth s) \<and> small (sc_pixel_depth s)"

definition point_fits :: "(rat \<Rightarrow> gostring) \<Rightarrow> (real \<Rightarrow> rat) \<Rightarrow> mouse_point \<Rightarrow> bool" where
  "point_fits fmt fl p \<longleftrightarrow> reads_as (fmt (fl (mp_x p))) (fl (mp_x p)) \<and> reads_as (fmt (fl (mp_y p))) (fl (mp_y p))
     \<and> small (mp_t p) \<and> small (mp_event p)"

definition payload_fits :: "(rat \<Rightarrow> gostring) \<Rightarrow> (real \<Rightarrow> rat) \<Rightarrow> sensor_payload \<Rightarrow> bool" where
  "payload_fits fmt fl p \<longleftrightarrow> screen_fits (sp_screen p) \<and> small (nv_plugins_length (sp_navigator p))
     \<and> small (nv_hardware_concurrency (sp_navigator p)) \<and> small (nv_max_touch_points (sp_navigator p))
     \<and> small (sp_timezone_offset p) \<and> small (sp_seq p) \<and> small (sp_timestamp p)
     \<and> (\<forall>m \<in> set (sp_mouse_movements p). point_fits fmt fl m)"

lemma encodable_screen: "screen_fits s \<Longrightarrow> encodable fmt (Suc d) (screen_value s)"
  by (simp add: screen_fits_def small_def screen_value_def utf8_fix_ascii code_def)

lemma encodable_navigator:
  "small (nv_plugins_length n) \<Longrightarrow> small (nv_hardware_concurrency n) \<Longrightarrow> small (nv_max_touch_points n) \<Longrightarrow>
     encodable fmt (Suc d) (navigator_value n)"
  by (simp add: small_def navigator_value_def utf8_fix_ascii code_def)

lemma encodable_point: "point_fits fmt fl p \<Longrightarrow> encodable fmt (Suc d) (point_value fl p)"
  by (simp add: point_fits_def small_def point_value_def utf8_fix_ascii code_def)

lemma encodable_sensor:
  assumes "payload_fits fmt fl p"
  shows "encodable fmt (Suc (Suc (Suc d))) (sensor_value fl p)"
  using assms encodable_screen encodable_navigator encodable_point
  by (simp add: payload_fits_def small_def sensor_value_def utf8_fix_ascii code_def)

subsection \<open>The generated payload\<close>

text \<open>What every generated payload has, whatever is drawn.\<close>

definition plausible :: "int \<Rightarrow> int \<Rightarrow> sensor_payload \<Rightarrow> bool" where
  "plausible now seq p \<longleftrightarrow> sp_screen p \<in> set common_screen_resolutions \<and> sp_timezone_offset p \<in> set common_timezone_offsets
     \<and> nv_plugins_length (sp_navigator p) \<in> {3..5} \<and> nv_hardware_concurrency (sp_navigator p) \<in> set hw_choices
     \<and> nv_max_touch_points (sp_navigator p) = 0 \<and> \<not> nv_web_driver (sp_navigator p)
     \<and> 20 \<le> length (sp_mouse_movements p) \<and> length (sp_mouse_movements p) \<le> 47
     \<and> (\<forall>m \<in> set (sp_mouse_movements p). mp_event m \<in> {0, 1, 2} \<and> mp_t m \<in> {806..3300})
     \<and> length (sp_canvas_hash p) = 8 \<and> sp_seq p = seq \<and> sp_timestamp p = now"

lemma drawn_element:
  assumes "fair_draws R" "xs \<noteq> []"
  obtains i g' where "intn R (int (length xs)) g = Some (i, g')" "xs ! nat i \<in> set xs"
proof -
  from fair_intn[OF assms(1), of "int (length xs)" g] assms(2) obtain i g' where
    "intn R (int (length xs)) g = Some (i, g')" "0 \<le> i" "i < int (length xs)" by auto
  with that show ?thesis by (simp add: nat_less_iff)
qed

lemma payload_generated:
  assumes "fair_draws R"
  shows "\<exists>p g'. generate_sensor_payload R now seq g = Some (p, g') \<and> plausible now seq p"
proof -
  obtain si g1 where 1: "intn R (int (length common_screen_resolutions)) g = Some (si, g1)"
    "common_screen_resolutions ! nat si \<in> set common_screen_resolutions"
    using drawn_element[OF assms, of common_screen_resolutions g] by (auto simp: common_screen_resolutions_def)
  obtain ti g2 where 2: "intn R (int (length common_timezone_offsets)) g1 = Some (ti, g2)"
    "common_timezone_offsets ! nat ti \<in> set common_timezone_offsets"
    using drawn_element[OF assms, of common_timezone_offsets g1] by (auto simp: common_timezone_offsets_def)
  obtain dp g3 where 3: "intn R 3 g2 = Some (dp, g3)" "0 \<le> dp" "dp < 3" using fair_intn[OF assms, of 3 g2] by auto
  obtain hi g4 where 4: "intn R (int (length hw_choices)) g3 = Some (hi, g4)" "hw_choices ! nat hi \<in> set hw_choices"
    using drawn_element[OF assms, of hw_choices g3] by (auto simp: hw_choices_def)
  let ?sc = "common_screen_resolutions ! nat si"
  obtain moves down up g5 where 5: "generate_mouse_path R (sc_width ?sc) (sc_height ?sc) g4 = Some (moves @ [down, up], g5)"
    "18 \<le> length moves" "length moves \<le> 45" "map mp_event (moves @ [down, up]) = replicate (length moves) 0 @ [1, 2]"
    "set (map mp_t (moves @ [down, up])) \<subseteq> {806..3300}"
    using mouse_path_facts[OF assms 1(2), of g4] by blast
  obtain u g6 where 6: "rs_uint32 R g5 = (u, g6)" by fastforce
  have events: "mp_event m \<in> {0, 1, 2}" if "m \<in> set (moves @ [down, up])" for m
  proof -
    have "mp_event m \<in> set (map mp_event (moves @ [down, up]))" using that by (metis image_eqI list.set_map)
    then show ?thesis unfolding 5(4) by auto
  qed
  have times: "mp_t m \<in> {806..3300}" if "m \<in> set (moves @ [down, up])" for m
    using 5(5) that by (metis image_eqI list.set_map subsetD)
  let ?p = "\<lparr>sp_version = ''2.0'', sp_ab = [], sp_screen = ?sc, sp_navigator = \<lparr>nv_plugins_length = 3 + dp, nv_platform = ''Win32'',
      nv_language = ''en-US'', nv_languages = ''en-US,en'', nv_cookies_enabled = True, nv_do_not_track = ''unspecified'',
      nv_hardware_concurrency = hw_choices ! nat hi, nv_max_touch_points = 0, nv_web_driver = False\<rparr>,
      sp_timezone_offset = common_timezone_offsets ! nat ti, sp_mouse_movements = moves @ [down, up], sp_canvas_hash = hex8 u,
      sp_seq = seq, sp_timestamp = now\<rparr>"
  have "generate_sensor_payload R now seq g = Some (?p, g6)"
    by (simp only: generate_sensor_payload_def hw_concurrency_def random_canvas_hash_def Let_def 1(1) 2(1) 3(1) 4(1) 5(1) 6
        Option.bind.bind_lunit prod.case)
  moreover have "plausible now seq ?p" unfolding plausible_def
    using 1(2) 2(2) 3(2,3) 4(2) 5(2,3) events times by (simp add: hex8_def)
  ultimately show ?thesis by blast
qed

lemma plausible_fits:
  assumes "plausible now seq p" "small now" "small seq" "\<And>x. reads_as (fmt (fl x)) (fl x)"
  shows "payload_fits fmt fl p"
proof -
  have "screen_fits (sp_screen p)"
    using assms(1) by (auto simp: plausible_def common_screen_resolutions_def screen_def screen_fits_def small_def)
  moreover have "small (sp_timezone_offset p)" "small (nv_hardware_concurrency (sp_navigator p))"
    "small (nv_plugins_length (sp_navigator p))" "small (nv_max_touch_points (sp_navigator p))"
    using assms(1) by (auto simp: plausible_def common_timezone_offsets_def hw_choices_def small_def)
  moreover have "point_fits fmt fl m" if "m \<in> set (sp_mouse_movements p)" for m
    using assms(1,4) that by (auto simp: plausible_def point_fits_def small_def)
  ultimately show ?thesis using assms by (simp add: payload_fits_def plausible_def)
qed

subsection \<open>The sensor request\<close>

lemma sensor_header_keys:
  "canonical_key ''Origin'' \<notin> canonical_key ` {''sec-fetch-dest'', ''sec-fetch-mode'', ''sec-fetch-site'', ''Referer''}"
  "canonical_key ''Referer'' \<notin> canonical_key ` {''sec-fetch-dest'', ''sec-fetch-mode'', ''sec-fetch-site''}"
  by code_simp+

lemma sensor_header_values:
  "header_get (sensor_headers origin) ''Origin'' = origin" "header_get (sensor_headers origin) ''Referer'' = origin @ ''/''"
  using sensor_header_keys by (simp_all add: sensor_headers_def header_get_def header_first_def header_set_def)

lemma sensor_body_decodes: "payload_fits fmt fl p \<Longrightarrow> unmarshal (json_text fmt (sensor_value fl p)) = Inr (go_decoded (sensor_value fl p))"
  using unmarshal_json_text[of fmt "sensor_value fl p" "[]"] encodable_sensor[of fmt fl p "max_nesting - 3"]
  by (simp add: max_nesting_def numeral_eq_Suc)

text \<open>
  C39: A sensor request from its draws to its bytes. Whatever an \<open>Intn\<close> within its documented range draws,
  the generator returns a payload within the ranges it promises, never one of an automated browser; its
  body is a JSON text that decodes to the payload, member for member, provided the sequence number and
  the clock are below \<open>2^53\<close> in size and the text of every \<open>float64\<close> reads as the number. For an endpoint
  \<open>scheme://authority\<close>, alone or before a slash and more, where no colon is in the scheme and no slash in what is
  called the authority, \<open>Origin\<close> is the endpoint up to that slash, and \<open>Referer\<close> the same with a slash. It
  is scheme and host only where the authority is a host: a user with its password, or a query straight
  after the host, is part of the header, as the witness shows, against the comment of \<open>extractOrigin\<close>.
\<close>

theorem sensor_request_spec:
  assumes "fair_draws R" "small now" "small seq" "\<And>x. reads_as (fmt (fl x)) (fl x)"
    and "CHR '':'' \<notin> set scheme" "CHR ''/'' \<notin> set authority" "rest = [] \<or> hd rest = CHR ''/''"
    and "new_request (scheme @ ''://'' @ authority @ rest) = None"
  shows "\<exists>p g' body headers. generate_sensor_payload R now seq g = Some (p, g') \<and> plausible now seq p
    \<and> new_sensor_request (marshal_sensor fmt fl) new_request (scheme @ ''://'' @ authority @ rest) p = Inr (body, headers)
    \<and> unmarshal body = Inr (go_decoded (sensor_value fl p))
    \<and> header_get headers ''Origin'' = scheme @ ''://'' @ authority
    \<and> header_get headers ''Referer'' = scheme @ ''://'' @ authority @ ''/''"
proof -
  obtain p g' where p: "generate_sensor_payload R now seq g = Some (p, g')" "plausible now seq p"
    using payload_generated[OF assms(1)] by blast
  have "unmarshal (json_text fmt (sensor_value fl p)) = Inr (go_decoded (sensor_value fl p))"
    using plausible_fits[OF p(2) assms(2,3), of fmt fl] assms(4) by (intro sensor_body_decodes) blast
  moreover have "extract_origin (scheme @ ''://'' @ authority @ rest) = scheme @ ''://'' @ authority"
    using extract_origin_absolute[OF assms(5,6)] assms(7) by (cases rest) auto
  then have "new_sensor_request (marshal_sensor fmt fl) new_request (scheme @ ''://'' @ authority @ rest) p =
      Inr (json_text fmt (sensor_value fl p), sensor_headers (scheme @ ''://'' @ authority))"
    by (simp only: new_sensor_request_def marshal_sensor_def assms(8) sum.case option.case)
  ultimately show ?thesis
    using p sensor_header_values[of "scheme @ ''://'' @ authority"] by auto
qed

text \<open>Numbers cut to integers of a bounded size, so that their decimal text is exact.\<close>

definition cut_float :: "real \<Rightarrow> rat" where
  "cut_float x = (if \<bar>\<lfloor>x\<rfloor>\<bar> < 2 ^ 53 then of_int \<lfloor>x\<rfloor> else 0)"

lemma cut_float_reads: "reads_as (decimal \<lfloor>cut_float x\<rfloor>) (cut_float x)"
  using reads_as_decimal[of "\<lfloor>x\<rfloor>"] reads_as_decimal[of 0] by (simp add: cut_float_def)

lemma list_source_fair: "fair_draws list_source"
  by (auto simp: fair_draws_def list_source_def split: list.split)

theorem sensor_request_spec_witness:
  "(\<exists>p g' body headers. generate_sensor_payload list_source 1700000000000 1 [3, 1, 4] = Some (p, g')
     \<and> new_sensor_request (marshal_sensor (\<lambda>q. decimal \<lfloor>q\<rfloor>) cut_float) (\<lambda>u. None) ''https://example.com/akam/11/x'' p = Inr (body, headers)
     \<and> unmarshal body = Inr (go_decoded (sensor_value cut_float p)) \<and> header_get headers ''Origin'' = ''https://example.com'')
   \<and> (\<exists>p g' body headers. generate_sensor_payload list_source 1700000000000 2 [] = Some (p, g')
     \<and> new_sensor_request (marshal_sensor (\<lambda>q. decimal \<lfloor>q\<rfloor>) cut_float) (\<lambda>u. None) ''https://user:pw@example.com?x=1'' p = Inr (body, headers)
     \<and> header_get headers ''Origin'' = ''https://user:pw@example.com?x=1'')"
proof
  note spec = sensor_request_spec[where R = list_source and fmt = "\<lambda>q. decimal \<lfloor>q\<rfloor>" and fl = cut_float, OF list_source_fair _ _ cut_float_reads]
  show "\<exists>p g' body headers. generate_sensor_payload list_source 1700000000000 1 [3, 1, 4] = Some (p, g')
     \<and> new_sensor_request (marshal_sensor (\<lambda>q. decimal \<lfloor>q\<rfloor>) cut_float) (\<lambda>u. None) ''https://example.com/akam/11/x'' p = Inr (body, headers)
     \<and> unmarshal body = Inr (go_decoded (sensor_value cut_float p)) \<and> header_get headers ''Origin'' = ''https://example.com''"
    using spec[of 1700000000000 1 "''https''" "''example.com''" "''/akam/11/x''" "\<lambda>u. None" "[3, 1, 4]"]
    by (simp add: small_def) blast
  show "\<exists>p g' body headers. generate_sensor_payload list_source 1700000000000 2 [] = Some (p, g')
     \<and> new_sensor_request (marshal_sensor (\<lambda>q. decimal \<lfloor>q\<rfloor>) cut_float) (\<lambda>u. None) ''https://user:pw@example.com?x=1'' p = Inr (body, headers)
     \<and> header_get headers ''Origin'' = ''https://user:pw@example.com?x=1''"
    using spec[of 1700000000000 2 "''https''" "''user:pw@example.com?x=1''" "[]" "\<lambda>u. None" "[]"]
    by (simp add: small_def) blast
qed

end
