(* ===== verification/Logger.thy ===== *)
theory Logger
  imports Prelude
begin

section \<open>logger/logger.go: the levelled logger\<close>

text \<open>
  \<open>Logger\<close>: three writers on standard error and a level. A call reads the level in one critical
  section and writes in another one, that of \<open>log.Logger\<close>; callers interleave in between. The
  formatting of arguments is an argument, the time stamp a line of text given with each write.
\<close>

subsection \<open>Levels and lines\<close>

definition level_debug :: int where "level_debug = 0"
definition level_info :: int where "level_info = 1"
definition level_error :: int where "level_error = 2"

record std_logger =
  sl_prefix :: gostring

record logger =
  lg_info :: std_logger
  lg_error :: std_logger
  lg_debug :: std_logger
  lg_level :: int

definition new_logger :: "int \<Rightarrow> logger" where
  "new_logger level =
     \<lparr>lg_info = \<lparr>sl_prefix = ''INFO  ''\<rparr>, lg_error = \<lparr>sl_prefix = ''ERROR ''\<rparr>,
      lg_debug = \<lparr>sl_prefix = ''DEBUG ''\<rparr>, lg_level = level\<rparr>"

definition set_level :: "int \<Rightarrow> logger \<Rightarrow> logger" where
  "set_level level l = l\<lparr>lg_level := level\<rparr>"

text \<open>\<open>log.Logger.Output\<close>: prefix, time stamp, message, and a line end unless the message has one.\<close>

definition output_line :: "std_logger \<Rightarrow> gostring \<Rightarrow> gostring \<Rightarrow> gostring" where
  "output_line w stamp msg =
     sl_prefix w @ stamp @ msg @ (if msg = [] \<or> last msg \<noteq> CHR 0x0A then [CHR 0x0A] else [])"

subsection \<open>The methods\<close>

text \<open>What each method writes for a level it has read.\<close>

definition log_info :: "logger \<Rightarrow> int \<Rightarrow> gostring \<Rightarrow> gostring \<Rightarrow> gostring list" where
  "log_info l lvl stamp msg = (if lvl \<le> level_info then [output_line (lg_info l) stamp msg] else [])"

definition log_error :: "logger \<Rightarrow> int \<Rightarrow> gostring \<Rightarrow> gostring \<Rightarrow> gostring list" where
  "log_error l lvl stamp msg = (if lvl \<le> level_error then [output_line (lg_error l) stamp msg] else [])"

definition log_debug :: "logger \<Rightarrow> int \<Rightarrow> gostring \<Rightarrow> gostring \<Rightarrow> gostring list" where
  "log_debug l lvl stamp msg = (if lvl \<le> level_debug then [output_line (lg_debug l) stamp msg] else [])"

definition log_infof :: "('a \<Rightarrow> gostring) \<Rightarrow> logger \<Rightarrow> int \<Rightarrow> gostring \<Rightarrow> 'a \<Rightarrow> gostring list" where
  "log_infof sprintf l lvl stamp args = log_info l lvl stamp (sprintf args)"

definition log_errorf :: "('a \<Rightarrow> gostring) \<Rightarrow> logger \<Rightarrow> int \<Rightarrow> gostring \<Rightarrow> 'a \<Rightarrow> gostring list" where
  "log_errorf sprintf l lvl stamp args = log_error l lvl stamp (sprintf args)"

definition log_debugf :: "('a \<Rightarrow> gostring) \<Rightarrow> logger \<Rightarrow> int \<Rightarrow> gostring \<Rightarrow> 'a \<Rightarrow> gostring list" where
  "log_debugf sprintf l lvl stamp args = log_debug l lvl stamp (sprintf args)"

subsection \<open>Callers interleaved\<close>

datatype severity = Debug | Info | Error

fun threshold :: "severity \<Rightarrow> int" where
  "threshold Debug = level_debug"
| "threshold Info = level_info"
| "threshold Error = level_error"

fun write_call :: "severity \<Rightarrow> logger \<Rightarrow> int \<Rightarrow> gostring \<Rightarrow> gostring \<Rightarrow> gostring list" where
  "write_call Debug = log_debug"
| "write_call Info = log_info"
| "write_call Error = log_error"

text \<open>
  A call between its two sections, with the level it has read. The last two fields of the state only
  record what happened: the levels in force so far and the calls that have returned, in the order of
  their second sections.
\<close>

record log_call =
  lc_severity :: severity
  lc_msg :: gostring
  lc_read :: int

record log_state =
  ls_logger :: logger
  ls_calls :: "log_call list"
  ls_output :: "gostring list"
  ls_levels :: "int list"
  ls_done :: "log_call list"

definition log_initial :: "int \<Rightarrow> log_state \<Rightarrow> bool" where
  "log_initial level s \<longleftrightarrow>
     s = \<lparr>ls_logger = new_logger level, ls_calls = [], ls_output = [], ls_levels = [level], ls_done = []\<rparr>"

inductive logger_step :: "log_state \<Rightarrow> log_state \<Rightarrow> bool" where
  step_set_level:
    "logger_step s (s\<lparr>ls_logger := set_level level (ls_logger s), ls_levels := ls_levels s @ [level]\<rparr>)"
| step_read:
    "logger_step s (s\<lparr>ls_calls := \<lparr>lc_severity = sev, lc_msg = msg, lc_read = lg_level (ls_logger s)\<rparr> # ls_calls s\<rparr>)"
| step_write:
    "ls_calls s = cs1 @ c # cs2 \<Longrightarrow>
     logger_step s (s\<lparr>ls_calls := cs1 @ cs2,
       ls_output := ls_output s @ write_call (lc_severity c) (ls_logger s) (lc_read c) stamp (lc_msg c),
       ls_done := ls_done s @ [c]\<rparr>)"

subsection \<open>What is written\<close>

fun severity_prefix :: "severity \<Rightarrow> gostring" where
  "severity_prefix Debug = ''DEBUG ''"
| "severity_prefix Info = ''INFO  ''"
| "severity_prefix Error = ''ERROR ''"

definition passes :: "log_call \<Rightarrow> bool" where
  "passes c \<longleftrightarrow> lc_read c \<le> threshold (lc_severity c)"

definition line_of :: "gostring \<Rightarrow> log_call \<Rightarrow> bool" where
  "line_of line c \<longleftrightarrow> (\<exists>stamp. line = output_line \<lparr>sl_prefix = severity_prefix (lc_severity c)\<rparr> stamp (lc_msg c))"

lemma write_call_lines:
  "write_call (lc_severity c) (new_logger l) (lc_read c) stamp (lc_msg c) =
     (if passes c then [output_line \<lparr>sl_prefix = severity_prefix (lc_severity c)\<rparr> stamp (lc_msg c)] else [])"
  by (cases "lc_severity c") (simp_all add: passes_def new_logger_def log_info_def log_error_def log_debug_def)

definition logger_inv :: "log_state \<Rightarrow> bool" where
  "logger_inv s \<longleftrightarrow>
     ls_logger s = new_logger (lg_level (ls_logger s)) \<and> lg_level (ls_logger s) = last (ls_levels s) \<and> ls_levels s \<noteq> []
     \<and> lc_read ` (set (ls_calls s) \<union> set (ls_done s)) \<subseteq> set (ls_levels s)
     \<and> list_all2 line_of (ls_output s) (filter passes (ls_done s))"

lemma logger_inv_step: "logger_step s t \<Longrightarrow> logger_inv s \<Longrightarrow> logger_inv t"
proof (induction rule: logger_step.induct)
  case (step_set_level s level)
  then show ?case by (auto simp: logger_inv_def set_level_def new_logger_def)
next
  case (step_read s sev msg)
  then show ?case by (auto simp: logger_inv_def)
next
  case (step_write s cs1 c cs2 stamp)
  then have "write_call (lc_severity c) (ls_logger s) (lc_read c) stamp (lc_msg c) =
      (if passes c then [output_line \<lparr>sl_prefix = severity_prefix (lc_severity c)\<rparr> stamp (lc_msg c)] else [])"
    by (metis logger_inv_def write_call_lines)
  with step_write show ?case by (auto simp: logger_inv_def line_of_def intro!: list_all2_appendI)
qed

interpretation logger_machine: invariant_machine "log_initial level" logger_step logger_inv
proof unfold_locales
  show "log_initial level s \<Longrightarrow> logger_inv s" for s
    by (simp add: log_initial_def logger_inv_def new_logger_def)
qed (rule logger_inv_step)

text \<open>
  Under every interleaving of \<open>SetLevel\<close> with calls of the logging methods, the output is one line
  per returned call that passed the level it read, in the order of the writes, each with the prefix
  of its severity. A call goes by a level that was in force at some moment, though perhaps no more
  when it writes: so a severity that every level so far admits loses no line, and one that none
  admits has none.
\<close>

theorem logger_output_spec:
  assumes "reach (log_initial level) logger_step s"
  shows "list_all2 line_of (ls_output s) (filter passes (ls_done s))
    \<and> (\<forall>c \<in> set (ls_done s). lc_read c \<in> set (ls_levels s))
    \<and> ((\<forall>l \<in> set (ls_levels s). l \<le> threshold sev) \<longrightarrow> (\<forall>c \<in> set (ls_done s). lc_severity c = sev \<longrightarrow> passes c))
    \<and> ((\<forall>l \<in> set (ls_levels s). threshold sev < l) \<longrightarrow> (\<forall>c \<in> set (ls_done s). lc_severity c = sev \<longrightarrow> \<not> passes c))"
  using logger_machine.reach_inv[OF assms] by (fastforce simp: logger_inv_def passes_def)

text \<open>A message read at the debug level is written after the level has been raised.\<close>

theorem logger_output_spec_witness:
  "\<exists>s. reach (log_initial level_debug) logger_step s \<and> lg_level (ls_logger s) = level_error
     \<and> ls_output s = [''DEBUG 0 x'' @ [CHR 0x0A]] \<and> list_all2 line_of (ls_output s) (filter passes (ls_done s))"
proof -
  let ?s0 = "\<lparr>ls_logger = new_logger level_debug, ls_calls = [], ls_output = [], ls_levels = [level_debug], ls_done = []\<rparr>"
  let ?c = "\<lparr>lc_severity = Debug, lc_msg = ''x'', lc_read = level_debug\<rparr>"
  let ?s1 = "?s0\<lparr>ls_calls := [?c]\<rparr>"
  let ?s2 = "?s1\<lparr>ls_logger := new_logger level_error, ls_levels := [level_debug, level_error]\<rparr>"
  let ?s3 = "?s2\<lparr>ls_calls := [], ls_output := [''DEBUG 0 x'' @ [CHR 0x0A]], ls_done := [?c]\<rparr>"
  have "log_initial level_debug ?s0" by (simp add: log_initial_def)
  moreover have "logger_step ?s0 ?s1" using step_read[of ?s0 Debug "''x''"] by (simp add: new_logger_def)
  moreover have "logger_step ?s1 ?s2"
    using step_set_level[of ?s1 level_error] by (simp add: new_logger_def set_level_def)
  moreover have "logger_step ?s2 ?s3"
    using step_write[of ?s2 "[]" ?c "[]" "''0 ''"] by (simp add: new_logger_def log_debug_def output_line_def)
  ultimately have r: "reach (log_initial level_debug) logger_step ?s3"
    by (blast intro: reach.intros)
  show ?thesis
    using r logger_output_spec[OF r] by (intro exI[of _ ?s3]) (simp add: new_logger_def)
qed

end
