(* ===== verification/Js_Solver.thy ===== *)
theory Js_Solver
  imports Json
begin

section \<open>jschallenge/solver.go: the script solver\<close>

text \<open>
  \<open>OttoSolver\<close>: a script engine behind a mutex, seeded with a few browser globals. The engine (otto,
  a library) is an argument: its states and values and the calls the solver makes. Every method
  holds the mutex from its first line to its return or panic, so each is one transition of the
  engine's state.
\<close>

subsection \<open>The engine\<close>

record ('v, 'a, 'o) js_engine =
  js_new :: 'v
  js_run :: "gostring \<Rightarrow> 'v \<Rightarrow> (goerror + 'a) \<times> 'v"
  js_get :: "gostring \<Rightarrow> 'v \<Rightarrow> (goerror + 'a) \<times> 'v"
  js_object :: "'a \<Rightarrow> 'o option"
  js_object_get :: "'o \<Rightarrow> gostring \<Rightarrow> 'v \<Rightarrow> (goerror + 'a) \<times> 'v"
  js_to_string :: "'a \<Rightarrow> 'v \<Rightarrow> (goerror + gostring) \<times> 'v"
  js_string :: "'a \<Rightarrow> 'v \<Rightarrow> gostring \<times> 'v"

subsection \<open>The verb \<open>%q\<close>\<close>

text \<open>
  Quoting as Go quotes, for an argument that says which characters beyond ASCII, given by their
  number, \<open>strconv.IsPrint\<close> accepts.
\<close>

definition quote_ascii :: "char \<Rightarrow> gostring" where
  "quote_ascii c =
     (if c = CHR 0x22 \<or> c = CHR 0x5C then [CHR 0x5C, c]
      else if 32 \<le> code c \<and> code c < 127 then [c]
      else if code c = 7 then [CHR 0x5C, CHR ''a'']
      else if code c = 8 then [CHR 0x5C, CHR ''b'']
      else if code c = 12 then [CHR 0x5C, CHR ''f'']
      else if code c = 10 then [CHR 0x5C, CHR ''n'']
      else if code c = 13 then [CHR 0x5C, CHR ''r'']
      else if code c = 9 then [CHR 0x5C, CHR ''t'']
      else if code c = 11 then [CHR 0x5C, CHR ''v'']
      else [CHR 0x5C, CHR ''x''] @ hex_text 2 (code c))"

text \<open>The number of the character whose encoding is the first \<open>n\<close> bytes.\<close>

fun utf8_value :: "nat \<Rightarrow> gostring \<Rightarrow> nat" where
  "utf8_value (Suc (Suc 0)) (a # b # _) = code a mod 32 * 64 + code b mod 64"
| "utf8_value (Suc (Suc (Suc 0))) (a # b # c # _) = code a mod 16 * 4096 + code b mod 64 * 64 + code c mod 64"
| "utf8_value (Suc (Suc (Suc (Suc 0)))) (a # b # c # d # _) =
     code a mod 8 * 262144 + code b mod 64 * 4096 + code c mod 64 * 64 + code d mod 64"
| "utf8_value _ _ = 65533"

definition quote_rune :: "(nat \<Rightarrow> bool) \<Rightarrow> gostring \<Rightarrow> nat \<Rightarrow> gostring" where
  "quote_rune printable bytes r =
     (if printable r then bytes
      else if r < 65536 then [CHR 0x5C, CHR ''u''] @ hex_text 4 r
      else [CHR 0x5C, CHR ''U''] @ hex_text 8 r)"

fun quote_body :: "(nat \<Rightarrow> bool) \<Rightarrow> gostring \<Rightarrow> gostring" where
  "quote_body printable [] = []"
| "quote_body printable (c # s) =
     (if code c < 128 then quote_ascii c @ quote_body printable s
      else
        (let n = utf8_length (c # s) in
         if n = 0 then [CHR 0x5C, CHR ''x''] @ hex_text 2 (code c) @ quote_body printable s
         else quote_rune printable (take n (c # s)) (utf8_value n (c # s)) @ quote_body printable (drop (n - 1) s)))"

definition go_quote :: "(nat \<Rightarrow> bool) \<Rightarrow> gostring \<Rightarrow> gostring" where
  "go_quote printable s = [CHR 0x22] @ quote_body printable s @ [CHR 0x22]"

subsection \<open>The solver\<close>

definition bootstrap :: "(nat \<Rightarrow> bool) \<Rightarrow> gostring \<Rightarrow> gostring" where
  "bootstrap printable user_agent =
     [newline] @ ''var window = this;'' @ [newline] @ ''var document = { cookie: \"\" };'' @ [newline]
     @ ''var navigator = { userAgent: '' @ go_quote printable user_agent @ '' };'' @ [newline]"

definition new_otto_solver :: "('v, 'a, 'o) js_engine \<Rightarrow> (nat \<Rightarrow> bool) \<Rightarrow> gostring \<Rightarrow> goerror + 'v" where
  "new_otto_solver E printable user_agent =
     (let ua = (if user_agent = [] then ''Mozilla/5.0 (compatible; GoSessionEngine/1.0)'' else user_agent) in
      case js_run E (bootstrap printable ua) (js_new E) of
        (Inl e, _) \<Rightarrow> Inl (''jschallenge: bootstrap JS globals: '' @ e)
      | (Inr _, v) \<Rightarrow> Inr v)"

definition eval_script :: "('v, 'a, 'o) js_engine \<Rightarrow> gostring \<Rightarrow> 'v \<Rightarrow> (goerror + gostring) \<times> 'v" where
  "eval_script E script v =
     (case js_run E script v of
        (Inl e, v1) \<Rightarrow> (Inl (''jschallenge: eval: '' @ e), v1)
      | (Inr a, v1) \<Rightarrow>
          (case js_to_string E a v1 of
             (Inl e, v2) \<Rightarrow> (Inl (''jschallenge: convert result to string: '' @ e), v2)
           | (Inr t, v2) \<Rightarrow> (Inr t, v2)))"

text \<open>\<open>val.Object()\<close> is nil for a value that is no object; reading a property through nil panics (None).\<close>

definition get_cookie :: "('v, 'a, 'o) js_engine \<Rightarrow> 'v \<Rightarrow> (goerror + gostring) option \<times> 'v" where
  "get_cookie E v =
     (case js_get E ''document'' v of
        (Inl e, v1) \<Rightarrow> (Some (Inl (''jschallenge: get document: '' @ e)), v1)
      | (Inr a, v1) \<Rightarrow>
          (case js_object E a of
             None \<Rightarrow> (None, v1)
           | Some ob \<Rightarrow>
               (case js_object_get E ob ''cookie'' v1 of
                  (Inl e, v2) \<Rightarrow> (Some (Inl (''jschallenge: get document.cookie: '' @ e)), v2)
                | (Inr c, v2) \<Rightarrow> (let (t, v3) = js_string E c v2 in (Some (Inr t), v3)))))"

definition cookie_script :: "(nat \<Rightarrow> bool) \<Rightarrow> gostring \<Rightarrow> gostring" where
  "cookie_script printable cookie = ''document.cookie = '' @ go_quote printable cookie @ '';''"

definition set_cookie :: "('v, 'a, 'o) js_engine \<Rightarrow> (nat \<Rightarrow> bool) \<Rightarrow> gostring \<Rightarrow> 'v \<Rightarrow> goerror option \<times> 'v" where
  "set_cookie E printable cookie v =
     (case js_run E (cookie_script printable cookie) v of
        (Inl e, v1) \<Rightarrow> (Some (''jschallenge: set document.cookie: '' @ e), v1)
      | (Inr _, v1) \<Rightarrow> (None, v1))"

subsection \<open>String literals of the script language\<close>

text \<open>
  What a script reads between double quotes (ECMA-262, string literals), for text in ASCII: an escape
  it does not know stands for its character. None is a malformed literal, or one that leaves ASCII.
\<close>

definition single_escape :: "char \<Rightarrow> char" where
  "single_escape e =
     (if e = CHR ''b'' then CHR 0x08 else if e = CHR ''t'' then CHR 0x09 else if e = CHR ''n'' then CHR 0x0A
      else if e = CHR ''v'' then CHR 0x0B else if e = CHR ''f'' then CHR 0x0C else if e = CHR ''r'' then CHR 0x0D
      else e)"

definition line_end :: "char \<Rightarrow> bool" where
  "line_end c \<longleftrightarrow> c = CHR 0x0A \<or> c = CHR 0x0D"

fun literal_body :: "gostring \<Rightarrow> gostring option" where
  "literal_body [] = None"
| "literal_body (c # s) =
     (if c = CHR 0x22 then (if s = [] then Some [] else None)
      else if line_end c \<or> 128 \<le> code c then None
      else if c \<noteq> CHR 0x5C then map_option ((#) c) (literal_body s)
      else
        (case s of
           [] \<Rightarrow> None
         | e # t \<Rightarrow>
             if e = CHR ''x'' then
               (case t of
                  a # b # u \<Rightarrow>
                    (case (hex_digit a, hex_digit b) of
                       (Some m, Some n) \<Rightarrow>
                         if 16 * m + n < 128 then map_option ((#) (byte (16 * m + n))) (literal_body u) else None
                     | _ \<Rightarrow> None)
                | _ \<Rightarrow> None)
             else if e = CHR ''u'' \<or> is_digit e \<or> line_end e \<or> 128 \<le> code e then None
             else map_option ((#) (single_escape e)) (literal_body t)))"

fun literal_value :: "gostring \<Rightarrow> gostring option" where
  "literal_value [] = None"
| "literal_value (c # s) = (if c = CHR 0x22 then literal_body s else None)"

text \<open>Go quotes a bell as \<open>\a\<close>, which a script reads as the letter.\<close>

definition script_char :: "char \<Rightarrow> char" where
  "script_char c = (if c = CHR 0x07 then CHR ''a'' else c)"

declare literal_body.simps [simp del]

lemma literal_end: "literal_body [CHR 0x22] = Some []"
  by (simp add: literal_body.simps)

lemma literal_plain:
  "c \<noteq> CHR 0x22 \<Longrightarrow> c \<noteq> CHR 0x5C \<Longrightarrow> \<not> line_end c \<Longrightarrow> code c < 128 \<Longrightarrow>
    literal_body (c # s) = map_option ((#) c) (literal_body s)"
  by (subst literal_body.simps) simp

lemma literal_escape:
  "e \<notin> {CHR ''x'', CHR ''u''} \<Longrightarrow> \<not> is_digit e \<Longrightarrow> \<not> line_end e \<Longrightarrow> code e < 128 \<Longrightarrow>
    literal_body (CHR 0x5C # e # s) = map_option ((#) (single_escape e)) (literal_body s)"
  by (subst literal_body.simps) (simp add: line_end_def code_def)

lemma literal_hex:
  "hex_digit a = Some m \<Longrightarrow> hex_digit b = Some n \<Longrightarrow> 16 * m + n < 128 \<Longrightarrow>
    literal_body (CHR 0x5C # CHR ''x'' # a # b # s) = map_option ((#) (byte (16 * m + n))) (literal_body s)"
  by (subst literal_body.simps) (simp add: line_end_def code_def)

lemmas escape_simps = is_digit_def in_range_def line_end_def code_def single_escape_def script_char_def quote_ascii_def

lemma literal_quote_ascii:
  assumes "code c < 128"
  shows "literal_body (quote_ascii c @ s) = map_option ((#) (script_char c)) (literal_body s)"
proof -
  consider "c \<in> {CHR 0x22, CHR 0x5C}" | "c \<notin> {CHR 0x22, CHR 0x5C}" "32 \<le> code c" "code c < 127"
    | "code c \<in> {7, 8, 9, 10, 11, 12, 13}"
    | "c \<notin> {CHR 0x22, CHR 0x5C}" "\<not> (32 \<le> code c \<and> code c < 127)" "code c \<notin> {7, 8, 9, 10, 11, 12, 13}"
    by blast
  then show ?thesis
  proof cases
    case 1
    then have "quote_ascii c = [CHR 0x5C, c]" by (auto simp: quote_ascii_def)
    moreover have "single_escape c = script_char c" "\<not> is_digit c" "\<not> line_end c" "c \<notin> {CHR ''x'', CHR ''u''}"
      using 1 by (auto simp: escape_simps)
    ultimately show ?thesis using assms by (simp add: literal_escape)
  next
    case 2
    then have "\<not> line_end c" "c \<noteq> CHR 0x07" by (auto simp: line_end_def code_def)
    with 2 show ?thesis by (simp add: quote_ascii_def script_char_def literal_plain)
  next
    case 3
    then have "c = CHR 0x07 \<or> c = CHR 0x08 \<or> c = CHR 0x09 \<or> c = CHR 0x0A \<or> c = CHR 0x0B \<or> c = CHR 0x0C \<or> c = CHR 0x0D"
      by (auto dest!: code_eq simp: control_bytes)
    then have "\<exists>e. quote_ascii c = [CHR 0x5C, e] \<and> single_escape e = script_char c \<and> \<not> is_digit e \<and> \<not> line_end e
      \<and> e \<notin> {CHR ''x'', CHR ''u''} \<and> code e < 128"
      by (elim disjE) (simp_all add: escape_simps)
    then show ?thesis by (auto simp: literal_escape)
  next
    case 4
    then have "c \<noteq> CHR 0x07" by (auto simp: code_def)
    moreover have "quote_ascii c = [CHR 0x5C, CHR ''x'', hex_char (code c div 16 mod 16), hex_char (code c mod 16)]"
      using 4 by (simp add: quote_ascii_def hex_text_two)
    moreover have "16 * (code c div 16 mod 16) + code c mod 16 = code c" using assms by simp
    ultimately show ?thesis
      using assms literal_hex[OF hex_digit_char[of "code c div 16 mod 16"] hex_digit_char[of "code c mod 16"], of s]
      by (simp add: script_char_def)
  qed
qed

lemma literal_go_quote:
  assumes "\<forall>c \<in> set s. code c < 128"
  shows "literal_value (go_quote printable s) = Some (map script_char s)"
proof -
  have "literal_body (quote_body printable s @ [CHR 0x22]) = Some (map script_char s)"
    using assms by (induction s) (simp_all add: literal_quote_ascii literal_end)
  then show ?thesis by (simp add: go_quote_def)
qed

subsection \<open>Cookies\<close>

text \<open>
  What the code relies on, in a state of the engine: an assignment of a string literal to
  \<open>document.cookie\<close> succeeds, and the property then reads as the value of the literal.
\<close>

definition assigns_cookie :: "('v, 'a, 'o) js_engine \<Rightarrow> 'v \<Rightarrow> bool" where
  "assigns_cookie E v \<longleftrightarrow>
     (\<forall>lit t. literal_value lit = Some t \<longrightarrow>
        (\<exists>a v' d ob c v1 v2 v3. js_run E (''document.cookie = '' @ lit @ '';'') v = (Inr a, v')
           \<and> js_get E ''document'' v' = (Inr d, v1) \<and> js_object E d = Some ob
           \<and> js_object_get E ob ''cookie'' v1 = (Inr c, v2) \<and> js_string E c v2 = (t, v3)))"

text \<open>
  C40: A cookie of ASCII characters, however quotes, backslashes and control characters occur in it,
  reaches \<open>document.cookie\<close> and is read back as it was set, but for bells, which arrive as the letter
  a: such a cookie survives exactly if it has none.
\<close>

theorem script_cookie_round_trip:
  assumes "assigns_cookie E v" "\<forall>c \<in> set cookie. code c < 128"
  shows "\<exists>v'. set_cookie E printable cookie v = (None, v')
    \<and> fst (get_cookie E v') = Some (Inr (map script_char cookie))
    \<and> (fst (get_cookie E v') = Some (Inr cookie) \<longleftrightarrow> CHR 0x07 \<notin> set cookie)"
proof -
  let ?t = "map script_char cookie"
  obtain a v' d ob c v1 v2 v3 where r: "js_run E (''document.cookie = '' @ go_quote printable cookie @ '';'') v = (Inr a, v')"
    "js_get E ''document'' v' = (Inr d, v1)" "js_object E d = Some ob"
    "js_object_get E ob ''cookie'' v1 = (Inr c, v2)" "js_string E c v2 = (?t, v3)"
    using assms(1) literal_go_quote[OF assms(2), of printable] unfolding assigns_cookie_def by blast
  have "?t = cookie \<longleftrightarrow> CHR 0x07 \<notin> set cookie"
    by (induction cookie) (auto simp: script_char_def)
  with r show ?thesis by (simp add: set_cookie_def get_cookie_def cookie_script_def)
qed

text \<open>An engine whose state is the cookie and whose scripts are assignments to it.\<close>

definition cookie_engine :: "(gostring, gostring, unit) js_engine" where
  "cookie_engine =
     \<lparr>js_new = [],
      js_run = (\<lambda>s v. case literal_value (butlast (drop 18 s)) of
          Some t \<Rightarrow> (if is_prefix ''document.cookie = '' s \<and> last s = CHR '';'' then (Inr t, t) else (Inl ''not an assignment'', v))
        | None \<Rightarrow> (Inl ''SyntaxError'', v)),
      js_get = (\<lambda>name v. (Inr [], v)), js_object = (\<lambda>a. Some ()), js_object_get = (\<lambda>ob name v. (Inr v, v)),
      js_to_string = (\<lambda>a v. (Inr a, v)), js_string = (\<lambda>a v. (a, v))\<rparr>"

theorem script_cookie_round_trip_witness:
  "let s = ''a=\"1\"; b=2'' in fst (get_cookie cookie_engine (snd (set_cookie cookie_engine (\<lambda>_. True) s []))) = Some (Inr s)"
proof -
  have "assigns_cookie cookie_engine []"
    by (simp add: assigns_cookie_def cookie_engine_def is_prefix_def butlast_append)
  moreover have "\<forall>c \<in> set ''a=\"1\"; b=2''. code c < 128" by (simp add: code_def)
  ultimately show ?thesis
    using script_cookie_round_trip[of cookie_engine "[]" "''a=\"1\"; b=2''" "\<lambda>_. True"] by (auto simp: Let_def)
qed

end
