(* ===== verification/Console.thy ===== *)
theory Console
  imports Startup Logger Js_Solver
begin

section \<open>main.go: what the process writes\<close>

text \<open>
  The calls of the logger that \<open>main\<close> makes, with the quoting of \<open>%q\<close> and the decimals of \<open>%d\<close>, and the lines they
  become at the level \<open>main\<close> sets. The start is the one of \<open>main_start\<close>. The text of a
  \<open>float64\<close> with one decimal (\<open>%.1f\<close>) is an argument, and so is the time stamp of a line. The line of
  a dashboard that fails to listen comes from a goroutine of its own: \<open>dash\<close> is the error, if the goroutine
  gets to report one, and \<open>pos\<close> how many of the lines \<open>main\<close> writes after starting it come before.
\<close>

subsection \<open>The lines of main\<close>

definition ellipsis :: gostring where
  "ellipsis = map byte [226, 128, 166]"

definition en_dash :: gostring where
  "en_dash = map byte [226, 128, 147]"

text \<open>What comes before the dashboard's goroutine: the configuration and the proxies, unless one of them fails.\<close>

definition setup_lines ::
  "(nat \<Rightarrow> bool) \<Rightarrow> gostring \<Rightarrow> config_file \<Rightarrow> text_file \<Rightarrow> (severity \<times> gostring) list \<times> (config \<times> proxy_manager) option" where
  "setup_lines printable config_flag cfile pfile =
     (let quote = go_quote printable; l1 = [(Info, ''GoSessionEngine starting up'')] in
      case choose_config quote config_flag cfile of
        Inl e \<Rightarrow> (l1 @ [(Error, ''failed to load config from '' @ quote config_flag @ '': '' @ e)], None)
      | Inr cfg \<Rightarrow>
          (let l2 = l1 @ [(Info, if config_flag \<noteq> [] then ''configuration loaded from '' @ quote config_flag
                                 else ''using default configuration'')] in
           case choose_proxies quote cfg pfile of
             Inl e \<Rightarrow> (l2 @ [(Error, ''failed to load proxies from '' @ quote (cf_proxy_file cfg) @ '': '' @ e)], None)
           | Inr pm \<Rightarrow>
               (l2 @ [(Info, if cf_proxy_file cfg \<noteq> []
                   then ''loaded '' @ decimal (int (proxy_count pm)) @ '' proxies from '' @ quote (cf_proxy_file cfg)
                   else ''no proxy file configured; sessions will connect directly'')], Some (cfg, pm))))"

definition session_lines ::
  "(nat \<Rightarrow> bool) \<Rightarrow> gostring \<Rightarrow> ('u, 'j) session_env \<Rightarrow> int list
   \<Rightarrow> ((int \<times> (goerror + sref)) list \<Rightarrow> (int \<times> (goerror + sref)) list) \<Rightarrow> ('u, 'h, 'j) session_heap
   \<Rightarrow> config \<Rightarrow> proxy_manager \<Rightarrow> (severity \<times> gostring) list" where
  "session_lines printable dashboard_addr env draws received h cfg pm =
     (let n = cf_number_of_sessions cfg in
      [(Info, ''dashboard server starting on '' @ dashboard_addr),
       (Info, ''creating '' @ decimal n @ '' sessions'' @ ellipsis)] @
      (case create_sessions (go_quote printable) env draws received n (Some pm) (new_session_manager (Some cfg)) h of
         None \<Rightarrow> []
       | Some (CreateFailed k e, pm1, sm, h1) \<Rightarrow> [(Error, ''session creation failed: '' @ create_error k e)]
       | Some (CreateOk, pm1, sm, h1) \<Rightarrow>
           (let worker_count = (if n < 1 then 1 else n) in
            [(Info, decimal (session_count sm) @ '' sessions created''),
             (Info, ''worker pool started with '' @ decimal worker_count @ '' workers''),
             (Info, ''scheduler started; sessions are now active'')])))"

definition dashboard_lines :: "goerror option \<Rightarrow> (severity \<times> gostring) list" where
  "dashboard_lines dash = (case dash of None \<Rightarrow> [] | Some e \<Rightarrow> [(Error, ''dashboard server error: '' @ e)])"

definition main_lines ::
  "(nat \<Rightarrow> bool) \<Rightarrow> gostring \<Rightarrow> gostring \<Rightarrow> config_file \<Rightarrow> text_file \<Rightarrow> ('u, 'j) session_env \<Rightarrow> int list
   \<Rightarrow> ((int \<times> (goerror + sref)) list \<Rightarrow> (int \<times> (goerror + sref)) list) \<Rightarrow> ('u, 'h, 'j) session_heap
   \<Rightarrow> goerror option \<Rightarrow> nat \<Rightarrow> (severity \<times> gostring) list" where
  "main_lines printable config_flag dashboard_addr cfile pfile env draws received h dash pos =
     (case setup_lines printable config_flag cfile pfile of
        (ls, None) \<Rightarrow> ls
      | (ls, Some (cfg, pm)) \<Rightarrow>
          (let after = session_lines printable dashboard_addr env draws received h cfg pm
           in ls @ take pos after @ dashboard_lines dash @ drop pos after))"

text \<open>The monitor's line, and those of the shutdown.\<close>

definition counters_text :: "(rat \<Rightarrow> gostring) \<Rightarrow> rat \<Rightarrow> metrics \<Rightarrow> gostring" where
  "counters_text fmt rps m =
     (case metrics_snapshot m of (all, success, failed) \<Rightarrow>
        ''total: '' @ decimal (uint all) @ '' | success: '' @ decimal (uint success)
        @ '' | failed: '' @ decimal (uint failed) @ '' | rps: '' @ fmt rps)"

definition monitor_line :: "(rat \<Rightarrow> gostring) \<Rightarrow> rat \<Rightarrow> metrics \<Rightarrow> int \<Rightarrow> severity \<times> gostring" where
  "monitor_line fmt rps m cnt =
     (Info, ''metrics '' @ en_dash @ '' '' @ counters_text fmt rps m @ '' | sessions: '' @ decimal cnt)"

definition shutdown_lines :: "(rat \<Rightarrow> gostring) \<Rightarrow> gostring \<Rightarrow> rat \<Rightarrow> metrics \<Rightarrow> (severity \<times> gostring) list" where
  "shutdown_lines fmt sig rps m =
     [(Info, ''received signal '' @ sig @ ''; shutting down''),
      (Info, ''final metrics '' @ en_dash @ '' '' @ counters_text fmt rps m),
      (Info, ''GoSessionEngine shut down cleanly'')]"

text \<open>The logger of \<open>main\<close> at its level, which nothing changes: what a sequence of calls writes.\<close>

definition console :: "gostring list \<Rightarrow> (severity \<times> gostring) list \<Rightarrow> gostring list" where
  "console stamps calls =
     concat (map2 (\<lambda>stamp (sev, msg). write_call sev (new_logger level_info) level_info stamp msg) stamps calls)"

subsection \<open>Quoted text stays on its line\<close>

lemma hex_text_line: "one_line (hex_text n k)"
  by (auto simp: one_line_def hex_text_def hex_char_line)

lemma quote_ascii_line: "code c < 128 \<Longrightarrow> one_line (quote_ascii c)"
  by (auto simp: quote_ascii_def hex_text_line escape_codes) (simp_all add: code_def)

lemma quote_rune_line: "128 \<le> code c \<Longrightarrow> one_line (quote_rune printable (take (utf8_length (c # s)) (c # s)) r)"
proof -
  assume "128 \<le> code c"
  then have "one_line (take (utf8_length (c # s)) (c # s))"
    using utf8_bytes_high[OF _ refl, of c s] by (fastforce simp: one_line_def)
  then show ?thesis by (auto simp: quote_rune_def hex_text_line escape_codes) (simp_all add: code_def)
qed

lemma quote_body_line: "one_line (quote_body printable s)"
  by (induction printable s rule: quote_body.induct)
    (auto simp: quote_ascii_line quote_rune_line hex_text_line escape_codes Let_def code_def[of "CHR ''x''"] simp del: utf8_length.simps)

lemma go_quote_line: "one_line (go_quote printable s)"
  by (simp add: go_quote_def quote_body_line escape_codes)


lemma ellipsis_line: "one_line ellipsis"
  by (simp add: ellipsis_def)

subsection \<open>What the start reports\<close>

abbreviation started_line :: gostring where
  "started_line \<equiv> ''scheduler started; sessions are now active''"

lemma console_passes:
  "Debug \<notin> fst ` set calls \<Longrightarrow>
     console stamps calls = map2 (\<lambda>stamp (sev, m). output_line \<lparr>sl_prefix = severity_prefix sev\<rparr> stamp m) stamps calls"
proof -
  have one: "write_call sev (new_logger level_info) level_info stamp m = [output_line \<lparr>sl_prefix = severity_prefix sev\<rparr> stamp m]"
    if "sev \<noteq> Debug" for sev stamp m
    using that by (cases sev) (simp_all add: log_info_def log_error_def level_info_def level_error_def new_logger_def)
  show "Debug \<notin> fst ` set calls \<Longrightarrow> ?thesis"
    by (induction calls arbitrary: stamps) (auto simp: console_def one zip_Cons split: list.split)
qed

text \<open>The two parts and the way \<open>main\<close> takes in them: an error, a panic, or the start.\<close>

lemma setup_lines_cases:
  assumes "r = main_start (go_quote printable) config_flag cfile pfile env draws received order now h"
  obtains (failed) ls msg where "setup_lines printable config_flag cfile pfile = (ls @ [(Error, msg)], None)"
      "r = ExitsWith msg" "Error \<notin> fst ` set ls" "Debug \<notin> fst ` set ls"
    | (loaded) ls cfg pm where "setup_lines printable config_flag cfile pfile = (ls, Some (cfg, pm))"
      "choose_config (go_quote printable) config_flag cfile = Inr cfg" "choose_proxies (go_quote printable) cfg pfile = Inr pm"
      "Error \<notin> fst ` set ls" "Debug \<notin> fst ` set ls"
proof (cases "choose_config (go_quote printable) config_flag cfile")
  case (Inl e)
  then show ?thesis using assms
    by (intro failed[of "[(Info, ''GoSessionEngine starting up'')]"]) (simp_all add: setup_lines_def main_start_def Let_def)
next
  case (Inr cfg)
  note cfg = this
  show ?thesis
  proof (cases "choose_proxies (go_quote printable) cfg pfile")
    case (Inl e)
    then show ?thesis using assms cfg
      by (intro failed[of "butlast (fst (setup_lines printable config_flag cfile pfile))"])
        (simp_all add: setup_lines_def main_start_def Let_def)
  next
    case (Inr pm)
    then show ?thesis using cfg
      by (intro loaded[of "fst (setup_lines printable config_flag cfile pfile)" cfg pm]) (simp_all add: setup_lines_def Let_def)
  qed
qed

lemma session_lines_cases:
  assumes "r = main_start (go_quote printable) config_flag cfile pfile env draws received order now h"
    and "choose_config (go_quote printable) config_flag cfile = Inr cfg" "choose_proxies (go_quote printable) cfg pfile = Inr pm"
    and "after = session_lines printable addr env draws received h cfg pm"
  shows "Debug \<notin> fst ` set after \<and>
    ((\<exists>ls msg. r = ExitsWith msg \<and> after = ls @ [(Error, msg)] \<and> Error \<notin> fst ` set ls \<and> (Info, started_line) \<notin> set after)
     \<or> (r = StartPanics \<and> Error \<notin> fst ` set after \<and> (Info, started_line) \<notin> set after)
     \<or> (\<exists>e. r = startup.Started e \<and> Error \<notin> fst ` set after \<and> (Info, started_line) \<in> set after
          \<and> (Info, decimal (session_count (en_manager e)) @ '' sessions created'') \<in> set after))"
proof -
  let ?c = "create_sessions (go_quote printable) env draws received (cf_number_of_sessions cfg) (Some pm) (new_session_manager (Some cfg)) h"
  note defs = session_lines_def main_start_def Let_def
  consider "?c = None" | k e pm1 sm h1 where "?c = Some (CreateFailed k e, pm1, sm, h1)" | pm1 sm h1 where "?c = Some (CreateOk, pm1, sm, h1)"
    by (cases ?c) (metis create_outcome.exhaust prod.exhaust)+
  then show ?thesis
  proof cases
    case 1
    then show ?thesis using assms by (simp add: defs)
  next
    case 2
    then show ?thesis using assms by (simp add: defs)
  next
    case 3
    let ?e = "engine_new (cf_number_of_sessions cfg) sm (start_all (order sm) h1) (cf_target_url cfg) now"
    have "r = startup.Started ?e" using 3 assms(1-3) by (simp add: main_start_def)
    moreover have "en_manager ?e = sm" by (simp add: engine_new_def Let_def split_def)
    ultimately show ?thesis using 3 assms(4) by (simp add: session_lines_def Let_def)
  qed
qed

lemma setup_not_started: "(Info, started_line) \<notin> set (fst (setup_lines printable config_flag cfile pfile))"
  by (auto simp: setup_lines_def Let_def split: sum.splits)

lemma info_lines:
  assumes "one_line addr" and "(Info, m) \<in> set (main_lines printable config_flag addr cfile pfile env draws received h dash pos)"
  shows "one_line m"
proof -
  have before: "one_line m" if "(Info, m) \<in> set (fst (setup_lines printable config_flag cfile pfile))"
    using that unfolding setup_lines_def Let_def
    by (auto simp: go_quote_line decimal_line code_def split: sum.splits if_splits)
  have sessions: "one_line m" if "(Info, m) \<in> set (session_lines printable addr env draws received h cfg pm)" for cfg pm
    using that assms(1) unfolding session_lines_def Let_def
    by (auto simp: decimal_line ellipsis_line code_def split: option.splits create_outcome.splits)
      (metis create_outcome.exhaust)+
  obtain ls start where parts: "setup_lines printable config_flag cfile pfile = (ls, start)" by (rule prod.exhaust)
  show ?thesis
  proof (cases start)
    case None
    then show ?thesis using assms(2) before by (simp add: main_lines_def parts)
  next
    case (Some c)
    obtain cfg pm where "c = (cfg, pm)" by (rule prod.exhaust)
    then have "(Info, m) \<in> set ls \<or> (Info, m) \<in> set (session_lines printable addr env draws received h cfg pm)"
      using assms(2) Some
      by (auto simp: main_lines_def parts dashboard_lines_def Let_def split: option.splits dest: in_set_takeD in_set_dropD)
    then show ?thesis using before sessions by (auto simp: parts)
  qed
qed

text \<open>The lines of \<open>main\<close> once the proxies are loaded: a third list among the two.\<close>

lemma after_members:
  assumes "calls = ls @ take pos l @ dashboard_lines dash @ drop pos l"
  shows "(sev, m) \<in> set calls \<longleftrightarrow> (sev, m) \<in> set ls \<or> (sev, m) \<in> set l
    \<or> sev = Error \<and> (\<exists>e. dash = Some e \<and> m = ''dashboard server error: '' @ e)"
proof -
  have "set (take pos l) \<union> set (drop pos l) = set l" by (metis append_take_drop_id set_append)
  then have "set calls = set ls \<union> set l \<union> set (dashboard_lines dash)" using assms by auto
  then show ?thesis by (auto simp: dashboard_lines_def split: option.splits)
qed

lemma after_cases:
  assumes "(\<exists>ls msg. r = ExitsWith msg \<and> after = ls @ [(Error, msg)] \<and> Error \<notin> fst ` set ls \<and> (Info, started_line) \<notin> set after)
     \<or> (r = StartPanics \<and> Error \<notin> fst ` set after \<and> (Info, started_line) \<notin> set after)
     \<or> (\<exists>e. r = startup.Started e \<and> Error \<notin> fst ` set after \<and> (Info, started_line) \<in> set after
          \<and> (Info, decimal (session_count (en_manager e)) @ '' sessions created'') \<in> set after)"
  obtains (exits) ls msg where "r = ExitsWith msg" "after = ls @ [(Error, msg)]" "Error \<notin> fst ` set ls" "(Info, started_line) \<notin> set after"
    | (panics) "r = StartPanics" "Error \<notin> fst ` set after" "(Info, started_line) \<notin> set after"
    | (starts) e where "r = startup.Started e" "Error \<notin> fst ` set after" "(Info, started_line) \<in> set after"
        "(Info, decimal (session_count (en_manager e)) @ '' sessions created'') \<in> set after"
  using assms by blast

lemma main_lines_no_debug: "Debug \<notin> fst ` set (main_lines printable config_flag addr cfile pfile env draws received h dash pos)"
proof -
  have before: "Debug \<notin> fst ` set (fst (setup_lines printable config_flag cfile pfile))"
    by (simp add: setup_lines_def Let_def split: sum.split)
  have sessions: "Debug \<notin> fst ` set (session_lines printable addr env draws received h cfg pm)" for cfg pm
    by (auto simp: session_lines_def Let_def split: option.split create_outcome.split) (metis create_outcome.exhaust)+
  obtain ls start where parts: "setup_lines printable config_flag cfile pfile = (ls, start)" by (rule prod.exhaust)
  show ?thesis
  proof (cases start)
    case None
    then show ?thesis using before by (simp add: main_lines_def parts)
  next
    case (Some c)
    obtain cfg pm where c: "c = (cfg, pm)" by (rule prod.exhaust)
    let ?calls = "main_lines printable config_flag addr cfile pfile env draws received h dash pos"
    have "?calls = ls @ take pos (session_lines printable addr env draws received h cfg pm) @ dashboard_lines dash
        @ drop pos (session_lines printable addr env draws received h cfg pm)"
      by (simp add: main_lines_def parts Some c Let_def)
    note members = after_members[OF this]
    have "(Debug, m) \<notin> set ?calls" for m
      unfolding members using before sessions[of cfg pm] by (auto simp: parts image_iff)
    then show ?thesis by auto
  qed
qed

text \<open>
  C33: What the start reports. The errors \<open>main\<close> writes are the reason it exits for, exactly when it exits
  before the scheduler starts, and, from the goroutine of the dashboard, the error that one fails to
  listen with, which ends nothing; without the latter the reason is the last line. It reports the start
  of the scheduler exactly when it gets there, and then the number of sessions it has. Every call
  becomes one message under the prefix of its severity, since the level admits them all. No file name can
  break a message of the severity \<open>Info\<close> into lines; it can break an error, since the error of \<open>os.Open\<close>
  has the path unquoted, as the witness shows.
\<close>

theorem main_reports_outcome:
  assumes "calls = main_lines printable config_flag addr cfile pfile env draws received h dash pos"
    and "r = main_start (go_quote printable) config_flag cfile pfile env draws received order now h"
  shows "(\<forall>m. (Error, m) \<in> set calls \<longleftrightarrow> r = ExitsWith m
        \<or> (\<exists>e. dash = Some e \<and> m = ''dashboard server error: '' @ e \<and> snd (setup_lines printable config_flag cfile pfile) \<noteq> None))
    \<and> (dash = None \<longrightarrow> (\<forall>msg. r = ExitsWith msg \<longleftrightarrow> (\<exists>ls. calls = ls @ [(Error, msg)])))
    \<and> ((\<exists>e. r = startup.Started e) \<longleftrightarrow> (Info, ''scheduler started; sessions are now active'') \<in> set calls)
    \<and> (\<forall>e. r = startup.Started e \<longrightarrow> (Info, decimal (session_count (en_manager e)) @ '' sessions created'') \<in> set calls)
    \<and> console stamps calls = map2 (\<lambda>stamp (sev, m). output_line \<lparr>sl_prefix = severity_prefix sev\<rparr> stamp m) stamps calls
    \<and> (one_line addr \<longrightarrow> (\<forall>m. (Info, m) \<in> set calls \<longrightarrow> one_line m))"
proof -
  have pass: "console stamps calls = map2 (\<lambda>stamp (sev, m). output_line \<lparr>sl_prefix = severity_prefix sev\<rparr> stamp m) stamps calls"
    unfolding assms(1) by (rule console_passes, rule main_lines_no_debug)
  have info: "one_line addr \<longrightarrow> (\<forall>m. (Info, m) \<in> set calls \<longrightarrow> one_line m)"
    using info_lines assms(1) by blast
  from assms(2) show ?thesis
  proof (cases rule: setup_lines_cases)
    case (failed ls msg)
    have calls: "calls = ls @ [(Error, msg)]" by (simp add: assms(1) main_lines_def failed(1))
    have "(Info, started_line) \<notin> set calls"
      using setup_not_started[of printable config_flag cfile pfile] by (simp add: calls failed(1))
    moreover have "(Error, m) \<in> set calls \<longleftrightarrow> r = ExitsWith m" for m
      using failed(2,3) by (auto simp: calls image_iff)
    moreover have "r = ExitsWith m \<longleftrightarrow> (\<exists>ls. calls = ls @ [(Error, m)])" for m
      using failed(2) by (auto simp: calls)
    ultimately show ?thesis using failed(1,2) pass info by simp
  next
    case (loaded ls cfg pm)
    let ?after = "session_lines printable addr env draws received h cfg pm"
    have calls: "calls = ls @ take pos ?after @ dashboard_lines dash @ drop pos ?after"
      by (simp add: assms(1) main_lines_def loaded(1) Let_def)
    note members = after_members[OF calls]
    note after = session_lines_cases[OF assms(2) loaded(2,3) refl, of addr, THEN conjunct2]
    have reason: "(Error, m) \<in> set ?after \<longleftrightarrow> r = ExitsWith m" for m
      using after by (rule after_cases) (auto simp: image_iff)
    have errors: "(Error, m) \<in> set calls \<longleftrightarrow> r = ExitsWith m \<or> (\<exists>e. dash = Some e \<and> m = ''dashboard server error: '' @ e)" for m
      using loaded(4) unfolding members by (auto simp: image_iff reason)
    have unstarted: "(Info, started_line) \<notin> set ls"
      using setup_not_started[of printable config_flag cfile pfile] by (simp add: loaded(1))
    have "(\<exists>e. r = startup.Started e) \<longleftrightarrow> (Info, started_line) \<in> set ?after"
      using after by (rule after_cases) auto
    then have started: "(\<exists>e. r = startup.Started e) \<longleftrightarrow> (Info, started_line) \<in> set calls"
      using unstarted unfolding members by simp
    have count: "(Info, decimal (session_count (en_manager e)) @ '' sessions created'') \<in> set calls" if "r = startup.Started e" for e
      using after by (rule after_cases) (simp_all add: members that)
    have final: "r = ExitsWith msg \<longleftrightarrow> (\<exists>ls. calls = ls @ [(Error, msg)])" if "dash = None" for msg
    proof
      assume exits: "r = ExitsWith msg"
      have "\<exists>l. ?after = l @ [(Error, msg)]" using after by (rule after_cases) (simp_all add: exits)
      then obtain l where "?after = l @ [(Error, msg)]" ..
      moreover have "calls = ls @ ?after" using calls that by (simp add: dashboard_lines_def)
      ultimately show "\<exists>ls. calls = ls @ [(Error, msg)]" by simp
    next
      assume "\<exists>ls. calls = ls @ [(Error, msg)]"
      then have "(Error, msg) \<in> set calls" by auto
      then show "r = ExitsWith msg" using errors[of msg] that by simp
    qed
    show ?thesis
    proof (intro conjI)
      show "\<forall>m. (Error, m) \<in> set calls \<longleftrightarrow> r = ExitsWith m
        \<or> (\<exists>e. dash = Some e \<and> m = ''dashboard server error: '' @ e \<and> snd (setup_lines printable config_flag cfile pfile) \<noteq> None)"
        by (simp add: errors loaded(1))
      show "dash = None \<longrightarrow> (\<forall>msg. r = ExitsWith msg \<longleftrightarrow> (\<exists>ls. calls = ls @ [(Error, msg)]))" using final by blast
      show "\<forall>e. r = startup.Started e \<longrightarrow> (Info, decimal (session_count (en_manager e)) @ '' sessions created'') \<in> set calls"
        using count by blast
    qed (fact started pass info)+
  qed
qed

text \<open>A proxy file that cannot be opened and has a line end in its name: the error it is reported by is two lines.\<close>

theorem main_reports_outcome_witness:
  "let name = ''p'' @ [newline] @ ''ERROR forged''; cfg = default_config\<lparr>cf_proxy_file := name\<rparr>;
       quoted = ''\"p'' @ [CHR 0x5C, CHR ''n''] @ ''ERROR forged\"'';
       calls = main_lines (\<lambda>_. False) ''c'' '':8080'' (Decoded cfg) (Inl ''no such file'') sample_env [] id sample_heap None 0
   in last calls = (Error, ''failed to load proxies from '' @ quoted @ '': proxy: open '' @ quoted @ '': open '' @ name @ '': no such file'')
     \<and> \<not> one_line (snd (last calls)) \<and> length (console (replicate 3 []) calls) = 3"
proof -
  let ?name = "''p'' @ [newline] @ ''ERROR forged''"
  let ?cfg = "default_config\<lparr>cf_proxy_file := ?name\<rparr>"
  let ?q = "go_quote (\<lambda>_. False)"
  let ?calls = "main_lines (\<lambda>_. False) ''c'' '':8080'' (Decoded ?cfg) (Inl ''no such file'') sample_env [] id sample_heap None 0"
  let ?msg = "''failed to load proxies from '' @ ?q ?name @ '': proxy: open '' @ ?q ?name @ '': open '' @ ?name @ '': no such file''"
  have q: "?q ?name = ''\"p'' @ [CHR 0x5C, CHR ''n''] @ ''ERROR forged\"''"
    by (simp add: go_quote_def quote_ascii_def code_def newline_def)
  have c: "choose_config ?q ''c'' (Decoded ?cfg) = Inr ?cfg" by (simp add: choose_config_def load_config_def)
  have p: "choose_proxies ?q ?cfg (Inl ''no such file'') = Inl (''proxy: open '' @ ?q ?name @ '': open '' @ ?name @ '': no such file'')"
    by (simp add: choose_proxies_def load_proxies_def path_error_def)
  have r: "main_start ?q ''c'' (Decoded ?cfg) (Inl ''no such file'') sample_env [] id (\<lambda>_. []) (At 0 0) sample_heap = ExitsWith ?msg"
    unfolding main_start_def c p sum.case by simp
  note spec = main_reports_outcome[OF refl r[symmetric], of "'':8080''" None 0]
  obtain ls where ls: "?calls = ls @ [(Error, ?msg)]" using spec by blast
  have len: "length ?calls = 3" unfolding main_lines_def setup_lines_def Let_def c p sum.case by simp
  have "console (replicate 3 []) ?calls =
      map2 (\<lambda>stamp (sev, m). output_line \<lparr>sl_prefix = severity_prefix sev\<rparr> stamp m) (replicate 3 []) ?calls"
    using spec by blast
  then have "length (console (replicate 3 []) ?calls) = 3" using len by simp
  moreover have "last ?calls = (Error, ?msg)" using ls by (metis last_snoc)
  moreover have "\<not> one_line ?msg" by (simp add: newline_def code_def)
  ultimately show ?thesis unfolding Let_def q by simp
qed

end
