(* ===== verification/Spec2Isabelle.thy ===== *)
theory Spec2Isabelle
  imports Cluster_Lock Cluster_Rpc Program Config_Text Payload Heartbeat Dashboard_Routes
    Fingerprint Sensor_Json Console
begin

section \<open>A verification library of GoSessionEngine\<close>

text \<open>
  \<^bold>\<open>The program.\<close> GoSessionEngine keeps many HTTP sessions busy. \<open>main.go\<close> reads a configuration
  (\<open>config/\<close>) and a list of proxies (\<open>proxy/\<close>), creates the sessions (\<open>session/\<close>, with HTTP clients
  from \<open>client/\<close>), starts a worker pool (\<open>worker/\<close>) and a scheduler (\<open>scheduler/\<close>) that submits one
  job per session round after round, counts the outcomes (\<open>metrics/\<close>), and shows them on a dashboard
  (\<open>dashboard/\<close>). On a signal it stops the scheduler, then the pool, then the sessions. Beside the
  engine stand packages that \<open>main\<close> does not wire in: a cluster (\<open>cluster/\<close>: a master that shares
  cookies between workers over gRPC, the client of the workers, a keyed lock), the validator of
  response schemas (\<open>payload/\<close>), the token managers (\<open>token/\<close>), browser profiles and sensor payloads
  (\<open>fingerprint/\<close>), the script solver (\<open>jschallenge/\<close>) and the logger (\<open>logger/\<close>).

  \<^bold>\<open>How code is modelled.\<close> A struct is a record whose fields have the names of the code behind a
  prefix; a method is a function from the receiver to the results and the new receiver; an error
  is a value (\<open>goerror option\<close>, or the left of a sum). A Go map is a partial function, and a loop
  that ranges over it takes the order of the visit as an argument, of which a theorem assumes only
  \<open>enumerates\<close>. Pointers that are shared are addresses into a heap (sessions, key mutexes, session
  states). Code that other goroutines can interleave with is an inductive step relation with one
  rule for each action that is atomic in the code; the calls in progress are a multiset, so the
  number of callers is not bounded. Fields of a configuration that no guard of a rule reads are
  history, and are said to be. Counters the code wraps are words (\<open>64 word\<close>), conversions to
  \<open>int64\<close> are those of amd64, and \<open>float64\<close> is an exact fraction rounded where the decoder rounds
  (\<open>Json\<close>), a real number in the sensor's curve and a fraction in the rate of requests.

  \<^bold>\<open>Shared.\<close> \<open>Prelude\<close>: iteration orders of maps, reachability, the locales \<open>invariant_machine\<close>,
  \<open>simulation\<close> and \<open>keyed_store\<close>, counting in a bag of goroutines, channels that drop, times.
  \<open>Go_Strings\<close>: \<open>strings\<close>, \<open>bufio.Scanner\<close>, decimal and hexadecimal text. \<open>Json\<close>: the decoder of
  \<open>encoding/json\<close> into interface values. \<open>Json_Encode\<close>: the encoder, and that decoding what it wrote
  gives the value back. \<open>Json_Struct\<close>: the decoder into structs of integers and strings, and that the
  decoder into interface values is the same scan with the numbers rounded. \<open>Base64\<close>: the decoder of \<open>base64.RawURLEncoding\<close>, exact against an encoder.
\<close>

text \<open>
  \<^bold>\<open>The engine.\<close>
  \<^item> \<open>Proxy\<close> (\<open>proxy/proxy.go\<close>): \<open>load_proxies\<close>, \<open>get_next_proxy\<close>; from the lines of the file to the
    proxies handed out, in order and fairly; no call panics.
  \<^item> \<open>Http_Headers\<close> (\<open>client/ordered_header.go\<close>, \<open>RoundTrip\<close> of \<open>client/h2_transport.go\<close>): both header
    types as instances of one locale of stores keyed up to \<open>CanonicalHeaderKey\<close>; what is sent.
  \<^item> \<open>Http_Client\<close> (\<open>client/client.go\<close>, \<open>h2_transport.go\<close>, \<open>tls_dialer.go\<close>): the constructors, and the
    dialer, which leaks no connection.
  \<^item> \<open>Session\<close> (\<open>session/\<close>): sessions as objects in a heap; creation under any schedule of its
    goroutines, starting, stopping, executing a request.
  \<^item> \<open>Worker_Pool\<close> (\<open>worker/pool.go\<close>): any callers of \<open>Submit\<close> and \<open>Stop\<close>; jobs run exactly once and in
    order, \<open>Stop\<close> returns.
  \<^item> \<open>Engine\<close> (\<open>scheduler/\<close>, \<open>metrics/\<close>, \<open>jobFn\<close> and the shutdown of \<open>main.go\<close>): \<open>engine_step\<close>; the engine
    simulates the pool; rounds of the scheduler; the counters; the shutdown as \<open>main\<close> performs it can
    submit to a closed queue (\<open>shutdown_may_panic\<close>), and is clean if it waits for the scheduler.
  \<^item> \<open>Startup\<close> (\<open>config/config.go\<close>, the start of \<open>main.go\<close>): \<open>main_start\<close> gives an initial state of the engine.
  \<^item> \<open>Config_Text\<close> (\<open>LoadConfig\<close>, and the POST of the dashboard's configuration endpoint): from bytes to
    configurations.
  \<^item> \<open>Program\<close> (\<open>main.go\<close>, \<open>metricsTicker\<close> and \<open>snapshot\<close> of \<open>dashboard/server.go\<close>): the engine and the dashboard on
    their shared counters and configuration, with the ticker, the monitor and the signal, as \<open>program_step\<close>;
    it simulates the engine, and what it shows is what the engine counted, load by load.
  \<^item> This theory: \<open>program_run\<close>, from the command line to the end of the shutdown.
  \<^item> \<open>Logger\<close> (\<open>logger/logger.go\<close>): levels, with callers interleaved. \<open>Console\<close> (\<open>main.go\<close>): the lines \<open>main\<close> writes
    through it and that of the dashboard's goroutine, which report what the start came to.

  \<^bold>\<open>The dashboard\<close> (\<open>dashboard/server.go\<close>). \<open>Dashboard\<close>: the state, the handlers, the JSON of the data.
  \<open>Dashboard_Log\<close>: \<open>AddLog\<close> and any number of log streams interleaved. \<open>Dashboard_Events\<close>: the bytes
  of an event stream decode to the entries that were written, from the calls of \<open>AddLog\<close> to the client. \<open>Dashboard_Routes\<close>: the routing table,
  dispatch through the CORS wrapper, and invariants over any sequence of requests and calls.

  \<^bold>\<open>The cluster.\<close>
  \<^item> \<open>Cluster_Lock\<close> (\<open>cluster/lock.go\<close>): \<open>InMemoryLock\<close> as steps, an \<open>Unlock\<close> by a caller that holds nothing
    included; without an \<open>Unlock\<close> of a present key by such a caller (\<open>stray\<close>, which can crash a holder or drop the entry) it refines a set
    of held keys, with mutual exclusion, a bounded map and no lost lock; \<open>WithLock\<close> in a locale of the interface.
  \<^item> \<open>Cluster_Messages\<close> (\<open>cluster/pb\<close>), \<open>Cluster_Jar\<close>, \<open>Cluster_Controller\<close> (\<open>cluster/controller.go\<close>): the
    messages, the cookie jar, the handlers of the master as functions.
  \<^item> \<open>Cluster_Watch\<close>: the same handlers interleaved, \<open>watch_step\<close>; what a response reflects, no update
    lost, and three interleavings that lose or repeat one.
  \<^item> \<open>Cluster_Worker\<close> (\<open>cluster/worker_client.go\<close>): conversions, calls, the watch loop.
  \<^item> \<open>Cluster_System\<close>: workers and master together, from the cookies uploaded to those handed out.
  \<^item> \<open>Cluster_Rpc\<close> (\<open>cluster/pb/controller_grpc.pb.go\<close>): the generated getters, stubs, handlers and service description
    between the two; over a connection within one process a worker's call has the effect of the master's method.

  \<^bold>\<open>Responses and identities.\<close>
  \<^item> \<open>Payload\<close> (\<open>payload/validator.go\<close>): schemas, their type, and that the differences reported are exactly
    those there are, in one order whatever the maps'.
  \<^item> \<open>Token_Claims\<close>, \<open>Token_Refresh\<close> (\<open>token/refresh.go\<close>): claims, deadlines, refreshing, the background
    goroutines as \<open>token_step\<close>.
  \<^item> \<open>Heartbeat\<close> (\<open>token/heartbeat.go\<close>): states behind pointers, claims by compare-and-swap, extraction,
    the life of the loop.
  \<^item> \<open>Fingerprint\<close>, \<open>Sensor\<close>, \<open>Sensor_Json\<close> (\<open>fingerprint/\<close>): profiles; sensor payloads from their draws to
    the bytes of the request.
  \<^item> \<open>Js_Solver\<close> (\<open>jschallenge/solver.go\<close>): the solver over any engine, quoting in full.
\<close>

text \<open>
  \<^bold>\<open>Bounds and fuel.\<close> The recursive descent of the JSON decoder takes fuel twice the length of the text
  plus two; \<open>parse_fuel\<close> and \<open>decoder_fuel_suffices\<close> show that more never changes the result, so the
  fuel is no limit. The limit of 10000 on nesting is the decoder's own. Trimming white space takes the
  length of the text as fuel, for a round that goes on removes at least a byte. Buffers have the capacities of the
  code: 32 updates for a watcher, 256 log entries and 16 snapshots for a stream, four times the workers for the
  queue of the pool. The loops of the scheduler, the workers, the
  streams and the tickers do not end by themselves; they are steps, and theorems that something
  returns (\<open>pool_stop_returns\<close>, \<open>token_stop_ends_loops\<close>, \<open>lock_not_lost\<close>) bound the steps still needed.

  \<^bold>\<open>Arguments of the model.\<close> What is not in the repository is an argument, with what is used of it as
  a hypothesis: sending a request, parsing a URL, dialling and the uTLS handshake, the script engine,
  the outcome of opening a file and its bytes, the connection of gRPC and its decoder, the random source (\<open>fair_draws\<close>: a draw is
  within its bound), the clock, the text of a \<open>float64\<close>, which characters beyond ASCII are printable.

  \<^bold>\<open>Not modelled.\<close> Of the generated code of \<open>cluster/pb\<close> the
  reflection tables; the wire format and the transport of gRPC, so that no theorem speaks of calls lost on
  the way. The
  listening and the time limits of the dashboard's \<open>ListenAndServe\<close>, which are those of \<open>net/http\<close>, and the cleaning of paths done there.
  The parsing of flags. The memory model: fields the code reads and writes without a lock are written and read
  whole here. While the engine starts, the configuration does not change, though the dashboard could
  change it. The front end, in another language, and the tests.
\<close>

section \<open>A whole run of the program\<close>

lemma count_list_concat_replicate: "count_list (concat (replicate k xs)) x = k * count_list xs x"
  by (induction k) auto

lemma count_list_distinct: "distinct xs \<Longrightarrow> count_list xs x = (if x \<in> set xs then 1 else 0)"
  by (induction xs) auto

text \<open>Sessions with objects of their own are each in a round once.\<close>

lemma rounds_distinct:
  assumes "length jobs = card (dom m)" "set jobs = ran m" "finite (dom m)" "\<And>i j r. m i = Some r \<Longrightarrow> m j = Some r \<Longrightarrow> i = j"
  shows "distinct jobs"
proof -
  have "inj_on (\<lambda>i. the (m i)) (dom m)" using assms(4) by (auto simp: inj_on_def)
  moreover have "(\<lambda>i. the (m i)) ` dom m = ran m" by (force simp: ran_def dom_def)
  ultimately have "card (set jobs) = length jobs" using assms(1,2) by (metis card_image)
  then show ?thesis by (rule card_distinct)
qed

lemma rounds_balanced:
  assumes "sent = concat (replicate k jobs) @ take i jobs" "distinct jobs" "r \<in> set jobs"
  shows "count_list sent r \<in> {k, k + 1}"
  using assms count_list_distinct[of "take i jobs" r] by (auto simp: count_list_concat_replicate count_list_distinct)

text \<open>
  C6: From the command line to the end. Started by \<open>main\<close> on a configuration for some number of
  sessions, with the dashboard's clients requesting whatever they like, the counters displayed and
  the target changed under way, and with the pool stopped only once the scheduler's goroutine has ended, the engine
  never panics on its queue; while it runs, every session has been given the same number of jobs as
  every other one, up to one; and once \<open>main\<close> has finished, each job submitted has run exactly once,
  all the sessions are closed, and every request is counted as a success or a failure.
\<close>

theorem program_run:
  assumes "main_start quote config_flag cfile pfile env draws received order now h = Startup.Started e0"
    and "choose_config quote config_flag cfile = Inr cfg"
    and "mset draws = mset [0..cf_number_of_sessions cfg - 1]" "\<And>rs. mset (received rs) = mset rs"
    and "\<And>sm. dom (mg_sessions sm) = {0..<cf_number_of_sessions cfg} \<Longrightarrow> enumerates (mg_sessions sm) (order sm)"
    and "reach (\<lambda>x. x = program_new e0 cfg) (program_step quote True) p" and "e = pr_engine p"
  shows "en_sched e \<noteq> SchedPanicked
    \<and> (en_main e \<noteq> MainDone \<longrightarrow> (\<exists>k. \<forall>i \<in> {0..<cf_number_of_sessions cfg}. \<exists>r.
          get_session i (en_manager e0) = Some r \<and> count_list (en_sent e) r \<in> {k, k + 1}))
    \<and> (en_main e = MainDone \<longrightarrow> en_finished e = mset (en_sent e)
        \<and> (\<forall>i \<in> {0..<cf_number_of_sessions cfg}. \<exists>r.
              get_session i (en_manager e0) = Some r \<and> ss_state (sh_mem (en_heap e) r) = ''closed'')
        \<and> mt_total (en_metrics e) = mt_success (en_metrics e) + mt_failed (en_metrics e))"
proof -
  let ?n = "cf_number_of_sessions cfg" and ?sm = "en_manager e0"
  have start: "engine_initial ?n ?sm (en_heap e0) e0" "session_count ?sm = ?n" "dom (mg_sessions ?sm) = {0..<?n}"
    "\<And>i j r. get_session i ?sm = Some r \<Longrightarrow> get_session j ?sm = Some r \<Longrightarrow> i = j"
    using main_starts_result[OF assms(1-5)] by blast+
  have r: "reach (engine_initial ?n ?sm (en_heap e0)) (engine_step True) e"
    unfolding assms(7) using program_engine.reach_abs[OF assms(6)] start(1) by (rule reach_from_initial[where initial = "engine_initial ?n ?sm (en_heap e0)"])
  have some: "\<exists>r. get_session i ?sm = Some r" if "i \<in> {0..<?n}" for i
    using that start(3) unfolding get_session_def by blast
  have "\<exists>k. \<forall>i \<in> {0..<?n}. \<exists>r. get_session i ?sm = Some r \<and> count_list (en_sent e) r \<in> {k, k + 1}"
    if "en_main e \<noteq> MainDone"
  proof -
    from scheduler_rounds[OF r that] obtain k j where
      sent: "en_sent e = concat (replicate k (dispatch_jobs ?sm)) @ take j (dispatch_jobs ?sm)"
      and round: "length (dispatch_jobs ?sm) = card (dom (mg_sessions ?sm))" "set (dispatch_jobs ?sm) = ran (mg_sessions ?sm)"
      using start(2,3) by auto
    have "finite (dom (mg_sessions ?sm))" by (simp add: start(3))
    from rounds_distinct[OF round this] start(4) have "distinct (dispatch_jobs ?sm)" unfolding get_session_def by blast
    from rounds_balanced[OF sent this]
    have "count_list (en_sent e) r \<in> {k, k + 1}" if "get_session i ?sm = Some r" for i r
      using that unfolding round(2) get_session_def by (blast intro: ranI)
    with some show ?thesis by blast
  qed
  with engine_shutdown_facts[OF r] some show ?thesis by blast
qed

text \<open>An engine with one worker that is stopped before its first round.\<close>

lemma stopped_at_once:
  assumes "en_sched e = SchedSelect" "en_main e = MainRunning" "en_workers e = {#Idle#}"
    and "en_pool e = \<lparr>wp_worker_count = 1, wp_queue = [], wp_closed = False, wp_wg = 1\<rparr>"
    and "enumerates (mg_sessions (en_manager e)) order"
  shows "\<exists>e'. (own_step True)\<^sup>*\<^sup>* e e' \<and> en_main e' = MainDone"
proof -
  let ?p = "\<lparr>wp_worker_count = 1, wp_queue = [], wp_closed = True, wp_wg = 1\<rparr>"
  let ?e1 = "e\<lparr>en_main := MainStopped, en_stop_ch := True\<rparr>"
  let ?e2 = "?e1\<lparr>en_sched := SchedExited\<rparr>"
  let ?e3 = "?e2\<lparr>en_main := MainWaiting, en_pool := ?p\<rparr>"
  let ?e4 = "?e3\<lparr>en_workers := {#}, en_pool := wg_done ?p\<rparr>"
  obtain sm h where stop: "stop_all order (en_manager e) (en_heap e) = (sm, h)" by fastforce
  have "own_step True e ?e1" using scheduler_stop[OF assms(2), of True] by (simp add: own_step_def)
  moreover have "own_step True ?e1 ?e2" using select_stop[of ?e1 True] by (simp add: own_step_def assms(1))
  moreover have "own_step True ?e2 ?e3" using pool_stop[of ?e2 True ?p] by (simp add: own_step_def assms(4) close_queue_def)
  moreover have "own_step True ?e3 ?e4" using leave_loop[of ?e3 "{#}" True] by (simp add: own_step_def assms(3) next_job_def)
  moreover have "own_step True ?e4 (?e4\<lparr>en_main := MainDone, en_manager := sm, en_heap := h\<rparr>)"
    using sessions_stop[of ?e4 order sm h True] by (simp add: own_step_def wg_done_def assms(5) stop)
  ultimately have "(own_step True)\<^sup>*\<^sup>* e (?e4\<lparr>en_main := MainDone, en_manager := sm, en_heap := h\<rparr>)"
    by (meson converse_rtranclp_into_rtranclp rtranclp.rtrancl_refl)
  then show ?thesis by (intro exI[of _ "?e4\<lparr>en_main := MainDone, en_manager := sm, en_heap := h\<rparr>"]) simp
qed

lemma program_stopped:
  assumes "(own_step True)\<^sup>*\<^sup>* e0 e" "en_main e0 = MainRunning"
  shows "\<exists>p. reach (\<lambda>x. x = program_new e0 cfg) (program_step quote True) p \<and> pr_engine p = e"
proof -
  let ?p = "program_new e0 cfg"
  have "reach (\<lambda>x. x = ?p) (program_step quote True) ?p" by (rule reach_initial) simp
  moreover have "en_main (pr_engine ?p) = MainRunning" "\<not> pr_signalled ?p" by (simp_all add: program_new_def assms(2))
  from signal[OF this] obtain p1 where p1: "program_step quote True ?p p1" "pr_engine p1 = pr_engine ?p" "pr_signalled p1"
    by fastforce
  ultimately have r: "reach (\<lambda>x. x = ?p) (program_step quote True) p1" by (blast intro: reach_step)
  have "(own_step True)\<^sup>*\<^sup>* (pr_engine p1) e" using assms(1) p1(2) by (simp add: program_new_def)
  from own_steps[OF this r p1(3)] show ?thesis by blast
qed

theorem program_run_witness:
  "let cfg = default_config\<lparr>cf_number_of_sessions := 1\<rparr>; order = (\<lambda>sm. [(0, the (mg_sessions sm 0))])
   in \<exists>e0 p r. main_start id ''c'' (Decoded cfg) (Inr ([], None)) sample_env [0] id order (At 0 0) sample_heap = Startup.Started e0
     \<and> reach (\<lambda>x. x = program_new e0 cfg) (program_step id True) p \<and> en_main (pr_engine p) = MainDone
     \<and> get_session 0 (en_manager e0) = Some r \<and> ss_state (sh_mem (en_heap (pr_engine p)) r) = ''closed''"
proof -
  let ?cfg = "default_config\<lparr>cf_number_of_sessions := 1\<rparr>"
  let ?order = "\<lambda>sm. [(0, the (mg_sessions sm 0))]"
  have cfg: "choose_config id ''c'' (Decoded ?cfg) = Inr ?cfg" by (simp add: choose_config_def load_config_def)
  have order: "enumerates (mg_sessions sm) (?order sm)" if "dom (mg_sessions sm) = {0..<cf_number_of_sessions ?cfg}" for sm
  proof -
    have "mg_sessions sm k \<noteq> None \<longleftrightarrow> k = 0" for k using that by (auto simp: dom_def set_eq_iff)
    then have dom: "\<And>k. k \<noteq> 0 \<Longrightarrow> mg_sessions sm k = None" "mg_sessions sm 0 \<noteq> None" by blast+
    from dom(1) show ?thesis using dom(2) by (auto simp: enumerates_def fun_eq_iff)
  qed
  have pm: "choose_proxies id ?cfg (Inr ([], None)) = Inr new_proxy_manager"
    by (simp add: choose_proxies_def default_config_def)
  obtain pm1 sm h1 where c: "create_sessions id sample_env [0] id 1 (Some new_proxy_manager)
      (new_session_manager (Some ?cfg)) sample_heap = Some (CreateOk, pm1, sm, h1)" "dom (mg_sessions sm) = {0}"
    by (simp add: create_sessions_def new_session_manager_def get_next_proxy_def new_proxy_manager_def
        new_session_def new_http_client_cases sample_env_def Let_def manager_put_def)
  obtain e0 where e0: "main_start id ''c'' (Decoded ?cfg) (Inr ([], None)) sample_env [0] id ?order (At 0 0) sample_heap = Startup.Started e0"
    "e0 = engine_new 1 sm (start_all (?order sm) h1) (cf_target_url ?cfg) (At 0 0)"
    using c(1) by (simp add: main_start_def cfg pm)
  have en: "en_sched e0 = SchedSelect" "en_main e0 = MainRunning" "en_workers e0 = {#Idle#}" "en_manager e0 = sm"
    "en_pool e0 = \<lparr>wp_worker_count = 1, wp_queue = [], wp_closed = False, wp_wg = 1\<rparr>"
    by (simp_all add: e0(2) engine_new_def pool_start_def start_loop_result new_worker_pool_def)
  have "{0} = {0..<1 :: int}" by auto
  then have "enumerates (mg_sessions (en_manager e0)) (?order sm)" using order[of sm] c(2) by (simp add: en(4))
  from stopped_at_once[OF en(1-3,5) this] obtain e where e: "(own_step True)\<^sup>*\<^sup>* e0 e" "en_main e = MainDone"
    by blast
  obtain p where p: "reach (\<lambda>x. x = program_new e0 ?cfg) (program_step id True) p" "pr_engine p = e"
    using program_stopped[OF e(1) en(2)] by blast
  have draws: "mset [0] = mset [0..cf_number_of_sessions ?cfg - 1]" by simp
  obtain r where "get_session 0 (en_manager e0) = Some r" "ss_state (sh_mem (en_heap e) r) = ''closed''"
    using program_run[OF e0(1) cfg draws _ order p(1) p(2)[symmetric]] e(2) by fastforce
  with e0(1) e(2) p show ?thesis unfolding Let_def by blast
qed

end
